(* ===== verification/Prelude.thy ===== *)
theory Prelude
  imports Main "HOL-Library.Word"
begin

text \<open>
  Shared vocabulary of the development: Rust's integer and string operations that the
  adapter uses, result values, and the generic list lemmas the components share.

  \<^item> \<open>u8\<close>, \<open>u16\<close>, \<open>u64\<close> are words. \<open>usize\<close> values (lengths, limits) are natural numbers
    bounded by \<open>usize_max\<close>, with saturation written out where the code saturates.
  \<^item> A \<open>&str\<close> or header value is a \<open>string\<close>, read as its bytes.
  \<^item> \<open>Result<T, E>\<close> is the sum \<open>'e + 'a\<close> with \<open>Inl\<close> the error.
\<close>

named_theorems checked_arith "facts about Rust's checked and saturating integer operations"
named_theorems str_ops "definitions of Rust's string operations"

type_synonym u8 = "8 word"
type_synonym u16 = "16 word"
type_synonym u64 = "64 word"
type_synonym bytes = "u8 list"

section \<open>Results\<close>

fun res_bind :: "'e + 'a \<Rightarrow> ('a \<Rightarrow> 'e + 'b) \<Rightarrow> 'e + 'b" where
  "res_bind (Inl e) f = Inl e"
| "res_bind (Inr a) f = f a"

abbreviation ok :: "'e + 'a \<Rightarrow> bool" where
  "ok r \<equiv> \<not> isl r"

definition ok_or :: "'a option \<Rightarrow> 'e \<Rightarrow> 'e + 'a" where
  "ok_or x e = (case x of None \<Rightarrow> Inl e | Some a \<Rightarrow> Inr a)"

lemma ok_or_simps [simp]: "ok_or None e = Inl e" "ok_or (Some a) e = Inr a"
  by (simp_all add: ok_or_def)

lemma res_bind_Inr_iff: "res_bind r f = Inr b \<longleftrightarrow> (\<exists>a. r = Inr a \<and> f a = Inr b)"
  by (cases r) auto

lemma res_bind_Inl_iff: "res_bind r f = Inl e \<longleftrightarrow> r = Inl e \<or> (\<exists>a. r = Inr a \<and> f a = Inl e)"
  by (cases r) auto

lemma res_bind_assoc: "res_bind (res_bind r f) g = res_bind r (\<lambda>a. res_bind (f a) g)"
  by (cases r) auto

lemma ok_or_Inr_iff: "ok_or x e = Inr a \<longleftrightarrow> x = Some a"
  by (cases x) auto

section \<open>Checked and saturating arithmetic\<close>

definition usize_max :: nat where
  "usize_max = 2 ^ 64 - 1"

definition saturating_add :: "nat \<Rightarrow> nat \<Rightarrow> nat" where
  "saturating_add a b = min (a + b) usize_max"

lemma saturating_add_gt [checked_arith]:
  "l < usize_max \<Longrightarrow> l < saturating_add a b \<longleftrightarrow> l < a + b"
  by (auto simp: saturating_add_def)

lemma saturating_add_exact [checked_arith]:
  "saturating_add a b \<le> l \<Longrightarrow> l < usize_max \<Longrightarrow> saturating_add a b = a + b"
  by (auto simp: saturating_add_def)

definition checked_add :: "u64 \<Rightarrow> u64 \<Rightarrow> u64 option" where
  "checked_add a b = (if unat a + unat b < 2 ^ 64 then Some (a + b) else None)"

definition checked_sub :: "u64 \<Rightarrow> u64 \<Rightarrow> u64 option" where
  "checked_sub a b = (if b \<le> a then Some (a - b) else None)"

lemma checked_add_Some_iff [checked_arith]:
  "checked_add a b = Some c \<longleftrightarrow> unat c = unat a + unat b"
proof
  assume "checked_add a b = Some c"
  then show "unat c = unat a + unat b"
    by (auto simp: checked_add_def unat_word_ariths split: if_splits)
next
  assume u: "unat c = unat a + unat b"
  have "unat c < 2 ^ 64"
    using unsigned_less [of c] by simp
  with u have lt: "unat a + unat b < 2 ^ 64" by simp
  then have "unat (a + b) = unat a + unat b"
    by (simp add: unat_word_ariths)
  with u have "a + b = c"
    by (simp add: word_unat_eq_iff)
  with lt show "checked_add a b = Some c"
    by (simp add: checked_add_def)
qed

lemma checked_add_None_iff [checked_arith]:
  "checked_add a b = None \<longleftrightarrow> 2 ^ 64 \<le> unat a + unat b"
  by (auto simp: checked_add_def)

lemma checked_sub_Some_iff [checked_arith]:
  "checked_sub a b = Some c \<longleftrightarrow> unat a = unat c + unat b"
proof
  assume "checked_sub a b = Some c"
  then have "b \<le> a" "c = a - b"
    by (auto simp: checked_sub_def split: if_splits)
  then show "unat a = unat c + unat b"
    by (simp add: unat_sub word_le_nat_alt)
next
  assume u: "unat a = unat c + unat b"
  then have le: "b \<le> a" by (simp add: word_le_nat_alt)
  then have "unat (a - b) = unat a - unat b" by (simp add: unat_sub)
  with u have "a - b = c" by (simp add: word_unat_eq_iff)
  with le show "checked_sub a b = Some c" by (simp add: checked_sub_def)
qed

section \<open>Sizes of nested lists\<close>

lemma size_list_le_Suc [termination_simp]: "size_list f xs < Suc (size_list (\<lambda>x. Suc (f x)) xs)"
  by (induction xs) auto

section \<open>Little-endian bytes\<close>

definition to_le_bytes :: "u64 \<Rightarrow> bytes" where
  "to_le_bytes w = map (\<lambda>i. ucast (drop_bit (8 * i) w)) [0..<8]"

fun from_le_bytes :: "bytes \<Rightarrow> u64" where
  "from_le_bytes [] = 0"
| "from_le_bytes (b # bs) = ucast b + 256 * from_le_bytes bs"

lemma length_to_le_bytes [simp]: "length (to_le_bytes w) = 8"
  by (simp add: to_le_bytes_def)

lemma byte_step: "ucast (ucast (w::u64) :: u8) + 256 * drop_bit 8 w = w"
proof -
  have "(ucast (ucast w :: u8) :: u64) = take_bit 8 w"
    by (simp add: unsigned_ucast_eq)
  moreover have "256 * drop_bit 8 w = push_bit 8 (drop_bit 8 w)"
    by (simp add: push_bit_eq_mult)
  moreover have "take_bit 8 w + push_bit 8 (drop_bit 8 w) = w"
   by (metis add.commute bits_ident)
  ultimately show ?thesis by simp
qed

lemma from_le_prefix:
  "from_le_bytes (map (\<lambda>i. ucast (drop_bit (8 * i) w)) [0..<n]) + 256 ^ n * drop_bit (8 * n) w = w"
proof (induction n arbitrary: w)
  case 0
  then show ?case by simp
next
  case (Suc n)
  let ?r = "from_le_bytes (map (\<lambda>i. ucast (drop_bit (8 * i) (drop_bit 8 w))) [0..<n])"
  have m: "map (\<lambda>i. ucast (drop_bit (8 * i) w)) [0..<Suc n] =
      (ucast w :: u8) # map (\<lambda>i. ucast (drop_bit (8 * i) (drop_bit 8 w))) [0..<n]"
    by (simp add: upt_conv_Cons map_Suc_upt [symmetric] algebra_simps del: upt_Suc)
  have d: "drop_bit (8 * Suc n) w = drop_bit (8 * n) (drop_bit 8 w)"
    by (simp add: algebra_simps)
  have "?r + 256 ^ n * drop_bit (8 * Suc n) w = drop_bit 8 w"
    unfolding d by (rule Suc)
  then have "256 * (?r + 256 ^ n * drop_bit (8 * Suc n) w) = 256 * drop_bit 8 w"
    by (rule arg_cong)
  then have "256 * ?r + 256 ^ Suc n * drop_bit (8 * Suc n) w = 256 * drop_bit 8 w"
    unfolding distrib_left power_Suc mult.assoc .
  then show ?case
    unfolding m from_le_bytes.simps add.assoc by (simp only: byte_step)
qed

lemma from_to_le_bytes [simp]: "from_le_bytes (to_le_bytes w) = w"
  using from_le_prefix [of w 8] by (simp add: to_le_bytes_def)

lemma to_from_le_bytes:
  assumes "length bs = 8"
  shows "to_le_bytes (from_le_bytes bs) = bs"
proof -
  let ?L = "{bs :: bytes. set bs \<subseteq> UNIV \<and> length bs = 8}"
  have "inj to_le_bytes"
    by (rule inj_on_inverseI [where g = from_le_bytes]) (rule from_to_le_bytes)
  then have "card (range to_le_bytes) = card (UNIV :: u64 set)"
    by (rule card_image)
  also have "\<dots> = card ?L"
    by (subst card_lists_length_eq) (simp_all add: card_word)
  finally have "range to_le_bytes = ?L"
    by (intro card_subset_eq finite_lists_length_eq) auto
  with assms obtain w where "bs = to_le_bytes w" by auto
  then show ?thesis by simp
qed

section \<open>Strings\<close>

abbreviation byte_of :: "char \<Rightarrow> nat" where
  "byte_of c \<equiv> of_char c"

definition is_ascii_upper :: "char \<Rightarrow> bool" where
  "is_ascii_upper c \<longleftrightarrow> 65 \<le> byte_of c \<and> byte_of c \<le> 90"

definition is_ascii_lower :: "char \<Rightarrow> bool" where
  "is_ascii_lower c \<longleftrightarrow> 97 \<le> byte_of c \<and> byte_of c \<le> 122"

definition is_ascii_digit :: "char \<Rightarrow> bool" where
  "is_ascii_digit c \<longleftrightarrow> 48 \<le> byte_of c \<and> byte_of c \<le> 57"

definition is_ascii_alphabetic :: "char \<Rightarrow> bool" where
  "is_ascii_alphabetic c \<longleftrightarrow> is_ascii_upper c \<or> is_ascii_lower c"

definition to_ascii_lowercase :: "char \<Rightarrow> char" where
  "to_ascii_lowercase c = (if is_ascii_upper c then char_of (byte_of c + 32) else c)"

definition to_ascii_uppercase :: "char \<Rightarrow> char" where
  "to_ascii_uppercase c = (if is_ascii_lower c then char_of (byte_of c - 32) else c)"

definition eq_ignore_ascii_case :: "string \<Rightarrow> string \<Rightarrow> bool" where
  "eq_ignore_ascii_case a b \<longleftrightarrow> map to_ascii_lowercase a = map to_ascii_lowercase b"

lemmas ascii_defs [str_ops] =
  is_ascii_upper_def is_ascii_lower_def is_ascii_digit_def is_ascii_alphabetic_def
  to_ascii_lowercase_def to_ascii_uppercase_def eq_ignore_ascii_case_def

text \<open>\<open>str::trim\<close> on the visible-ASCII text the header accessors yield.\<close>

definition is_ws :: "char \<Rightarrow> bool" where
  "is_ws c \<longleftrightarrow> byte_of c \<in> {9, 10, 11, 12, 13, 32}"

definition trim_matches :: "('a \<Rightarrow> bool) \<Rightarrow> 'a list \<Rightarrow> 'a list" where
  "trim_matches P s = rev (dropWhile P (rev (dropWhile P s)))"

definition str_trim :: "string \<Rightarrow> string" where
  "str_trim s = trim_matches is_ws s"

text \<open>\<open>str::split\<close> on one character: every string has at least one piece.\<close>

fun split_on :: "'a \<Rightarrow> 'a list \<Rightarrow> 'a list list" where
  "split_on c [] = [[]]"
| "split_on c (x # xs) =
     (if x = c then [] # split_on c xs
      else case split_on c xs of [] \<Rightarrow> [[x]] | p # ps \<Rightarrow> (x # p) # ps)"

fun split_once :: "'a \<Rightarrow> 'a list \<Rightarrow> ('a list \<times> 'a list) option" where
  "split_once c [] = None"
| "split_once c (x # xs) =
     (if x = c then Some ([], xs)
      else map_option (\<lambda>(a, b). (x # a, b)) (split_once c xs))"

lemma split_on_ne [simp]: "split_on c s \<noteq> []"
  by (induction s) (auto split: list.splits)

lemma split_on_pieces: "p \<in> set (split_on c s) \<Longrightarrow> c \<notin> set p"
proof (induction s arbitrary: p)
  case Nil
  then show ?case by simp
next
  case (Cons x xs)
  then show ?case
    by (cases "split_on c xs") (auto split: if_splits)
qed

lemma split_on_none: "c \<notin> set s \<Longrightarrow> split_on c s = [s]"
  by (induction s) auto

lemma split_once_Some: "split_once c s = Some (a, b) \<longleftrightarrow> s = a @ c # b \<and> c \<notin> set a"
proof (induction s arbitrary: a)
  case Nil
  then show ?case by simp
next
  case (Cons x xs)
  show ?case
  proof (cases "x = c")
    case True
    then show ?thesis by (cases a) auto
  next
    case False
    with Cons show ?thesis by (cases a) auto
  qed
qed

definition strip_suffix :: "'a list \<Rightarrow> 'a list \<Rightarrow> 'a list option" where
  "strip_suffix suf s =
     (if length suf \<le> length s \<and> drop (length s - length suf) s = suf
      then Some (take (length s - length suf) s) else None)"

lemma strip_suffix_Some: "strip_suffix suf s = Some p \<longleftrightarrow> s = p @ suf"
proof
  assume "strip_suffix suf s = Some p"
  then have "drop (length s - length suf) s = suf" "p = take (length s - length suf) s"
    by (auto simp: strip_suffix_def split: if_splits)
  then show "s = p @ suf" by (metis append_take_drop_id)
qed (simp add: strip_suffix_def)

text \<open>\<open>str::parse::<usize>\<close>: an optional plus sign, then decimal digits without overflow.\<close>

definition digits_val :: "string \<Rightarrow> nat" where
  "digits_val s = foldl (\<lambda>n c. 10 * n + (byte_of c - 48)) 0 s"

definition parse_usize :: "string \<Rightarrow> nat option" where
  "parse_usize s =
     (let d = (case s of [] \<Rightarrow> [] | c # cs \<Rightarrow> if c = CHR ''+'' then cs else s)
      in if d = [] \<or> \<not> list_all is_ascii_digit d then None
         else if digits_val d \<le> usize_max then Some (digits_val d) else None)"

lemma parse_usize_bound: "parse_usize s = Some n \<Longrightarrow> n \<le> usize_max"
  by (auto simp: parse_usize_def Let_def split: if_splits)

text \<open>\<open>to_string\<close> of an unsigned integer.\<close>

fun show_nat :: "nat \<Rightarrow> string" where
  "show_nat n = (if n < 10 then [char_of (48 + n)] else show_nat (n div 10) @ [char_of (48 + n mod 10)])"

declare show_nat.simps [simp del]

end
