(* ===== verification/Storage_Record.thy ===== *)
theory Storage_Record
  imports Prelude
begin

text \<open>
  The persistent control record of a managed static root
  (\<^verbatim>\<open>src/static_routes/storage.rs\<close>): the storage limits, the storage errors, and the
  40-byte record that carries the limits and the publication generation.

  A file is its readable contents, or the I/O error reading it reports. The lemmas show that the record
  codec is a bijection between the well-formed 40-byte records and pairs of limits and
  generation, and that bumping the generation keeps the limits.
\<close>

datatype io_kind =
    NotFound | PermissionDenied | AlreadyExists | WouldBlock | InvalidInput | InvalidData
  | NotADirectory | OtherKind

datatype io_error = Io_Error (io_error_kind: io_kind) (io_message: string)

datatype storage_error =
    Busy
  | LimitExceeded string u64 u64
  | PolicyMismatch
  | BindingRequired
  | InvalidPolicy
  | UnsupportedRoot
  | UnsupportedPlatform
  | Io io_error
  | Overflow

fun is_capacity :: "storage_error \<Rightarrow> bool" where
  "is_capacity Busy = True"
| "is_capacity (LimitExceeded r l q) = True"
| "is_capacity _ = False"

text \<open>\<open>PartialEq\<close> compares I/O errors by kind and message.\<close>

definition storage_error_eq :: "storage_error \<Rightarrow> storage_error \<Rightarrow> bool" where
  "storage_error_eq self other =
     (case (self, other) of
        (Io a, Io b) \<Rightarrow> io_error_kind a = io_error_kind b \<and> io_message a = io_message b
      | (LimitExceeded a b c, LimitExceeded x y z) \<Rightarrow> (a, b, c) = (x, y, z)
      | (Busy, Busy) \<Rightarrow> True
      | (PolicyMismatch, PolicyMismatch) \<Rightarrow> True
      | (BindingRequired, BindingRequired) \<Rightarrow> True
      | (InvalidPolicy, InvalidPolicy) \<Rightarrow> True
      | (UnsupportedRoot, UnsupportedRoot) \<Rightarrow> True
      | (UnsupportedPlatform, UnsupportedPlatform) \<Rightarrow> True
      | (Overflow, Overflow) \<Rightarrow> True
      | _ \<Rightarrow> False)"

lemma storage_error_eq_iff: "storage_error_eq a b \<longleftrightarrow> a = b"
  by (cases a; cases b) (auto simp: storage_error_eq_def io_error.expand)

record storage_limits =
  logical_file_bytes :: "u64 option"
  namespace_entries :: "u64 option"

definition storage_limits_new :: storage_limits where
  "storage_limits_new = \<lparr>logical_file_bytes = None, namespace_entries = None\<rparr>"

definition with_logical_file_bytes :: "u64 \<Rightarrow> storage_limits \<Rightarrow> storage_limits" where
  "with_logical_file_bytes maximum l = l\<lparr>logical_file_bytes := Some maximum\<rparr>"

definition with_namespace_entries :: "u64 \<Rightarrow> storage_limits \<Rightarrow> storage_limits" where
  "with_namespace_entries maximum l = l\<lparr>namespace_entries := Some maximum\<rparr>"

record control_record =
  rec_limits :: storage_limits
  rec_generation :: u64

definition RECORD_LEN :: nat where "RECORD_LEN = 40"
definition GENERATION_OFFSET :: nat where "GENERATION_OFFSET = 32"

text \<open>\<open>b"LNTXST02"\<close>\<close>

definition MAGIC :: bytes where
  "MAGIC = [76, 78, 84, 88, 83, 84, 48, 50]"

text \<open>\<open>copy_from_slice\<close> into a subslice that starts at \<open>off\<close>, and the subslice \<open>bytes[a..b]\<close>.\<close>

definition copy_into :: "nat \<Rightarrow> 'a list \<Rightarrow> 'a list \<Rightarrow> 'a list" where
  "copy_into off src dst = take off dst @ src @ drop (off + length src) dst"

definition byte_slice :: "nat \<Rightarrow> nat \<Rightarrow> 'a list \<Rightarrow> 'a list" where
  "byte_slice a b xs = take (b - a) (drop a xs)"

definition flag_byte :: "'a option \<Rightarrow> u8" where
  "flag_byte x = (if x = None then 0 else 1)"

definition unwrap_or :: "'a option \<Rightarrow> 'a \<Rightarrow> 'a" where
  "unwrap_or x d = (case x of None \<Rightarrow> d | Some a \<Rightarrow> a)"

definition encode :: "storage_limits \<Rightarrow> bytes" where
  "encode limits =
     (let b0 = replicate RECORD_LEN 0;
          b1 = copy_into 0 MAGIC b0;
          b2 = b1[8 := flag_byte (logical_file_bytes limits)];
          b3 = b2[9 := flag_byte (namespace_entries limits)];
          b4 = copy_into 16 (to_le_bytes (unwrap_or (logical_file_bytes limits) 0)) b3
      in copy_into 24 (to_le_bytes (unwrap_or (namespace_entries limits) 0)) b4)"

definition decode :: "bytes \<Rightarrow> storage_error + control_record" where
  "decode bs =
     (if length bs \<noteq> RECORD_LEN \<or> take 8 bs \<noteq> MAGIC \<or> bs ! 8 > 1 \<or> bs ! 9 > 1
         \<or> byte_slice 10 16 bs \<noteq> replicate 6 0
      then Inl InvalidPolicy
      else let bytes_value = from_le_bytes (byte_slice 16 24 bs);
               entries_value = from_le_bytes (byte_slice 24 32 bs);
               gen = from_le_bytes (byte_slice 32 40 bs)
           in if (bs ! 8 = 0 \<and> bytes_value \<noteq> 0) \<or> (bs ! 9 = 0 \<and> entries_value \<noteq> 0)
              then Inl InvalidPolicy
              else Inr \<lparr>rec_limits =
                          \<lparr>logical_file_bytes = (if bs ! 8 = 1 then Some bytes_value else None),
                           namespace_entries = (if bs ! 9 = 1 then Some entries_value else None)\<rparr>,
                        rec_generation = gen\<rparr>)"

text \<open>The contents of an open control file, or the error reading it reports.\<close>

type_synonym file_contents = "io_error + bytes"

fun read_record :: "file_contents \<Rightarrow> storage_error + control_record option" where
  "read_record (Inl e) = Inl (Io e)"
| "read_record (Inr bs) =
     (if length bs = 0 then Inr None
      else if length bs = RECORD_LEN then res_bind (decode bs) (\<lambda>r. Inr (Some r))
      else Inl InvalidPolicy)"

definition write_generation :: "u64 \<Rightarrow> bytes \<Rightarrow> bytes" where
  "write_generation g bs = copy_into GENERATION_OFFSET (to_le_bytes g) bs"

section \<open>The codec in list form\<close>

lemma length_copy_into [simp]:
  "off + length src \<le> length dst \<Longrightarrow> length (copy_into off src dst) = length dst"
  by (simp add: copy_into_def)

lemma encode_layout:
  "encode limits =
     MAGIC @ [flag_byte (logical_file_bytes limits), flag_byte (namespace_entries limits)]
     @ replicate 6 0 @ to_le_bytes (unwrap_or (logical_file_bytes limits) 0)
     @ to_le_bytes (unwrap_or (namespace_entries limits) 0) @ replicate 8 0"
  by (simp add: encode_def copy_into_def RECORD_LEN_def MAGIC_def Let_def numeral_eq_Suc)

lemma length_encode [simp]: "length (encode limits) = RECORD_LEN"
  by (simp add: encode_layout MAGIC_def RECORD_LEN_def)

definition record_bytes :: "control_record \<Rightarrow> bytes" where
  "record_bytes r = write_generation (rec_generation r) (encode (rec_limits r))"

lemma record_bytes_layout:
  "record_bytes r =
     MAGIC @ [flag_byte (logical_file_bytes (rec_limits r)), flag_byte (namespace_entries (rec_limits r))]
     @ replicate 6 0 @ to_le_bytes (unwrap_or (logical_file_bytes (rec_limits r)) 0)
     @ to_le_bytes (unwrap_or (namespace_entries (rec_limits r)) 0)
     @ to_le_bytes (rec_generation r)"
  by (simp add: record_bytes_def write_generation_def encode_layout copy_into_def
      GENERATION_OFFSET_def MAGIC_def)

lemma le_bytes_zero: "to_le_bytes 0 = replicate 8 0"
  by (simp add: to_le_bytes_def numeral_eq_Suc)

lemma encode_record_bytes: "encode limits = record_bytes \<lparr>rec_limits = limits, rec_generation = 0\<rparr>"
  by (simp add: record_bytes_layout encode_layout le_bytes_zero)

lemma decode_record_bytes: "decode (record_bytes r) = Inr r"
  by (cases r; cases "rec_limits r")
    (simp add: decode_def record_bytes_layout MAGIC_def RECORD_LEN_def byte_slice_def Let_def
      flag_byte_def unwrap_or_def nth_append split: option.splits)

text \<open>Splitting a 40-byte record into its fields loses nothing.\<close>

lemma record_fields:
  assumes "length bs = RECORD_LEN"
  shows "bs = take 8 bs @ [bs ! 8, bs ! 9] @ byte_slice 10 16 bs @ byte_slice 16 24 bs
           @ byte_slice 24 32 bs @ byte_slice 32 40 bs"
proof -
  have split: "drop a bs = byte_slice a b bs @ drop b bs" if "a \<le> b" for a b
    using that append_take_drop_id [of "b - a" "drop a bs"] by (simp add: byte_slice_def)
  have "drop 40 bs = []"
    using assms by (simp add: RECORD_LEN_def)
  then have "drop 10 bs = byte_slice 10 16 bs @ byte_slice 16 24 bs @ byte_slice 24 32 bs @ byte_slice 32 40 bs"
    using split [of 10 16] split [of 16 24] split [of 24 32] split [of 32 40] by simp
  moreover have "drop 8 bs = bs ! 8 # bs ! 9 # drop 10 bs"
    using assms Cons_nth_drop_Suc [of 8 bs] Cons_nth_drop_Suc [of 9 bs]
    by (simp add: RECORD_LEN_def)
  ultimately show ?thesis
    using append_take_drop_id [of 8 bs] by simp
qed

lemma flag_cases: "\<not> b > 1 \<Longrightarrow> b = 0 \<or> b = (1 :: u8)"
  by (simp add: word_less_nat_alt word_unat_eq_iff) linarith

lemma decode_canonical:
  assumes "decode bs = Inr r"
  shows "bs = record_bytes r"
proof -
  have len: "length bs = RECORD_LEN" and magic: "take 8 bs = MAGIC"
    and f8: "bs ! 8 = 0 \<or> bs ! 8 = 1" and f9: "bs ! 9 = 0 \<or> bs ! 9 = 1"
    and pad: "byte_slice 10 16 bs = replicate 6 0"
    using assms flag_cases by (auto simp: decode_def Let_def split: if_splits)
  have l: "length (byte_slice 16 24 bs) = 8" "length (byte_slice 24 32 bs) = 8" "length (byte_slice 32 40 bs) = 8"
    using len by (simp_all add: byte_slice_def RECORD_LEN_def)
  have gen: "to_le_bytes (rec_generation r) = byte_slice 32 40 bs"
    using assms l by (auto simp: decode_def Let_def to_from_le_bytes split: if_splits)
  have b: "flag_byte (logical_file_bytes (rec_limits r)) = bs ! 8"
    "to_le_bytes (unwrap_or (logical_file_bytes (rec_limits r)) 0) = byte_slice 16 24 bs"
    using assms f8 to_from_le_bytes [OF l(1)]
    by (auto simp: decode_def Let_def flag_byte_def unwrap_or_def split: if_splits)
  have e: "flag_byte (namespace_entries (rec_limits r)) = bs ! 9"
    "to_le_bytes (unwrap_or (namespace_entries (rec_limits r)) 0) = byte_slice 24 32 bs"
    using assms f9 to_from_le_bytes [OF l(2)]
    by (auto simp: decode_def Let_def flag_byte_def unwrap_or_def split: if_splits)
  show ?thesis
    unfolding record_bytes_layout gen b e
    using record_fields [OF len] by (simp add: magic pad)
qed

lemma length_record_bytes [simp]: "length (record_bytes r) = RECORD_LEN"
  by (simp add: record_bytes_layout MAGIC_def RECORD_LEN_def)

lemma write_generation_record_bytes:
  "write_generation g (record_bytes r) = record_bytes (r\<lparr>rec_generation := g\<rparr>)"
  by (simp add: write_generation_def record_bytes_layout copy_into_def GENERATION_OFFSET_def MAGIC_def)

lemma record_bytes_ne [simp]: "record_bytes r \<noteq> []"
  by (simp add: record_bytes_layout MAGIC_def)

lemma read_record_bytes: "read_record (Inr (record_bytes r)) = Inr (Some r)"
  by (simp add: decode_record_bytes RECORD_LEN_def)

lemma read_record_None: "read_record (Inr c) = Inr None \<longleftrightarrow> c = []"
  by (auto simp: res_bind_Inr_iff)

lemma read_record_Some: "read_record (Inr c) = Inr (Some r) \<longleftrightarrow> c = record_bytes r"
proof
  assume "read_record (Inr c) = Inr (Some r)"
  then have "decode c = Inr r" by (auto simp: res_bind_Inr_iff split: if_splits)
  then show "c = record_bytes r" by (rule decode_canonical)
next
  show "c = record_bytes r \<Longrightarrow> read_record (Inr c) = Inr (Some r)"
    by (simp only: read_record_bytes)
qed

section \<open>Properties\<close>

text \<open>C36: the control record is a faithful persistent form of the storage policy. A file holds
  the record \<open>r\<close> exactly when its contents are the canonical 40 bytes of \<open>r\<close>, so decoding is
  the two-sided inverse of writing the limits and a generation: no second byte string is accepted
  for the same policy, and the padding, flag and zero-value checks reject everything else.\<close>

theorem control_record_bijection:
  "read_record (Inr bs) = Inr (Some r)
     \<longleftrightarrow> bs = write_generation (rec_generation r) (encode (rec_limits r))"
  by (simp only: read_record_Some record_bytes_def)

text \<open>Publishing never changes the installed limits. Writing a new generation at its offset
  into a control file that holds a valid record leaves a valid record with the same limits and
  exactly the new generation, and keeps the length of the file, so the accounted bytes of the
  control file do not change.\<close>

theorem write_generation_keeps_limits:
  assumes "read_record (Inr bs) = Inr (Some r)"
  shows "read_record (Inr (write_generation g bs)) = Inr (Some (r\<lparr>rec_generation := g\<rparr>))
         \<and> length (write_generation g bs) = length bs"
proof -
  from assms have "bs = record_bytes r" by (simp only: read_record_Some)
  then have w: "write_generation g bs = record_bytes (r\<lparr>rec_generation := g\<rparr>)"
    and l: "length bs = RECORD_LEN"
    by (simp_all add: write_generation_record_bytes)
  show ?thesis
    unfolding w l by (simp only: read_record_bytes length_record_bytes simp_thms)
qed

theorem write_generation_keeps_limits_witness:
  "read_record (Inr (write_generation 7 (encode (with_namespace_entries 9 storage_limits_new))))
     = Inr (Some \<lparr>rec_limits = with_namespace_entries 9 storage_limits_new, rec_generation = 7\<rparr>)"
proof -
  let ?r = "\<lparr>rec_limits = with_namespace_entries 9 storage_limits_new, rec_generation = 0\<rparr>"
  have "read_record (Inr (encode (with_namespace_entries 9 storage_limits_new))) = Inr (Some ?r)"
    by (simp add: encode_record_bytes decode_record_bytes RECORD_LEN_def)
  from write_generation_keeps_limits [OF this, of 7] show ?thesis
    by (simp del: read_record.simps)
qed

end
