(* ===== verification/Fs_Boundary.thy ===== *)
theory Fs_Boundary
  imports Storage_Record
begin

text \<open>
  Filesystem operations anchored to an opened site directory (\<^verbatim>\<open>src/fs_boundary.rs\<close>).

  A directory tree is a \<open>node\<close>; an entry whose metadata or listing the operating system refuses
  is a node of its own, so that every \<open>?\<close> of the source has its branch. A \<open>Path\<close> is the list of
  the components \<open>Path::components\<close> yields. Resolution of an ambient path is the parameter
  \<open>canon\<close> (\<open>Path::canonicalize\<close>, decided by the operating system), and \<open>lk\<close> is the outcome of the
  advisory lock call of the \<open>fs4\<close> crate for a mode and a wait flag.

  The lemmas give the exact result of prefix canonicalization, confinement of every relative
  path to the site root, and the acceptance condition of lock entries.
\<close>

section \<open>Directory trees\<close>

datatype node =
    Reg nat bytes
  | Sym
  | Special
  | Dir "(string \<times> node) list"
  | Sealed io_error
  | Faulty io_error

type_synonym entries = "(string \<times> node) list"

definition io_err :: "io_kind \<Rightarrow> string \<Rightarrow> io_error" where
  "io_err k m = Io_Error k m"

section \<open>Paths\<close>

datatype component = RootDir | CurDir | ParentDir | Normal string

fun is_plain :: "component \<Rightarrow> bool" where
  "is_plain (Normal n) = True"
| "is_plain _ = False"

fun component_name :: "component \<Rightarrow> string" where
  "component_name RootDir = ''/''"
| "component_name CurDir = ''.''"
| "component_name ParentDir = ''..''"
| "component_name (Normal n) = n"

text \<open>\<open>canonicalize_existing_prefix\<close>: pop trailing components while the failure may be retried.
  The loop holds its candidate back to front; the popped components are returned in path order.\<close>

fun existing_prefix ::
  "(component list \<Rightarrow> io_error + string list) \<Rightarrow> (io_error \<Rightarrow> bool) \<Rightarrow> component list \<Rightarrow>
   component list \<Rightarrow> io_error + (string list \<times> component list)" where
  "existing_prefix canon retry [] suffix =
     (case canon [CurDir] of Inr c \<Rightarrow> Inr (c, suffix) | Inl e \<Rightarrow> Inl e)"
| "existing_prefix canon retry (x # rest) suffix =
     (case canon (rev (x # rest)) of
        Inr c \<Rightarrow> Inr (c, suffix)
      | Inl e \<Rightarrow>
          if retry e then
            (if x = RootDir then Inl e else existing_prefix canon retry rest (x # suffix))
          else Inl e)"

definition canonicalize_existing_prefix ::
  "(component list \<Rightarrow> io_error + string list) \<Rightarrow> (io_error \<Rightarrow> bool) \<Rightarrow> component list \<Rightarrow>
   io_error + (string list \<times> component list)" where
  "canonicalize_existing_prefix canon retry path = existing_prefix canon retry (rev path) []"

text \<open>\<open>Path::strip_prefix\<close> on canonical paths.\<close>

fun strip_prefix :: "'a list \<Rightarrow> 'a list \<Rightarrow> 'a list option" where
  "strip_prefix [] p = Some p"
| "strip_prefix (r # rs) [] = None"
| "strip_prefix (r # rs) (x # xs) = (if r = x then strip_prefix rs xs else None)"

lemma strip_prefix_Some: "strip_prefix r p = Some q \<longleftrightarrow> p = r @ q"
  by (induction r p rule: strip_prefix.induct) auto

fun push_plain :: "string list \<Rightarrow> component list \<Rightarrow> io_error + string list" where
  "push_plain relp [] = Inr relp"
| "push_plain relp (c # cs) =
     (if component_name c = ''.'' \<or> component_name c = ''..''
      then Inl (io_err InvalidInput ''missing path components must be plain names'')
      else push_plain (relp @ [component_name c]) cs)"

text \<open>\<open>SiteRoot::relative\<close>\<close>

definition relative ::
  "(component list \<Rightarrow> io_error + string list) \<Rightarrow> string list \<Rightarrow> component list \<Rightarrow> bool \<Rightarrow>
   io_error + string list" where
  "relative canon site path missing =
     res_bind (canonicalize_existing_prefix canon (\<lambda>e. missing \<and> io_error_kind e = NotFound) path)
       (\<lambda>(canonical, suffix).
          res_bind (ok_or (strip_prefix site canonical)
                      (io_err PermissionDenied ''file escapes site_root''))
            (\<lambda>relp. push_plain relp suffix))"

text \<open>\<open>SiteRoot::canonical_file\<close>\<close>

definition canonical_file ::
  "(component list \<Rightarrow> io_error + string list) \<Rightarrow> string list \<Rightarrow> component list \<Rightarrow>
   io_error + string list" where
  "canonical_file canon site path =
     res_bind (relative canon site path False) (\<lambda>relp. Inr (site @ relp))"

text \<open>\<open>SiteRoot::open_file\<close>. \<open>open_at\<close> opens a regular file through the directory capability: it is
  \<open>open_regular\<close> of the opened root. An absolute path is its \<open>RootDir\<close> followed by names.\<close>

definition absolute :: "string list \<Rightarrow> component list" where
  "absolute p = RootDir # map Normal p"

definition open_file ::
  "(component list \<Rightarrow> io_error + string list) \<Rightarrow> (string list \<Rightarrow> io_error + 'f) \<Rightarrow> string list \<Rightarrow>
   component list \<Rightarrow> io_error + 'f" where
  "open_file canon open_at site path =
     (let slow = res_bind (relative canon site path False) open_at
      in case strip_prefix (absolute site) path of
           None \<Rightarrow> slow
         | Some relp \<Rightarrow>
             if relp \<noteq> [] \<and> list_all is_plain relp then
               (case open_at (map component_name relp) of Inr f \<Rightarrow> Inr f | Inl _ \<Rightarrow> slow)
             else slow)"

section \<open>Lock entries\<close>

datatype lock_entry_error = NotRegular | Aliased | LockIo io_error

fun lock_entry_is_not_found :: "lock_entry_error \<Rightarrow> bool" where
  "lock_entry_is_not_found (LockIo e) \<longleftrightarrow> io_error_kind e = NotFound"
| "lock_entry_is_not_found _ \<longleftrightarrow> False"

fun lock_entry_io :: "lock_entry_error \<Rightarrow> io_error" where
  "lock_entry_io NotRegular = io_err InvalidData ''lock entry is not a regular file''"
| "lock_entry_io Aliased = io_err InvalidData ''lock entry has another name''"
| "lock_entry_io (LockIo e) = e"

fun checked_lock_file :: "node \<Rightarrow> lock_entry_error + bytes" where
  "checked_lock_file (Reg nlink contents) = (if nlink \<noteq> 1 then Inl Aliased else Inr contents)"
| "checked_lock_file (Faulty e) = Inl (LockIo e)"
| "checked_lock_file _ = Inl NotRegular"

text \<open>\<open>Anchor::is_regular_entry\<close>: metadata of the entry itself, links are not followed.\<close>

definition is_regular_entry :: "entries \<Rightarrow> string \<Rightarrow> io_error + bool" where
  "is_regular_entry d name =
     (case map_of d name of
        None \<Rightarrow> Inl (io_err NotFound [])
      | Some (Faulty e) \<Rightarrow> Inl e
      | Some (Reg l c) \<Rightarrow> Inr True
      | Some _ \<Rightarrow> Inr False)"

text \<open>\<open>open_lock_entry\<close> returns the contents of the opened file and the directory afterwards, which
  gains an empty private file when creation was requested and the name was free.\<close>

definition open_lock_entry ::
  "entries \<Rightarrow> string \<Rightarrow> bool \<Rightarrow> lock_entry_error + (bytes \<times> entries)" where
  "open_lock_entry d name create =
     (if create \<and> map_of d name = None then
        res_bind (checked_lock_file (Reg 1 [])) (\<lambda>c. Inr (c, d @ [(name, Reg 1 [])]))
      else case is_regular_entry d name of
        Inl e \<Rightarrow> Inl (LockIo e)
      | Inr False \<Rightarrow> Inl NotRegular
      | Inr True \<Rightarrow> res_bind (checked_lock_file (the (map_of d name))) (\<lambda>c. Inr (c, d)))"

datatype lock_mode = Shared | Exclusive

datatype lock_error = LockWouldBlock | LockFailed io_error

text \<open>The outcome of the lock call for a mode and a wait flag.\<close>

type_synonym lock_call = "lock_mode \<Rightarrow> bool \<Rightarrow> io_error + unit"

definition file_lock_acquire :: "lock_call \<Rightarrow> lock_mode \<Rightarrow> bool \<Rightarrow> lock_error + unit" where
  "file_lock_acquire lk mode wait =
     (case lk mode wait of
        Inr u \<Rightarrow> Inr u
      | Inl e \<Rightarrow> if io_error_kind e = WouldBlock then Inl LockWouldBlock else Inl (LockFailed e))"

definition lock_entry ::
  "lock_call \<Rightarrow> entries \<Rightarrow> string \<Rightarrow> bool \<Rightarrow> io_error + entries" where
  "lock_entry lk d name write =
     (case open_lock_entry d name write of
        Inl e \<Rightarrow> Inl (lock_entry_io e)
      | Inr (c, d') \<Rightarrow>
          (case file_lock_acquire lk (if write then Exclusive else Shared) True of
             Inl LockWouldBlock \<Rightarrow> Inl (io_err WouldBlock [])
           | Inl (LockFailed e) \<Rightarrow> Inl e
           | Inr u \<Rightarrow> Inr d'))"

section \<open>Lemmas\<close>

lemma existing_prefix_sound:
  assumes "existing_prefix canon retry rc suffix = Inr (c, suf)"
  shows "\<exists>pre popped. rev rc = pre @ popped \<and> suf = popped @ suffix
     \<and> canon (if pre = [] then [CurDir] else pre) = Inr c
     \<and> (\<forall>k < length popped. \<exists>e. canon (pre @ take (Suc k) popped) = Inl e \<and> retry e)
     \<and> RootDir \<notin> set popped"
  using assms
proof (induction canon retry rc suffix rule: existing_prefix.induct)
  case (1 canon retry suffix)
  then show ?case by (auto split: sum.splits)
next
  case (2 canon retry x rest suffix)
  show ?case
  proof (cases "canon (rev (x # rest))")
    case (Inr r)
    with "2.prems" show ?thesis by (intro exI [of _ "rev (x # rest)"] exI [of _ "[]"]) simp
  next
    case (Inl e)
    with "2.prems" have g: "retry e" "x \<noteq> RootDir"
      and rec: "existing_prefix canon retry rest (x # suffix) = Inr (c, suf)"
      by (auto split: if_splits)
    from "2.IH" [OF Inl g rec] obtain pre popped
      where p: "rev rest = pre @ popped" "suf = popped @ x # suffix"
        "canon (if pre = [] then [CurDir] else pre) = Inr c" "RootDir \<notin> set popped"
        "\<forall>k < length popped. \<exists>e. canon (pre @ take (Suc k) popped) = Inl e \<and> retry e"
      by auto
    let ?p = "popped @ [x]"
    have "\<exists>e. canon (pre @ take (Suc k) ?p) = Inl e \<and> retry e" if "k < length ?p" for k
      using that p(1,5) g Inl by (cases "k < length popped") auto
    with p g show ?thesis
      by (intro exI [of _ pre] exI [of _ ?p]) auto
  qed
qed

lemma push_plain_Inr:
  "push_plain relp cs = Inr q \<longleftrightarrow>
     q = relp @ map component_name cs \<and> (\<forall>c \<in> set cs. component_name c \<notin> {''.'', ''..''})"
  by (induction relp cs rule: push_plain.induct) auto

lemma checked_lock_file_Inr: "checked_lock_file n = Inr c \<longleftrightarrow> n = Reg 1 c"
  by (cases n) auto

lemma is_regular_entry_True: "is_regular_entry d name = Inr True \<longleftrightarrow> (\<exists>l c. map_of d name = Some (Reg l c))"
  by (auto simp: is_regular_entry_def split: option.splits node.splits)

lemma open_lock_entry_Inr:
  "open_lock_entry d name create = Inr (c, d') \<longleftrightarrow>
     (map_of d name = Some (Reg 1 c) \<and> d' = d)
     \<or> (create \<and> map_of d name = None \<and> c = [] \<and> d' = d @ [(name, Reg 1 [])])"
proof (cases "create \<and> map_of d name = None")
  case True
  then show ?thesis by (auto simp: open_lock_entry_def)
next
  case False
  then have "open_lock_entry d name create = Inr (c, d') \<longleftrightarrow>
      (is_regular_entry d name = Inr True \<and> checked_lock_file (the (map_of d name)) = Inr c \<and> d' = d)"
    by (auto simp: open_lock_entry_def res_bind_Inr_iff split: sum.splits bool.splits)
  then show ?thesis
    using False by (auto simp: is_regular_entry_True checked_lock_file_Inr)
qed

section \<open>Properties\<close>

text \<open>C37: confinement of the site root. Whenever \<open>SiteRoot::relative\<close> proposes a relative path,
  the path splits into a prefix that the operating system resolved to a location below the canonical
  root and a missing suffix whose components are plain names, never the root, \<open>.\<close> or \<open>..\<close>; the
  proposed path is that location followed by those names. Unless missing components were allowed,
  nothing is appended to what was resolved.\<close>

theorem relative_confined:
  assumes "relative canon site path missing = Inr relp"
  shows "\<exists>pre popped inner. path = pre @ popped
     \<and> canon (if pre = [] then [CurDir] else pre) = Inr (site @ inner)
     \<and> relp = inner @ map component_name popped
     \<and> list_all (\<lambda>c. component_name c \<noteq> ''.'' \<and> component_name c \<noteq> ''..'' \<and> c \<noteq> RootDir) popped
     \<and> (missing \<or> popped = [])"
proof -
  from assms obtain canonical suffix inner
    where e: "existing_prefix canon (\<lambda>e. missing \<and> io_error_kind e = NotFound) (rev path) [] = Inr (canonical, suffix)"
      and i: "canonical = site @ inner" and p: "push_plain inner suffix = Inr relp"
    by (auto simp: relative_def canonicalize_existing_prefix_def res_bind_Inr_iff ok_or_Inr_iff
        strip_prefix_Some)
  from existing_prefix_sound [OF e] obtain pre popped where q: "path = pre @ popped" "suffix = popped"
    "canon (if pre = [] then [CurDir] else pre) = Inr canonical"
    "\<forall>k < length popped. \<exists>e. canon (pre @ take (Suc k) popped) = Inl e \<and> (missing \<and> io_error_kind e = NotFound)"
    "RootDir \<notin> set popped"
    by auto
  have "missing \<or> popped = []" using q(4) by (cases popped) auto
  with q p i show ?thesis
    by (intro exI [of _ pre] exI [of _ popped] exI [of _ inner]) (auto simp: push_plain_Inr list_all_iff)
qed

text \<open>A filesystem on which only \<open>/srv\<close> exists: a missing child of it is confined below it.\<close>

definition only_srv :: "component list \<Rightarrow> io_error + string list" where
  "only_srv p = (if p = [RootDir, Normal ''srv''] then Inr [''srv''] else Inl (io_err NotFound []))"

theorem relative_confined_witness:
  "\<exists>pre popped inner. [RootDir, Normal ''srv'', Normal ''a''] = pre @ popped
     \<and> only_srv (if pre = [] then [CurDir] else pre) = Inr ([''srv''] @ inner)
     \<and> [''a''] = inner @ map component_name popped
     \<and> list_all (\<lambda>c. component_name c \<noteq> ''.'' \<and> component_name c \<noteq> ''..'' \<and> c \<noteq> RootDir) popped
     \<and> (True \<or> popped = [])"
proof (rule relative_confined)
  show "relative only_srv [''srv''] [RootDir, Normal ''srv'', Normal ''a''] True = Inr [''a'']"
    by (simp add: relative_def canonicalize_existing_prefix_def only_srv_def io_err_def)
qed

text \<open>Lock and control entries are private regular files. \<open>open_lock_entry\<close> succeeds in exactly
  two situations: the name already belongs to a regular file with a single link, whose contents are
  returned with the directory unchanged; or creation was requested and the name was free, and then
  one empty private file is added. A symlink, directory, special file or hard link is never opened.\<close>

theorem open_lock_entry_private:
  "open_lock_entry d name create = Inr (c, d') \<longleftrightarrow>
     (map_of d name = Some (Reg 1 c) \<and> d' = d)
     \<or> (create \<and> map_of d name = None \<and> c = [] \<and> d' = d @ [(name, Reg 1 [])])"
  by (rule open_lock_entry_Inr)

end
