(* ===== verification/Storage.thy ===== *)
theory Storage
  imports Fs_Boundary
begin

text \<open>
  Cooperating-process admission for the static publication transaction
  (\<^verbatim>\<open>src/static_routes/storage.rs\<close>): inventory of the site, limits, the cached inventory with its
  publication generation, and the admission and commit of one publication.

  Directory contents are \<open>entries\<close> of the model filesystem. \<open>lk\<close> is the advisory lock call,
  \<open>canon\<close> resolves ambient paths, \<open>sha256\<close> is the digest function of the \<open>sha2\<close> crate. The pinned
  root directory of a policy is the directory \<open>tree\<close>.
\<close>

definition CONTROL :: string where "CONTROL = ''.leptos-static-policy.lock''"
definition METADATA_DIRECTORY :: string where "METADATA_DIRECTORY = ''.leptos-static-metadata''"
definition PUBLICATION_LOCK :: string where "PUBLICATION_LOCK = ''.leptos-static-publish.lock''"

fun storage_of_lock_entry :: "lock_entry_error \<Rightarrow> storage_error" where
  "storage_of_lock_entry (LockIo e) = Io e"
| "storage_of_lock_entry _ = InvalidPolicy"

fun storage_of_lock :: "lock_error \<Rightarrow> storage_error" where
  "storage_of_lock LockWouldBlock = Busy"
| "storage_of_lock (LockFailed e) = Io e"

definition map_err :: "('e \<Rightarrow> 'g) \<Rightarrow> 'e + 'a \<Rightarrow> 'g + 'a" where
  "map_err f r = (case r of Inl e \<Rightarrow> Inl (f e) | Inr a \<Rightarrow> Inr a)"

lemma map_err_simps [simp]: "map_err f (Inl e) = Inl (f e)" "map_err f (Inr a) = Inr a"
  by (simp_all add: map_err_def)

lemma map_err_Inr_iff [simp]: "map_err f r = Inr a \<longleftrightarrow> r = Inr a"
  by (cases r) auto

definition open_control :: "entries \<Rightarrow> bool \<Rightarrow> storage_error + (bytes \<times> entries)" where
  "open_control d create = map_err storage_of_lock_entry (open_lock_entry d CONTROL create)"

definition lock_control :: "lock_call \<Rightarrow> lock_mode \<Rightarrow> bool \<Rightarrow> storage_error + unit" where
  "lock_control lk mode wait = map_err storage_of_lock (file_lock_acquire lk mode wait)"

definition active_policy :: "lock_call \<Rightarrow> entries \<Rightarrow> storage_error + bool" where
  "active_policy lk d =
     (case open_lock_entry d CONTROL False of
        Inl e \<Rightarrow> if lock_entry_is_not_found e then Inr False else Inl (storage_of_lock_entry e)
      | Inr (c, d') \<Rightarrow>
          res_bind (lock_control lk Shared True)
            (\<lambda>_. res_bind (read_record (Inr c)) (\<lambda>r. Inr (r \<noteq> None))))"

section \<open>Usage\<close>

record usage =
  usage_bytes :: u64
  usage_entries :: u64

definition usage_default :: usage where
  "usage_default = \<lparr>usage_bytes = 0, usage_entries = 0\<rparr>"

definition storage_add :: "u64 \<Rightarrow> u64 \<Rightarrow> storage_error + u64" where
  "storage_add a b = ok_or (checked_add a b) Overflow"

definition check_limit :: "string \<Rightarrow> u64 \<Rightarrow> u64 option \<Rightarrow> storage_error + unit" where
  "check_limit res required limit =
     (case limit of
        None \<Rightarrow> Inr ()
      | Some l \<Rightarrow> if required > l then Inl (LimitExceeded res l required) else Inr ())"

definition check_limits :: "usage \<Rightarrow> storage_limits \<Rightarrow> storage_error + unit" where
  "check_limits u limits =
     res_bind (check_limit ''logical file bytes'' (usage_bytes u) (logical_file_bytes limits))
       (\<lambda>_. check_limit ''namespace entries'' (usage_entries u) (namespace_entries limits))"

fun node_len :: "node \<Rightarrow> u64 option" where
  "node_len (Reg l c) = Some (word_of_nat (length c))"
| "node_len _ = None"

text \<open>\<open>charge\<close>: one entry, and the length of a regular file.\<close>

definition charge :: "usage \<Rightarrow> node \<Rightarrow> storage_error + usage" where
  "charge u nd =
     res_bind (storage_add (usage_entries u) 1)
       (\<lambda>e. let u1 = u\<lparr>usage_entries := e\<rparr>
            in case node_len nd of
                 None \<Rightarrow> Inr u1
               | Some len \<Rightarrow> res_bind (storage_add (usage_bytes u1) len)
                               (\<lambda>b. Inr (u1\<lparr>usage_bytes := b\<rparr>)))"

text \<open>\<open>DirEntry::metadata\<close> fails on a faulty entry; \<open>open_dir\<close> fails on a sealed directory.\<close>

fun entry_metadata :: "node \<Rightarrow> storage_error + node" where
  "entry_metadata (Faulty e) = Inl (Io e)"
| "entry_metadata nd = Inr nd"

text \<open>\<open>inventory\<close>: a depth-first walk with an explicit stack of directory iterators, refusing a
  managed descendant.\<close>

function inventory_loop ::
  "lock_call \<Rightarrow> usage \<Rightarrow> entries list \<Rightarrow> storage_error + usage" where
  "inventory_loop lk u [] = Inr u"
| "inventory_loop lk u ([] # dirs) = inventory_loop lk u dirs"
| "inventory_loop lk u (((n, nd) # es) # dirs) =
     (case entry_metadata nd of
        Inl e \<Rightarrow> Inl e
      | Inr m \<Rightarrow>
          (case charge u m of
             Inl e \<Rightarrow> Inl e
           | Inr u' \<Rightarrow>
               (case nd of
                  Dir ds \<Rightarrow>
                    (case active_policy lk ds of
                       Inl e \<Rightarrow> Inl e
                     | Inr True \<Rightarrow> Inl UnsupportedRoot
                     | Inr False \<Rightarrow> inventory_loop lk u' (ds # es # dirs))
                | Sealed e \<Rightarrow> Inl (Io e)
                | _ \<Rightarrow> inventory_loop lk u' (es # dirs))))"
  by pat_completeness auto
termination
  by (relation "measure (\<lambda>(lk, u, dirs). sum_list (map (\<lambda>es. Suc (size_list (\<lambda>(n, nd). size nd) es)) dirs))")
    (auto simp: size_prod_simp case_prod_unfold comp_def size_list_le_Suc)

definition inventory :: "lock_call \<Rightarrow> entries \<Rightarrow> storage_error + usage" where
  "inventory lk d = inventory_loop lk usage_default [d]"

text \<open>\<open>local_usage\<close>: the entries a publication into \<open>d\<close> can touch.\<close>

definition is_touched :: "string option \<Rightarrow> string \<Rightarrow> bool" where
  "is_touched created name \<longleftrightarrow> name = METADATA_DIRECTORY \<or> Some name = created"

fun local_loop :: "lock_call \<Rightarrow> string option \<Rightarrow> usage \<Rightarrow> entries \<Rightarrow> storage_error + usage" where
  "local_loop lk created u [] = Inr u"
| "local_loop lk created u ((n, nd) # es) =
     res_bind (entry_metadata nd)
       (\<lambda>m. res_bind (charge u m)
          (\<lambda>u'. if is_touched created n then
                  (case nd of
                     Dir ds \<Rightarrow>
                       res_bind (inventory lk ds)
                         (\<lambda>nested. res_bind (storage_add (usage_bytes u') (usage_bytes nested))
                           (\<lambda>b. res_bind (storage_add (usage_entries u') (usage_entries nested))
                             (\<lambda>e. local_loop lk created \<lparr>usage_bytes = b, usage_entries = e\<rparr> es)))
                   | Sealed e \<Rightarrow> Inl (Io e)
                   | _ \<Rightarrow> local_loop lk created u' es)
                else local_loop lk created u' es))"

definition local_usage :: "lock_call \<Rightarrow> entries \<Rightarrow> string option \<Rightarrow> storage_error + usage" where
  "local_usage lk d created = local_loop lk created usage_default d"

definition missing_entry :: "entries \<Rightarrow> string \<Rightarrow> storage_error + u64" where
  "missing_entry d name =
     (case map_of d name of
        None \<Rightarrow> Inr 1
      | Some (Faulty e) \<Rightarrow> if io_error_kind e = NotFound then Inr 1 else Inl (Io e)
      | Some _ \<Rightarrow> Inr 0)"

section \<open>The reference inventory\<close>

fun node_entries :: "node \<Rightarrow> nat" where
  "node_entries (Dir ds) = Suc (sum_list (map (\<lambda>(n, nd). node_entries nd) ds))"
| "node_entries _ = 1"

fun node_bytes :: "node \<Rightarrow> nat" where
  "node_bytes (Reg l c) = length c"
| "node_bytes (Dir ds) = sum_list (map (\<lambda>(n, nd). node_bytes nd) ds)"
| "node_bytes _ = 0"

definition dir_entries :: "entries \<Rightarrow> nat" where
  "dir_entries ds = sum_list (map (\<lambda>(n, nd). node_entries nd) ds)"

definition dir_bytes :: "entries \<Rightarrow> nat" where
  "dir_bytes ds = sum_list (map (\<lambda>(n, nd). node_bytes nd) ds)"

text \<open>A tree the walk can read completely and in which no directory below is managed.\<close>

fun scannable :: "lock_call \<Rightarrow> node \<Rightarrow> bool" where
  "scannable lk (Dir ds) \<longleftrightarrow> active_policy lk ds = Inr False \<and> list_all (\<lambda>(n, nd). scannable lk nd) ds"
| "scannable lk (Sealed e) \<longleftrightarrow> False"
| "scannable lk (Faulty e) \<longleftrightarrow> False"
| "scannable lk _ \<longleftrightarrow> True"

text \<open>File lengths that a \<open>u64\<close> holds.\<close>

fun sized :: "node \<Rightarrow> bool" where
  "sized (Reg l c) \<longleftrightarrow> length c < 2 ^ 64"
| "sized (Dir ds) \<longleftrightarrow> list_all (\<lambda>(n, nd). sized nd) ds"
| "sized _ \<longleftrightarrow> True"

section \<open>Accounting lemmas\<close>

lemma storage_add_Inr [checked_arith]: "storage_add a b = Inr c \<longleftrightarrow> unat c = unat a + unat b"
  by (simp add: storage_add_def ok_or_Inr_iff checked_add_Some_iff)

lemma storage_add_Inl [checked_arith]: "storage_add a b = Inl e \<longleftrightarrow> e = Overflow \<and> 2 ^ 64 \<le> unat a + unat b"
  unfolding checked_add_None_iff [symmetric]
  by (auto simp: storage_add_def ok_or_def split: option.splits)

fun own_bytes :: "node \<Rightarrow> nat" where
  "own_bytes (Reg l c) = length c"
| "own_bytes _ = 0"

lemma unat_usage_eq:
  "(u :: usage) = v \<longleftrightarrow> unat (usage_bytes u) = unat (usage_bytes v) \<and> unat (usage_entries u) = unat (usage_entries v)"
  by (cases u; cases v) (simp add: word_unat_eq_iff [symmetric])

lemma charge_Inr:
  assumes "sized nd"
  shows "charge u nd = Inr v \<longleftrightarrow>
     unat (usage_entries v) = unat (usage_entries u) + 1
     \<and> unat (usage_bytes v) = unat (usage_bytes u) + own_bytes nd"
proof (cases "node_len nd")
  case None
  then have "own_bytes nd = 0" by (cases nd) auto
  moreover from None have "charge u nd = Inr v \<longleftrightarrow>
      storage_add (usage_entries u) 1 = Inr (usage_entries v) \<and> usage_bytes v = usage_bytes u"
    by (cases u; cases v; cases "storage_add (usage_entries u) 1") (auto simp: charge_def)
  ultimately show ?thesis
    by (simp add: storage_add_Inr word_unat_eq_iff)
next
  case (Some len)
  with assms have "unat len = own_bytes nd"
    by (cases nd) (auto simp: unat_of_nat)
  moreover from Some have "charge u nd = Inr v \<longleftrightarrow>
      storage_add (usage_entries u) 1 = Inr (usage_entries v)
      \<and> storage_add (usage_bytes u) len = Inr (usage_bytes v)"
    by (cases u; cases v; cases "storage_add (usage_entries u) 1"; cases "storage_add (usage_bytes u) len")
      (auto simp: charge_def)
  ultimately show ?thesis
    by (simp add: storage_add_Inr)
qed

lemma charge_fits:
  assumes "sized nd" "unat (usage_entries u) + 1 < 2 ^ 64" "unat (usage_bytes u) + own_bytes nd < 2 ^ 64"
  obtains v where "charge u nd = Inr v"
    "unat (usage_entries v) = unat (usage_entries u) + 1"
    "unat (usage_bytes v) = unat (usage_bytes u) + own_bytes nd"
proof -
  let ?v = "\<lparr>usage_bytes = word_of_nat (unat (usage_bytes u) + own_bytes nd),
             usage_entries = word_of_nat (unat (usage_entries u) + 1)\<rparr> :: usage"
  have "unat (usage_entries ?v) = unat (usage_entries u) + 1"
    "unat (usage_bytes ?v) = unat (usage_bytes u) + own_bytes nd"
    using assms(2,3) by (simp_all only: usage.simps unat_of_nat) simp_all
  with that charge_Inr [OF assms(1)] show thesis by blast
qed

lemma entry_metadata_Inr: "entry_metadata nd = Inr m \<longleftrightarrow> m = nd \<and> (\<forall>e. nd \<noteq> Faulty e)"
  by (cases nd) auto

lemma unat_usage_bound: "unat (usage_bytes u) < 2 ^ 64" "unat (usage_entries u) < 2 ^ 64"
  using unsigned_less [of "usage_bytes u"] unsigned_less [of "usage_entries u"] by simp_all

lemma node_bytes_split: "node_bytes nd = own_bytes nd + (case nd of Dir ds \<Rightarrow> dir_bytes ds | _ \<Rightarrow> 0)"
  by (cases nd) (simp_all add: dir_bytes_def)

lemma node_entries_split: "node_entries nd = 1 + (case nd of Dir ds \<Rightarrow> dir_entries ds | _ \<Rightarrow> 0)"
  by (cases nd) (simp_all add: dir_entries_def)

lemma dir_sums [simp]:
  "dir_bytes [] = 0" "dir_bytes ((n, nd) # es) = node_bytes nd + dir_bytes es"
  "dir_entries [] = 0" "dir_entries ((n, nd) # es) = node_entries nd + dir_entries es"
  by (simp_all add: dir_bytes_def dir_entries_def)

text \<open>The stack walk computes the reference inventory: it succeeds exactly on scannable trees whose
  totals fit in a \<open>u64\<close>, and then adds the reference totals to its accumulator.\<close>

definition stack_ok :: "lock_call \<Rightarrow> entries list \<Rightarrow> bool" where
  "stack_ok lk dirs \<longleftrightarrow> list_all (list_all (\<lambda>(n, nd). scannable lk nd)) dirs"

definition stack_sized :: "entries list \<Rightarrow> bool" where
  "stack_sized dirs \<longleftrightarrow> list_all (list_all (\<lambda>(n, nd). sized nd)) dirs"

definition adds :: "usage \<Rightarrow> nat \<Rightarrow> nat \<Rightarrow> usage \<Rightarrow> bool" where
  "adds u b e v \<longleftrightarrow> unat (usage_bytes v) = unat (usage_bytes u) + b
     \<and> unat (usage_entries v) = unat (usage_entries u) + e"

lemma adds_step:
  assumes "sized nd" and "charge u nd = Inr u'"
  shows "adds u' b e v \<longleftrightarrow> adds u (own_bytes nd + b) (1 + e) v"
  using assms by (auto simp: adds_def charge_Inr)

lemma adds_charge:
  assumes "sized nd" and "adds u (own_bytes nd + b) (1 + e) v"
  obtains u' where "charge u nd = Inr u'"
proof -
  from assms(2) unat_usage_bound [of v]
  have "unat (usage_entries u) + 1 < 2 ^ 64" "unat (usage_bytes u) + own_bytes nd < 2 ^ 64"
    by (auto simp: adds_def)
  from charge_fits [OF assms(1) this] that show thesis by metis
qed

definition stack_bytes :: "entries list \<Rightarrow> nat" where
  "stack_bytes dirs = sum_list (map dir_bytes dirs)"

definition stack_entries :: "entries list \<Rightarrow> nat" where
  "stack_entries dirs = sum_list (map dir_entries dirs)"

lemmas stack_defs = stack_ok_def stack_sized_def stack_bytes_def stack_entries_def

lemma inventory_loop_Inr:
  "stack_sized dirs \<Longrightarrow>
   inventory_loop lk u dirs = Inr v \<longleftrightarrow>
     stack_ok lk dirs \<and> adds u (stack_bytes dirs) (stack_entries dirs) v"
proof (induction lk u dirs rule: inventory_loop.induct)
  case (1 lk u)
  then show ?case by (simp add: stack_defs adds_def unat_usage_eq) auto
next
  case (2 lk u dirs)
  then show ?case by (simp add: stack_defs)
next
  case (3 lk u n nd es dirs)
  from "3.prems" have sz: "sized nd" by (simp add: stack_defs)
  let ?b = "(case nd of Dir ds \<Rightarrow> dir_bytes ds | _ \<Rightarrow> 0) + stack_bytes (es # dirs)"
  let ?e = "(case nd of Dir ds \<Rightarrow> dir_entries ds | _ \<Rightarrow> 0) + stack_entries (es # dirs)"
  have tot: "stack_bytes (((n, nd) # es) # dirs) = own_bytes nd + ?b"
    "stack_entries (((n, nd) # es) # dirs) = 1 + ?e"
    by (simp_all add: stack_defs node_bytes_split node_entries_split)
  show ?case
  proof (cases "charge u nd")
    case (Inl e)
    then have "\<not> adds u (own_bytes nd + ?b) (1 + ?e) v"
      using adds_charge [OF sz] by (metis Inl_Inr_False)
    moreover have "inventory_loop lk u (((n, nd) # es) # dirs) \<noteq> Inr v"
      using Inl by (cases nd) auto
    ultimately show ?thesis by (simp only: tot simp_thms)
  next
    case (Inr u')
    note IH = "3.IH" [of nd u']
    have main: "inventory_loop lk u (((n, nd) # es) # dirs) = Inr v
        \<longleftrightarrow> stack_ok lk (((n, nd) # es) # dirs) \<and> adds u' ?b ?e v"
      using IH Inr "3.prems" by (cases nd) (auto simp: stack_defs split: sum.splits bool.splits)
    show ?thesis
      unfolding main tot adds_step [OF sz Inr] ..
  qed
qed

lemma inventory_Inr:
  assumes "list_all (\<lambda>(n, nd). sized nd) d"
  shows "inventory lk d = Inr v \<longleftrightarrow>
     list_all (\<lambda>(n, nd). scannable lk nd) d
     \<and> unat (usage_bytes v) = dir_bytes d \<and> unat (usage_entries v) = dir_entries d"
  using assms inventory_loop_Inr [of "[d]" lk usage_default v]
  by (simp add: inventory_def stack_defs adds_def usage_default_def)

text \<open>What \<open>local_usage\<close> leaves out: the contents of subdirectories a publication does not touch.\<close>

definition rest_bytes :: "string option \<Rightarrow> entries \<Rightarrow> nat" where
  "rest_bytes created d =
     sum_list (map (\<lambda>(n, nd). if is_touched created n then 0 else case nd of Dir ds \<Rightarrow> dir_bytes ds | _ \<Rightarrow> 0) d)"

definition rest_entries :: "string option \<Rightarrow> entries \<Rightarrow> nat" where
  "rest_entries created d =
     sum_list (map (\<lambda>(n, nd). if is_touched created n then 0 else case nd of Dir ds \<Rightarrow> dir_entries ds | _ \<Rightarrow> 0) d)"

lemma rest_sums [simp]:
  "rest_bytes created [] = 0" "rest_entries created [] = 0"
  "rest_bytes created ((n, nd) # es) =
     (if is_touched created n then 0 else case nd of Dir ds \<Rightarrow> dir_bytes ds | _ \<Rightarrow> 0) + rest_bytes created es"
  "rest_entries created ((n, nd) # es) =
     (if is_touched created n then 0 else case nd of Dir ds \<Rightarrow> dir_entries ds | _ \<Rightarrow> 0) + rest_entries created es"
  by (simp_all add: rest_bytes_def rest_entries_def)

lemma local_loop_sound:
  assumes "local_loop lk created u d = Inr v" "list_all (\<lambda>(n, nd). sized nd) d"
  shows "unat (usage_bytes v) + rest_bytes created d = unat (usage_bytes u) + dir_bytes d
     \<and> unat (usage_entries v) + rest_entries created d = unat (usage_entries u) + dir_entries d"
  using assms
proof (induction d arbitrary: u)
  case Nil
  then show ?case by simp
next
  case (Cons entry es)
  obtain n nd where entry: "entry = (n, nd)" by force
  from Cons.prems entry obtain u' where m: "entry_metadata nd = Inr nd" and c: "charge u nd = Inr u'"
    by (auto simp: res_bind_Inr_iff entry_metadata_Inr)
  from Cons.prems entry have sz: "sized nd" "list_all (\<lambda>(n, nd). sized nd) es" by simp_all
  have u': "unat (usage_entries u') = unat (usage_entries u) + 1"
    "unat (usage_bytes u') = unat (usage_bytes u) + own_bytes nd"
    using c charge_Inr [OF sz(1)] by simp_all
  note split = node_bytes_split [of nd] node_entries_split [of nd]
  show ?case
  proof (cases "is_touched created n \<and> (\<exists>ds. nd = Dir ds)")
    case True
    then obtain ds where ds: "nd = Dir ds" and t: "is_touched created n" by blast
    with Cons.prems(1) entry m c obtain nested b e where nes: "inventory lk ds = Inr nested"
      and be: "unat b = unat (usage_bytes u') + unat (usage_bytes nested)"
        "unat e = unat (usage_entries u') + unat (usage_entries nested)"
      and rec: "local_loop lk created \<lparr>usage_bytes = b, usage_entries = e\<rparr> es = Inr v"
      by (auto simp: res_bind_Inr_iff storage_add_Inr)
    have "unat (usage_bytes nested) = dir_bytes ds \<and> unat (usage_entries nested) = dir_entries ds"
      using nes inventory_Inr [of ds lk nested] sz(1) ds by simp
    with Cons.IH [OF rec sz(2)] be u' t ds split entry show ?thesis by simp
  next
    case False
    with Cons.prems(1) entry m c have rec: "local_loop lk created u' es = Inr v"
      by (auto split: if_splits node.splits)
    from False have "(if is_touched created n then 0 else case nd of Dir ds \<Rightarrow> dir_bytes ds | _ \<Rightarrow> 0)
        = (case nd of Dir ds \<Rightarrow> dir_bytes ds | _ \<Rightarrow> 0)"
      "(if is_touched created n then 0 else case nd of Dir ds \<Rightarrow> dir_entries ds | _ \<Rightarrow> 0)
        = (case nd of Dir ds \<Rightarrow> dir_entries ds | _ \<Rightarrow> 0)"
      by (cases nd; simp)+
    with Cons.IH [OF rec sz(2)] u' split entry show ?thesis by simp
  qed
qed

section \<open>Properties\<close>

text \<open>C35: the iterative inventory is the recursive one. The walk with an explicit stack of directory
  iterators returns a usage exactly when every entry below the root is readable, no directory below it
  carries a policy of its own, and the totals fit in \<open>u64\<close>; the usage is then the number of entries of
  the whole tree and the sum of its regular file lengths. The walk always terminates.\<close>

theorem inventory_reference:
  assumes "list_all (\<lambda>(n, nd). sized nd) d"
  shows "inventory lk d = Inr u \<longleftrightarrow>
     list_all (\<lambda>(n, nd). scannable lk nd) d
     \<and> unat (usage_bytes u) = sum_list (map (\<lambda>(n, nd). node_bytes nd) d)
     \<and> unat (usage_entries u) = sum_list (map (\<lambda>(n, nd). node_entries nd) d)"
  using inventory_Inr [OF assms] by (simp add: dir_bytes_def dir_entries_def)

theorem inventory_reference_witness:
  "inventory (\<lambda>_ _. Inr ()) [(''a'', Reg 1 [1, 2, 3]), (''b'', Dir [(''c'', Reg 1 [4]), (''d'', Sym)])]
     = Inr \<lparr>usage_bytes = 4, usage_entries = 4\<rparr>"
proof -
  let ?d = "[(''a'', Reg 1 [1, 2, 3]), (''b'', Dir [(''c'', Reg 1 [4]), (''d'', Sym)])]"
  have "list_all (\<lambda>(n, nd). sized nd) ?d" by simp
  from inventory_reference [OF this, of "\<lambda>_ _. Inr ()" "\<lparr>usage_bytes = 4, usage_entries = 4\<rparr>"]
  show ?thesis
    by (simp add: active_policy_def open_lock_entry_def is_regular_entry_def CONTROL_def io_err_def)
qed

end
