(* ===== verification/Admission.thy ===== *)
theory Admission
  imports Storage
begin

text \<open>
  The publication transaction of a managed root (\<^verbatim>\<open>src/static_routes/storage.rs\<close>):
  \<open>Storage::open\<close>, \<open>coordinate\<close>, and admission, generation bump and commit of a
  \<open>PublicationGuard\<close>. The state is the handle's cached inventory, the guard's generation and pending
  account, and the pinned root directory, whose control entry carries the persistent record.

  The lemmas show that the cached inventory is exact for the generation it is stored under: after
  opening, after an admission that had to scan, and after a commit, where it is computed from the
  touched directory alone.
\<close>

section \<open>Directory updates\<close>

fun set_entry :: "string \<Rightarrow> node \<Rightarrow> entries \<Rightarrow> entries" where
  "set_entry n nd [] = [(n, nd)]"
| "set_entry n nd ((m, x) # es) = (if m = n then (n, nd) # es else (m, x) # set_entry n nd es)"

text \<open>\<open>Dir::open_dir\<close> of a resolved relative path.\<close>

fun open_dir_at :: "entries \<Rightarrow> string list \<Rightarrow> io_error + entries" where
  "open_dir_at d [] = Inr d"
| "open_dir_at d (n # ns) =
     (case map_of d n of
        None \<Rightarrow> Inl (io_err NotFound [])
      | Some (Dir ds) \<Rightarrow> open_dir_at ds ns
      | Some (Sealed e) \<Rightarrow> Inl e
      | Some (Faulty e) \<Rightarrow> Inl e
      | Some _ \<Rightarrow> Inl (io_err NotADirectory []))"

text \<open>The tree after the contents of the directory at a path have changed.\<close>

fun replace_at :: "entries \<Rightarrow> string list \<Rightarrow> entries \<Rightarrow> entries" where
  "replace_at d [] ds = ds"
| "replace_at d (n # ns) ds =
     (case map_of d n of
        Some (Dir sub) \<Rightarrow> set_entry n (Dir (replace_at sub ns ds)) d
      | _ \<Rightarrow> d)"

section \<open>The storage handle\<close>

record cached =
  cached_generation :: u64
  cached_usage :: usage

record storage =
  st_limits :: storage_limits
  st_cached :: "cached option"

definition storage_cached :: "storage \<Rightarrow> u64 \<Rightarrow> usage option" where
  "storage_cached st generation =
     (case st_cached st of
        Some c \<Rightarrow> if cached_generation c = generation then Some (cached_usage c) else None
      | None \<Rightarrow> None)"

definition storage_remember :: "storage \<Rightarrow> cached option \<Rightarrow> storage" where
  "storage_remember st c = st\<lparr>st_cached := c\<rparr>"

text \<open>\<open>Storage::open\<close> on the opened root directory: returns the handle and the directory
  afterwards, which holds the control record.\<close>

definition storage_open ::
  "lock_call \<Rightarrow> entries \<Rightarrow> storage_limits \<Rightarrow> storage_error + (storage \<times> entries)" where
  "storage_open lk d limits =
     res_bind (open_control d True) (\<lambda>(contents, d1).
     res_bind (lock_control lk Exclusive False) (\<lambda>_.
     res_bind (read_record (Inr contents)) (\<lambda>previous.
       if previous \<noteq> None \<and> rec_limits (the previous) \<noteq> limits then Inl PolicyMismatch
       else res_bind (inventory lk d1) (\<lambda>u0.
         res_bind (if previous = None
                   then res_bind (storage_add (usage_bytes u0) (word_of_nat RECORD_LEN))
                          (\<lambda>b. Inr (u0\<lparr>usage_bytes := b\<rparr>))
                   else Inr u0) (\<lambda>u.
         res_bind (check_limits u limits) (\<lambda>_.
           case previous of
             Some p \<Rightarrow> Inr (\<lparr>st_limits = limits,
                             st_cached = Some \<lparr>cached_generation = rec_generation p, cached_usage = u\<rparr>\<rparr>, d1)
           | None \<Rightarrow> Inr (\<lparr>st_limits = limits,
                           st_cached = Some \<lparr>cached_generation = 0, cached_usage = u\<rparr>\<rparr>,
                          set_entry CONTROL (Reg 1 (encode limits)) d1)))))))"

section \<open>The publication guard\<close>

record pending =
  p_total :: usage
  p_before :: usage
  p_existing :: "string list"
  p_created :: "string option"

record guard =
  g_generation :: u64
  g_pending :: "pending option"

text \<open>\<open>coordinate\<close>: \<open>same\<close> is the outcome of the identity check between the opened and the pinned
  root, and \<open>d\<close> the root directory both arms yield.\<close>

definition coordinate ::
  "lock_call \<Rightarrow> storage_error + bool \<Rightarrow> entries \<Rightarrow> storage option \<Rightarrow>
   storage_error + (guard \<times> entries)" where
  "coordinate lk same d st =
     res_bind (if st \<noteq> None
               then res_bind same (\<lambda>s. if \<not> s then Inl UnsupportedRoot else Inr ())
               else Inr ()) (\<lambda>_.
     res_bind (open_control d True) (\<lambda>(contents, d1).
     res_bind (lock_control lk (if st \<noteq> None then Exclusive else Shared) True) (\<lambda>_.
     res_bind (read_record (Inr contents)) (\<lambda>rec.
     res_bind (case (st, rec) of
                 (Some s, Some r) \<Rightarrow>
                   if rec_limits r = st_limits s then Inr (rec_generation r) else Inl PolicyMismatch
               | (Some s, None) \<Rightarrow> Inl PolicyMismatch
               | (None, Some r) \<Rightarrow> Inl BindingRequired
               | (None, None) \<Rightarrow> Inr 0) (\<lambda>generation.
       Inr (\<lparr>g_generation = generation, g_pending = None\<rparr>, d1))))))"

text \<open>\<open>bump\<close> writes the next generation into the locked control file; a control file that has lost
  its name is still written through the open descriptor.\<close>

definition bump :: "guard \<Rightarrow> entries \<Rightarrow> storage_error + (guard \<times> entries)" where
  "bump g d =
     res_bind (storage_add (g_generation g) 1) (\<lambda>next.
       case map_of d CONTROL of
         Some (Reg l contents) \<Rightarrow>
           Inr (g\<lparr>g_generation := next\<rparr>, set_entry CONTROL (Reg l (write_generation next contents)) d)
       | _ \<Rightarrow> Inr (g\<lparr>g_generation := next\<rparr>, d))"

text \<open>\<open>SiteRoot::parent\<close> without creation: the parent is resolved to a path below the root and
  opened through the capability.\<close>

definition site_parent ::
  "(component list \<Rightarrow> io_error + string list) \<Rightarrow> string list \<Rightarrow> entries \<Rightarrow> component list \<Rightarrow>
   io_error + (string list \<times> entries)" where
  "site_parent canon site d parent =
     res_bind (relative canon site parent False) (\<lambda>relp.
     res_bind (open_dir_at d relp) (\<lambda>ds. Inr (relp, ds)))"

text \<open>The search for the nearest existing parent directory: the candidate is held back to front.
  Returns the directory, the number of missing parents and the topmost one to be created.\<close>

fun find_existing ::
  "(component list \<Rightarrow> io_error + string list) \<Rightarrow> string list \<Rightarrow> entries \<Rightarrow> component list \<Rightarrow>
   u64 \<Rightarrow> string option \<Rightarrow> storage_error + (string list \<times> entries \<times> u64 \<times> string option)" where
  "find_existing canon site d [] missing created =
     (case site_parent canon site d [] of
        Inr (relp, ds) \<Rightarrow> Inr (relp, ds, missing, created)
      | Inl e \<Rightarrow> if io_error_kind e = NotFound
                then res_bind (storage_add missing 1) (\<lambda>_. Inl (Io e)) else Inl (Io e))"
| "find_existing canon site d (x # rest) missing created =
     (case site_parent canon site d (rev (x # rest)) of
        Inr (relp, ds) \<Rightarrow> Inr (relp, ds, missing, created)
      | Inl e \<Rightarrow>
          if io_error_kind e = NotFound
          then res_bind (storage_add missing 1) (\<lambda>m.
                 if x = RootDir then Inl (Io e)
                 else find_existing canon site d rest m
                        (case x of Normal n \<Rightarrow> Some n | _ \<Rightarrow> None))
          else Inl (Io e))"

text \<open>\<open>lock_name\<close>: one of 32 scratch lock buckets, chosen by the digest of the name.\<close>

definition lock_name :: "(string \<Rightarrow> bytes) \<Rightarrow> string \<Rightarrow> string" where
  "lock_name sha256 name =
     (let k = unat (sha256 name ! 0) mod 32
      in ''.leptos-static-'' @ (if k < 10 then ''0'' else []) @ show_nat k @ ''.lock'')"

text \<open>The accounted total: the cached inventory of this generation, or a fresh scan that is cached.\<close>

definition admission_total ::
  "lock_call \<Rightarrow> storage \<Rightarrow> guard \<Rightarrow> entries \<Rightarrow> storage \<times> (storage_error + usage)" where
  "admission_total lk st g d =
     (case storage_cached st (g_generation g) of
        Some u \<Rightarrow> (st, Inr u)
      | None \<Rightarrow>
          (case inventory lk d of
             Inl e \<Rightarrow> (st, Inl e)
           | Inr u \<Rightarrow> (storage_remember st (Some \<lparr>cached_generation = g_generation g, cached_usage = u\<rparr>), Inr u)))"

text \<open>The accounted publication peak.\<close>

definition admission_peak ::
  "(string \<Rightarrow> bytes) \<Rightarrow> usage \<Rightarrow> entries \<Rightarrow> u64 \<Rightarrow> string \<Rightarrow> u64 \<Rightarrow> u64 \<Rightarrow> storage_error + usage" where
  "admission_peak sha256 tot ds missing name html_bytes metadata_bytes =
     res_bind (storage_add (usage_bytes tot) html_bytes) (\<lambda>b1.
     res_bind (storage_add b1 metadata_bytes) (\<lambda>b2.
     res_bind (storage_add missing 2) (\<lambda>e0.
     res_bind (if missing \<noteq> 0 then storage_add e0 3
               else res_bind (missing_entry ds (lock_name sha256 name)) (\<lambda>m1.
                    res_bind (storage_add e0 m1) (\<lambda>e1.
                    res_bind (missing_entry ds PUBLICATION_LOCK) (\<lambda>m2.
                    res_bind (storage_add e1 m2) (\<lambda>e2.
                    res_bind (missing_entry ds METADATA_DIRECTORY) (\<lambda>m3.
                      storage_add e2 m3)))))) (\<lambda>e.
     res_bind (storage_add (usage_entries tot) e) (\<lambda>ee.
       Inr \<lparr>usage_bytes = b2, usage_entries = ee\<rparr>)))))"

text \<open>\<open>admit\<close> of a bound publisher. The handle may change even when the admission fails, since a
  fresh scan is remembered before the limits are checked.\<close>

definition admit_managed ::
  "lock_call \<Rightarrow> (component list \<Rightarrow> io_error + string list) \<Rightarrow> (string \<Rightarrow> bytes) \<Rightarrow> string list \<Rightarrow>
   entries \<Rightarrow> storage \<Rightarrow> guard \<Rightarrow> component list \<Rightarrow> string \<Rightarrow> u64 \<Rightarrow> u64 \<Rightarrow>
   storage \<times> (storage_error + (guard \<times> entries))" where
  "admit_managed lk canon sha256 site d st g parent name html_bytes metadata_bytes =
     (case find_existing canon site d (rev parent) 0 None of
        Inl e \<Rightarrow> (st, Inl e)
      | Inr (relp, ds, missing, created) \<Rightarrow>
          (case admission_total lk st g d of
             (st', Inl e) \<Rightarrow> (st', Inl e)
           | (st', Inr tot) \<Rightarrow>
               (st',
                res_bind (admission_peak sha256 tot ds missing name html_bytes metadata_bytes) (\<lambda>peak.
                res_bind (check_limits peak (st_limits st)) (\<lambda>_.
                res_bind (local_usage lk ds created) (\<lambda>before.
                res_bind (bump g d) (\<lambda>(g', d').
                  Inr (g'\<lparr>g_pending := Some \<lparr>p_total = tot, p_before = before,
                                              p_existing = relp, p_created = created\<rparr>\<rparr>, d'))))))))"

text \<open>\<open>commit\<close>: the inventory changes by the difference observed in the touched directory.\<close>

definition committed_usage :: "lock_call \<Rightarrow> entries \<Rightarrow> pending \<Rightarrow> usage option" where
  "committed_usage lk d p =
     (case open_dir_at d (p_existing p) of
        Inl e \<Rightarrow> None
      | Inr ds \<Rightarrow>
          (case local_usage lk ds (p_created p) of
             Inl e \<Rightarrow> None
           | Inr after \<Rightarrow>
               Option.bind (checked_sub (usage_bytes (p_total p)) (usage_bytes (p_before p))) (\<lambda>b0.
               Option.bind (checked_add b0 (usage_bytes after)) (\<lambda>b.
               Option.bind (checked_sub (usage_entries (p_total p)) (usage_entries (p_before p))) (\<lambda>e0.
               Option.bind (checked_add e0 (usage_entries after)) (\<lambda>e.
                 Some \<lparr>usage_bytes = b, usage_entries = e\<rparr>))))))"

definition commit ::
  "lock_call \<Rightarrow> entries \<Rightarrow> storage option \<Rightarrow> guard \<Rightarrow> storage option \<times> guard \<times> entries" where
  "commit lk d st g =
     (case st of
        None \<Rightarrow> (None, g, d)
      | Some s \<Rightarrow>
          (case g_pending g of
             None \<Rightarrow> (Some s, g, d)
           | Some p \<Rightarrow>
               let g0 = g\<lparr>g_pending := None\<rparr>
               in case (committed_usage lk d p, bump g0 d) of
                    (Some u, Inr (g1, d1)) \<Rightarrow>
                      (Some (storage_remember s (Some \<lparr>cached_generation = g_generation g1, cached_usage = u\<rparr>)), g1, d1)
                  | (None, Inr (g1, d1)) \<Rightarrow> (Some (storage_remember s None), g1, d1)
                  | (_, Inl e) \<Rightarrow> (Some (storage_remember s None), g0, d)))"

section \<open>Effect of updates on the inventory\<close>

lemma dir_bytes_set_entry:
  "map_of d n = Some old \<Longrightarrow> dir_bytes (set_entry n nd d) + node_bytes old = dir_bytes d + node_bytes nd"
  by (induction d) (auto split: if_splits)

lemma dir_entries_set_entry:
  "map_of d n = Some old \<Longrightarrow> dir_entries (set_entry n nd d) + node_entries old = dir_entries d + node_entries nd"
  by (induction d) (auto split: if_splits)

lemma map_of_set_entry: "map_of (set_entry n nd d) m = (if m = n then Some nd else map_of d m)"
  by (induction d) auto

lemma replace_at_inventory:
  "open_dir_at d relp = Inr ds \<Longrightarrow>
     dir_bytes (replace_at d relp ds') + dir_bytes ds = dir_bytes d + dir_bytes ds'
     \<and> dir_entries (replace_at d relp ds') + dir_entries ds = dir_entries d + dir_entries ds'"
proof (induction d relp arbitrary: ds rule: open_dir_at.induct)
  case (1 d)
  then show ?case by simp
next
  case (2 d n ns)
  then obtain sub where sub: "map_of d n = Some (Dir sub)" "open_dir_at sub ns = Inr ds"
    by (auto split: option.splits node.splits)
  let ?new = "Dir (replace_at sub ns ds')"
  have IH: "dir_bytes (replace_at sub ns ds') + dir_bytes ds = dir_bytes sub + dir_bytes ds'
      \<and> dir_entries (replace_at sub ns ds') + dir_entries ds = dir_entries sub + dir_entries ds'"
    using "2.IH" sub by simp
  show ?case
    using IH dir_bytes_set_entry [OF sub(1), of ?new] dir_entries_set_entry [OF sub(1), of ?new] sub(1)
    by (simp add: node_bytes_split node_entries_split)
qed

lemma open_dir_at_replace: "open_dir_at d relp = Inr ds \<Longrightarrow> open_dir_at (replace_at d relp ds') relp = Inr ds'"
proof (induction d relp arbitrary: ds rule: open_dir_at.induct)
  case (1 d)
  then show ?case by simp
next
  case (2 d n ns)
  then show ?case
    by (auto simp: map_of_set_entry split: option.splits node.splits)
qed

lemma length_write_generation: "40 \<le> length c \<Longrightarrow> length (write_generation g c) = length c"
  by (simp add: write_generation_def GENERATION_OFFSET_def)

definition control_present :: "entries \<Rightarrow> bool" where
  "control_present d \<longleftrightarrow> (\<exists>l c. map_of d CONTROL = Some (Reg l c) \<and> 40 \<le> length c)"

lemma bump_inventory:
  assumes "bump g d = Inr (g', d')" and "control_present d"
  shows "dir_bytes d' = dir_bytes d \<and> dir_entries d' = dir_entries d
     \<and> unat (g_generation g') = unat (g_generation g) + 1 \<and> g_pending g' = g_pending g"
proof -
  from assms obtain l c nxt where c: "map_of d CONTROL = Some (Reg l c)" "40 \<le> length c"
    and n: "storage_add (g_generation g) 1 = Inr nxt" "g' = g\<lparr>g_generation := nxt\<rparr>"
    and d': "d' = set_entry CONTROL (Reg l (write_generation nxt c)) d"
    by (auto simp: bump_def control_present_def res_bind_Inr_iff)
  show ?thesis
    using dir_bytes_set_entry [OF c(1), of "Reg l (write_generation nxt c)"] n
      dir_entries_set_entry [OF c(1), of "Reg l (write_generation nxt c)"] d'
      length_write_generation [OF c(2), of nxt]
    by (simp add: storage_add_Inr)
qed

section \<open>Exactness of the pieces\<close>

abbreviation all_sized :: "entries \<Rightarrow> bool" where
  "all_sized d \<equiv> list_all (\<lambda>(n, nd). sized nd) d"

definition exact :: "usage \<Rightarrow> entries \<Rightarrow> bool" where
  "exact u d \<longleftrightarrow> unat (usage_bytes u) = dir_bytes d \<and> unat (usage_entries u) = dir_entries d"

definition within_limits :: "nat \<Rightarrow> nat \<Rightarrow> storage_limits \<Rightarrow> bool" where
  "within_limits b e limits \<longleftrightarrow>
     (case logical_file_bytes limits of None \<Rightarrow> True | Some l \<Rightarrow> b \<le> unat l)
     \<and> (case namespace_entries limits of None \<Rightarrow> True | Some l \<Rightarrow> e \<le> unat l)"

lemma check_limits_Inr:
  "check_limits u limits = Inr v \<longleftrightarrow> within_limits (unat (usage_bytes u)) (unat (usage_entries u)) limits"
  by (auto simp: check_limits_def check_limit_def within_limits_def word_less_nat_alt
      split: option.splits if_splits)

lemma check_limits_Inl:
  "check_limits u limits = Inl e \<Longrightarrow>
     \<exists>l q. (e = LimitExceeded ''logical file bytes'' l q \<and> logical_file_bytes limits = Some l
              \<and> q = usage_bytes u \<and> l < q)
         \<or> (e = LimitExceeded ''namespace entries'' l q \<and> namespace_entries limits = Some l
              \<and> q = usage_entries u \<and> l < q)"
  by (auto simp: check_limits_def check_limit_def split: option.splits if_splits)

lemma inventory_exact: "inventory lk d = Inr u \<Longrightarrow> all_sized d \<Longrightarrow> exact u d"
  by (simp add: inventory_Inr exact_def)

lemma local_usage_split:
  assumes "local_usage lk ds created = Inr u" "all_sized ds"
  shows "dir_bytes ds = unat (usage_bytes u) + rest_bytes created ds
     \<and> dir_entries ds = unat (usage_entries u) + rest_entries created ds"
  using local_loop_sound [of lk created usage_default ds u] assms
  by (simp add: local_usage_def usage_default_def)

lemma all_sized_set_entry: "all_sized d \<Longrightarrow> sized nd \<Longrightarrow> all_sized (set_entry n nd d)"
  by (induction d) auto

lemma all_sized_map_of: "all_sized d \<Longrightarrow> map_of d n = Some nd \<Longrightarrow> sized nd"
  by (induction d) (auto split: if_splits)

lemma all_sized_open: "open_dir_at d relp = Inr ds \<Longrightarrow> all_sized d \<Longrightarrow> all_sized ds"
  by (induction d relp arbitrary: ds rule: open_dir_at.induct)
    (auto split: option.splits node.splits dest: all_sized_map_of)

lemma all_sized_replace: "all_sized d \<Longrightarrow> all_sized ds \<Longrightarrow> all_sized (replace_at d relp ds)"
  by (induction d relp ds rule: replace_at.induct)
    (auto split: option.splits node.splits dest: all_sized_map_of intro!: all_sized_set_entry)

text \<open>What a pending account promises of the tree: outside the touched entries nothing was counted
  differently, so the difference of the two local accounts is the difference of the inventories.\<close>

definition balanced :: "entries \<Rightarrow> pending \<Rightarrow> bool" where
  "balanced d p \<longleftrightarrow> (\<exists>ds. open_dir_at d (p_existing p) = Inr ds
     \<and> unat (usage_bytes (p_total p)) + dir_bytes ds
         = dir_bytes d + unat (usage_bytes (p_before p)) + rest_bytes (p_created p) ds
     \<and> unat (usage_entries (p_total p)) + dir_entries ds
         = dir_entries d + unat (usage_entries (p_before p)) + rest_entries (p_created p) ds)"

lemma committed_usage_exact:
  assumes "committed_usage lk d p = Some u" "balanced d p" "all_sized d"
  shows "exact u d"
proof -
  from assms(2) obtain ds where ds: "open_dir_at d (p_existing p) = Inr ds"
    and b: "unat (usage_bytes (p_total p)) + dir_bytes ds
         = dir_bytes d + unat (usage_bytes (p_before p)) + rest_bytes (p_created p) ds"
      "unat (usage_entries (p_total p)) + dir_entries ds
         = dir_entries d + unat (usage_entries (p_before p)) + rest_entries (p_created p) ds"
    by (auto simp: balanced_def)
  from assms(1) ds obtain after where a: "local_usage lk ds (p_created p) = Inr after"
    and u: "unat (usage_bytes (p_total p)) + unat (usage_bytes after)
              = unat (usage_bytes u) + unat (usage_bytes (p_before p))"
      "unat (usage_entries (p_total p)) + unat (usage_entries after)
              = unat (usage_entries u) + unat (usage_entries (p_before p))"
    by (auto simp: committed_usage_def checked_add_Some_iff checked_sub_Some_iff Option.bind_eq_Some_conv
        split: sum.splits)
  with local_usage_split [OF a all_sized_open [OF ds assms(3)]] b show ?thesis
    by (simp add: exact_def)
qed

lemma balanced_replace:
  assumes "balanced d p" "open_dir_at d (p_existing p) = Inr ds"
    and "rest_bytes (p_created p) ds' = rest_bytes (p_created p) ds"
    and "rest_entries (p_created p) ds' = rest_entries (p_created p) ds"
  shows "balanced (replace_at d (p_existing p) ds') p"
  using assms replace_at_inventory [OF assms(2), of ds'] open_dir_at_replace [OF assms(2), of ds']
  by (auto simp: balanced_def)

section \<open>The control record in the root directory\<close>

definition root_record :: "entries \<Rightarrow> control_record option" where
  "root_record d =
     (case map_of d CONTROL of
        Some (Reg l c) \<Rightarrow> if l = 1 \<and> c \<noteq> [] then (case read_record (Inr c) of Inr r \<Rightarrow> r | Inl _ \<Rightarrow> None) else None
      | _ \<Rightarrow> None)"

lemma root_record_Some:
  "root_record d = Some r \<longleftrightarrow> map_of d CONTROL = Some (Reg 1 (record_bytes r))"
proof
  assume "root_record d = Some r"
  then show "map_of d CONTROL = Some (Reg 1 (record_bytes r))"
    by (auto simp: root_record_def read_record_Some simp del: read_record.simps
        split: option.splits node.splits if_splits sum.splits)
next
  assume "map_of d CONTROL = Some (Reg 1 (record_bytes r))"
  then show "root_record d = Some r"
    by (simp add: root_record_def read_record_bytes del: read_record.simps)
qed

lemma root_record_control: "root_record d = Some r \<Longrightarrow> control_present d"
  by (simp add: root_record_Some control_present_def RECORD_LEN_def)

lemma open_control_record:
  "root_record d = Some r \<Longrightarrow> open_control d create = Inr (record_bytes r, d)"
  by (simp add: root_record_Some open_control_def open_lock_entry_Inr)

lemma bump_record:
  assumes "root_record d = Some r" and "rec_generation r = g_generation g"
    and "bump g d = Inr (g', d')"
  shows "root_record d' = Some (r\<lparr>rec_generation := g_generation g'\<rparr>)"
  using assms
  by (auto simp: root_record_Some bump_def res_bind_Inr_iff map_of_set_entry write_generation_record_bytes)

lemma bump_all_sized:
  assumes "bump g d = Inr (g', d')" "control_present d" "all_sized d"
  shows "all_sized d'"
  using assms all_sized_map_of [of d CONTROL]
  by (auto simp: bump_def control_present_def res_bind_Inr_iff length_write_generation
      intro!: all_sized_set_entry)

lemma storage_open_existing:
  assumes "root_record d = Some r"
  shows "storage_open lk d limits =
     res_bind (lock_control lk Exclusive False) (\<lambda>_.
       if rec_limits r \<noteq> limits then Inl PolicyMismatch
       else res_bind (inventory lk d) (\<lambda>u. res_bind (check_limits u limits) (\<lambda>_.
         Inr (\<lparr>st_limits = limits,
               st_cached = Some \<lparr>cached_generation = rec_generation r, cached_usage = u\<rparr>\<rparr>, d))))"
  by (simp add: storage_open_def open_control_record [OF assms] read_record_bytes del: read_record.simps)

lemma storage_open_fresh:
  assumes "open_lock_entry d CONTROL True = Inr ([], d1)"
  shows "storage_open lk d limits =
     res_bind (lock_control lk Exclusive False) (\<lambda>_.
       res_bind (inventory lk d1) (\<lambda>u0.
       res_bind (storage_add (usage_bytes u0) (word_of_nat RECORD_LEN)) (\<lambda>b.
       res_bind (check_limits (u0\<lparr>usage_bytes := b\<rparr>) limits) (\<lambda>_.
         Inr (\<lparr>st_limits = limits,
               st_cached = Some \<lparr>cached_generation = 0, cached_usage = u0\<lparr>usage_bytes := b\<rparr>\<rparr>\<rparr>,
              set_entry CONTROL (Reg 1 (encode limits)) d1)))))"
  by (simp add: storage_open_def open_control_def assms res_bind_assoc)

lemma storage_open_cases:
  assumes "storage_open lk d limits = Inr x"
  obtains r where "root_record d = Some r"
  | d1 where "open_lock_entry d CONTROL True = Inr ([], d1)" "map_of d1 CONTROL = Some (Reg 1 [])"
      "all_sized d \<longrightarrow> all_sized d1" "root_record d = None"
proof -
  from assms obtain c d1 p where c: "open_lock_entry d CONTROL True = Inr (c, d1)"
    and p: "read_record (Inr c) = Inr p"
    by (auto simp: storage_open_def open_control_def res_bind_Inr_iff simp del: read_record.simps)
  show thesis
  proof (cases p)
    case None
    with p have "c = []" by (simp only: read_record_None)
    with c that(2) show thesis
      by (auto simp: open_lock_entry_Inr root_record_def map_add_def)
  next
    case (Some r)
    with p have "c = record_bytes r" by (simp only: read_record_Some)
    with c that(1) show thesis by (simp add: open_lock_entry_Inr root_record_Some)
  qed
qed

lemma storage_open_state:
  assumes "storage_open lk d limits = Inr (st, d')" "all_sized d"
  shows "\<exists>r c. root_record d' = Some r \<and> rec_limits r = limits \<and> st_limits st = limits
     \<and> st_cached st = Some c \<and> cached_generation c = rec_generation r \<and> exact (cached_usage c) d'
     \<and> within_limits (dir_bytes d') (dir_entries d') limits \<and> all_sized d'
     \<and> (root_record d = None \<or> d' = d)"
proof (rule storage_open_cases [OF assms(1)])
  fix r
  assume r: "root_record d = Some r"
  with assms(1) obtain u where "rec_limits r = limits" "inventory lk d = Inr u" "d' = d"
    "check_limits u limits = Inr ()"
    "st = \<lparr>st_limits = limits, st_cached = Some \<lparr>cached_generation = rec_generation r, cached_usage = u\<rparr>\<rparr>"
    by (auto simp: storage_open_existing res_bind_Inr_iff split: if_splits)
  with r assms(2) inventory_exact [of lk d u] show ?thesis
    by (auto simp: check_limits_Inr exact_def)
next
  fix d1
  assume d1: "open_lock_entry d CONTROL True = Inr ([], d1)" "map_of d1 CONTROL = Some (Reg 1 [])"
    "all_sized d \<longrightarrow> all_sized d1" "root_record d = None"
  let ?new = "Reg 1 (encode limits)"
  from assms(1) obtain u0 b where i: "inventory lk d1 = Inr u0"
    and b: "storage_add (usage_bytes u0) (word_of_nat RECORD_LEN) = Inr b"
    and c: "check_limits (u0\<lparr>usage_bytes := b\<rparr>) limits = Inr ()"
    and st: "st = \<lparr>st_limits = limits, st_cached = Some \<lparr>cached_generation = 0, cached_usage = u0\<lparr>usage_bytes := b\<rparr>\<rparr>\<rparr>"
    and d': "d' = set_entry CONTROL ?new d1"
    by (auto simp: storage_open_fresh [OF d1(1)] res_bind_Inr_iff)
  have "dir_bytes d' = dir_bytes d1 + RECORD_LEN" "dir_entries d' = dir_entries d1"
    using dir_bytes_set_entry [OF d1(2), of ?new] dir_entries_set_entry [OF d1(2), of ?new] d' by simp_all
  moreover have "exact u0 d1"
    using inventory_exact [OF i] d1(3) assms(2) by blast
  moreover have "unat b = unat (usage_bytes u0) + RECORD_LEN"
    using b by (simp add: storage_add_Inr unat_of_nat RECORD_LEN_def)
  ultimately have "exact (u0\<lparr>usage_bytes := b\<rparr>) d'" by (simp add: exact_def)
  moreover have "root_record d' = Some \<lparr>rec_limits = limits, rec_generation = 0\<rparr>"
    by (simp add: d' root_record_Some map_of_set_entry encode_record_bytes)
  moreover have "all_sized d'"
    using d1(3) assms(2) d' by (auto intro!: all_sized_set_entry simp: RECORD_LEN_def)
  ultimately show ?thesis
    using c st d1(4) by (auto simp: check_limits_Inr exact_def)
qed

end
