(* ===== verification/Coherence.thy ===== *)
theory Coherence
  imports Admission
begin

text \<open>
  Cooperating processes on one managed root. Each process may hold a \<open>Storage\<close> handle with its own
  cached inventory; the control record's exclusive lease admits one publication at a time. A process
  may open the root, begin a publication, be admitted or refused, write into the touched directory,
  commit, crash at any moment, or exit.

  The invariant says that a cached inventory is never newer than the persisted generation, and that it
  is the exact inventory of the site whenever the generations agree and no publication is in flight.
\<close>

section \<open>One publication\<close>

lemma coordinate_managed:
  assumes "coordinate lk same d (Some st) = Inr (g, d')" and "root_record d = Some r"
  shows "d' = d \<and> rec_limits r = st_limits st \<and> g = \<lparr>g_generation = rec_generation r, g_pending = None\<rparr>"
  using assms(1)
  by (auto simp: coordinate_def res_bind_Inr_iff open_control_record [OF assms(2)] read_record_bytes
      simp del: read_record.simps split: if_splits)

lemma admission_total_cases:
  assumes "admission_total lk st g d = (st', Inr tot)" and "all_sized d"
    and "\<And>u. storage_cached st (g_generation g) = Some u \<Longrightarrow> exact u d"
  shows "exact tot d \<and> st_limits st' = st_limits st
     \<and> (st' = st \<or> st_cached st' = Some \<lparr>cached_generation = g_generation g, cached_usage = tot\<rparr>)"
  using assms inventory_exact
  by (auto simp: admission_total_def storage_remember_def split: option.splits sum.splits)

lemma admission_total_error:
  "admission_total lk st g d = (st', Inl e) \<Longrightarrow> st' = st"
  by (auto simp: admission_total_def split: option.splits sum.splits)

lemma rest_set_file:
  assumes "map_of d n = Some (Reg l c)"
  shows "rest_bytes created (set_entry n (Reg l' c') d) = rest_bytes created d
     \<and> rest_entries created (set_entry n (Reg l' c') d) = rest_entries created d"
  using assms by (induction d) (auto split: if_splits)

lemma bump_open_dir:
  assumes "bump g d = Inr (g', d')" "control_present d" "open_dir_at d relp = Inr ds"
  shows "\<exists>ds'. open_dir_at d' relp = Inr ds' \<and> dir_bytes ds' = dir_bytes ds \<and> dir_entries ds' = dir_entries ds
     \<and> rest_bytes created ds' = rest_bytes created ds \<and> rest_entries created ds' = rest_entries created ds"
proof -
  from assms(1,2) obtain l c n where c: "map_of d CONTROL = Some (Reg l c)"
    and d': "d' = set_entry CONTROL (Reg l (write_generation n c)) d"
    by (auto simp: bump_def control_present_def res_bind_Inr_iff)
  show ?thesis
  proof (cases relp)
    case Nil
    with assms(3) bump_inventory [OF assms(1,2)] rest_set_file [OF c] d' show ?thesis by simp
  next
    case (Cons m ms)
    with assms(3) c have "m \<noteq> CONTROL" by auto
    with Cons assms(3) d' show ?thesis by (auto simp: map_of_set_entry)
  qed
qed

lemma find_existing_open:
  "find_existing canon site d rp m0 c0 = Inr (relp, ds, missing, created) \<Longrightarrow> open_dir_at d relp = Inr ds"
  by (induction canon site d rp m0 c0 rule: find_existing.induct)
    (auto simp: site_parent_def res_bind_Inr_iff split: sum.splits if_splits)

lemma admit_managed_handle:
  assumes "admit_managed lk canon sha256 site d st g parent name hb mb = (st', res)" and "all_sized d"
    and "\<And>u. storage_cached st (g_generation g) = Some u \<Longrightarrow> exact u d"
  shows "st_limits st' = st_limits st
     \<and> (st' = st \<or> (\<exists>u. exact u d \<and> st_cached st' = Some \<lparr>cached_generation = g_generation g, cached_usage = u\<rparr>))"
proof (cases "find_existing canon site d (rev parent) 0 None")
  case (Inl e)
  with assms(1) show ?thesis by (simp add: admit_managed_def)
next
  case (Inr x)
  obtain st1 t where t: "admission_total lk st g d = (st1, t)" by force
  with Inr assms(1) have "st' = st1" by (cases x; cases t) (auto simp: admit_managed_def)
  with t admission_total_cases [OF _ assms(2,3)] admission_total_error show ?thesis
    by (cases t) blast+
qed

lemma admit_managed_ok:
  assumes adm: "admit_managed lk canon sha256 site d st g parent name hb mb = (st', Inr (g', d'))"
    and rr: "root_record d = Some r" "rec_generation r = g_generation g" and sz: "all_sized d"
    and cache: "\<And>u. storage_cached st (g_generation g) = Some u \<Longrightarrow> exact u d"
  shows "\<exists>p. g_pending g' = Some p \<and> balanced d' p
     \<and> root_record d' = Some (r\<lparr>rec_generation := g_generation g'\<rparr>)
     \<and> unat (g_generation g') = unat (g_generation g) + 1 \<and> all_sized d'"
proof -
  from adm obtain relp ds missing created tot before g1 where
    f: "find_existing canon site d (rev parent) 0 None = Inr (relp, ds, missing, created)"
    and t: "admission_total lk st g d = (st', Inr tot)"
    and l: "local_usage lk ds created = Inr before"
    and b: "bump g d = Inr (g1, d')"
    and g': "g' = g1\<lparr>g_pending := Some \<lparr>p_total = tot, p_before = before, p_existing = relp, p_created = created\<rparr>\<rparr>"
    by (auto simp: admit_managed_def res_bind_Inr_iff split: sum.splits prod.splits)
  have cp: "control_present d" using rr(1) by (rule root_record_control)
  have ds: "open_dir_at d relp = Inr ds" using find_existing_open [OF f] .
  have tot: "exact tot d" using admission_total_cases [OF t sz cache] by blast
  have loc: "dir_bytes ds = unat (usage_bytes before) + rest_bytes created ds"
    "dir_entries ds = unat (usage_entries before) + rest_entries created ds"
    using local_usage_split [OF l all_sized_open [OF ds sz]] by simp_all
  from bump_open_dir [OF b cp ds, of created] bump_inventory [OF b cp] tot loc
  have "balanced d' \<lparr>p_total = tot, p_before = before, p_existing = relp, p_created = created\<rparr>"
    by (auto simp: balanced_def exact_def)
  with g' bump_inventory [OF b cp] bump_record [OF rr b] bump_all_sized [OF b cp sz] show ?thesis
    by simp
qed

lemma commit_state:
  assumes com: "commit lk d (Some st) g = (Some st', g', d')"
    and rr: "root_record d = Some r" "rec_generation r = g_generation g" and sz: "all_sized d"
    and bal: "\<And>p. g_pending g = Some p \<Longrightarrow> balanced d p"
  shows "st_limits st' = st_limits st \<and> all_sized d'
     \<and> (\<exists>r'. root_record d' = Some r' \<and> rec_limits r' = rec_limits r
          \<and> unat (rec_generation r) \<le> unat (rec_generation r')
          \<and> (d' = d \<or> unat (rec_generation r) < unat (rec_generation r'))
          \<and> (st' = st \<and> d' = d \<or> st_cached st' = None
             \<or> (\<exists>u. exact u d' \<and> st_cached st' = Some \<lparr>cached_generation = rec_generation r', cached_usage = u\<rparr>)))"
proof (cases "g_pending g")
  case None
  with com rr sz show ?thesis by (auto simp: commit_def)
next
  case (Some p)
  let ?g0 = "g\<lparr>g_pending := None\<rparr>"
  show ?thesis
  proof (cases "bump ?g0 d")
    case (Inl e)
    with com Some rr sz show ?thesis
      by (auto simp: commit_def storage_remember_def Let_def split: option.splits)
  next
    case (Inr x)
    obtain g1 d1 where x: "x = (g1, d1)" by force
    have cp: "control_present d" using rr(1) by (rule root_record_control)
    note b = Inr [unfolded x]
    have d1: "d' = d1" and c: "(committed_usage lk d p = None \<and> st' = storage_remember st None) \<or>
        (\<exists>u. committed_usage lk d p = Some u
           \<and> st' = storage_remember st (Some \<lparr>cached_generation = g_generation g1, cached_usage = u\<rparr>))"
      using com Some b by (auto simp: commit_def Let_def split: option.splits)
    have inv: "dir_bytes d1 = dir_bytes d" "dir_entries d1 = dir_entries d"
      "unat (g_generation g1) = unat (g_generation g) + 1"
      using bump_inventory [OF b cp] by simp_all
    have rr1: "root_record d1 = Some (r\<lparr>rec_generation := g_generation g1\<rparr>)"
      using bump_record [OF rr(1) _ b] rr(2) by simp
    have "exact u d1" if "committed_usage lk d p = Some u" for u
      using committed_usage_exact [OF that bal [OF Some] sz] inv by (simp add: exact_def)
    with c d1 inv rr rr1 bump_all_sized [OF b cp sz] show ?thesis
      by (auto simp: storage_remember_def)
  qed
qed

section \<open>The shared root as a state machine\<close>

record site_state =
  ss_tree :: entries
  ss_handles :: "nat \<Rightarrow> storage option"
  ss_active :: "(nat \<times> guard) option"

definition init_site :: "entries \<Rightarrow> site_state" where
  "init_site d = \<lparr>ss_tree = d, ss_handles = (\<lambda>_. None), ss_active = None\<rparr>"

text \<open>A publication changes the touched directory only: its files, its metadata directory and the
  newly created chain. The contents of its other subdirectories count the same, file lengths fit in
  \<open>u64\<close>, and the control entry of the root is not replaced.\<close>

definition confined :: "pending \<Rightarrow> entries \<Rightarrow> entries \<Rightarrow> bool" where
  "confined p ds ds' \<longleftrightarrow>
     rest_bytes (p_created p) ds' = rest_bytes (p_created p) ds
     \<and> rest_entries (p_created p) ds' = rest_entries (p_created p) ds
     \<and> list_all (\<lambda>(n, nd). sized nd) ds'
     \<and> (p_existing p = [] \<longrightarrow> map_of ds' CONTROL = map_of ds CONTROL)"

inductive site_step ::
  "lock_call \<Rightarrow> (component list \<Rightarrow> io_error + string list) \<Rightarrow> (string \<Rightarrow> bytes) \<Rightarrow> string list \<Rightarrow>
   site_state \<Rightarrow> site_state \<Rightarrow> bool" for lk canon sha256 site where
  opened: "ss_active s = None \<Longrightarrow> storage_open lk (ss_tree s) limits = Inr (st, d) \<Longrightarrow>
     site_step lk canon sha256 site s
       (s\<lparr>ss_tree := d, ss_handles := (ss_handles s)(i \<mapsto> st)\<rparr>)"
| began: "ss_active s = None \<Longrightarrow> ss_handles s i = Some st \<Longrightarrow>
     coordinate lk (Inr True) (ss_tree s) (Some st) = Inr (g, d) \<Longrightarrow>
     site_step lk canon sha256 site s (s\<lparr>ss_tree := d, ss_active := Some (i, g)\<rparr>)"
| admitted: "ss_active s = Some (i, g) \<Longrightarrow> g_pending g = None \<Longrightarrow> ss_handles s i = Some st \<Longrightarrow>
     admit_managed lk canon sha256 site (ss_tree s) st g parent name hb mb = (st', Inr (g', d)) \<Longrightarrow>
     site_step lk canon sha256 site s
       (s\<lparr>ss_tree := d, ss_handles := (ss_handles s)(i \<mapsto> st'), ss_active := Some (i, g')\<rparr>)"
| refused: "ss_active s = Some (i, g) \<Longrightarrow> g_pending g = None \<Longrightarrow> ss_handles s i = Some st \<Longrightarrow>
     admit_managed lk canon sha256 site (ss_tree s) st g parent name hb mb = (st', Inl e) \<Longrightarrow>
     site_step lk canon sha256 site s
       (s\<lparr>ss_handles := (ss_handles s)(i \<mapsto> st'), ss_active := None\<rparr>)"
| wrote: "ss_active s = Some (i, g) \<Longrightarrow> g_pending g = Some p \<Longrightarrow>
     open_dir_at (ss_tree s) (p_existing p) = Inr ds \<Longrightarrow> confined p ds ds' \<Longrightarrow>
     site_step lk canon sha256 site s (s\<lparr>ss_tree := replace_at (ss_tree s) (p_existing p) ds'\<rparr>)"
| committed: "ss_active s = Some (i, g) \<Longrightarrow> ss_handles s i = Some st \<Longrightarrow>
     commit lk (ss_tree s) (Some st) g = (Some st', g', d) \<Longrightarrow> g_pending g \<noteq> None \<Longrightarrow>
     site_step lk canon sha256 site s
       (s\<lparr>ss_tree := d, ss_handles := (ss_handles s)(i \<mapsto> st'), ss_active := None\<rparr>)"
| crashed: "ss_active s = Some (i, g) \<Longrightarrow>
     site_step lk canon sha256 site s
       (s\<lparr>ss_handles := (ss_handles s)(i := None), ss_active := None\<rparr>)"
| exited: "\<forall>g. ss_active s \<noteq> Some (i, g) \<Longrightarrow>
     site_step lk canon sha256 site s (s\<lparr>ss_handles := (ss_handles s)(i := None)\<rparr>)"

inductive_cases site_stepE: "site_step lk canon sha256 site s t"

inductive site_reachable ::
  "lock_call \<Rightarrow> (component list \<Rightarrow> io_error + string list) \<Rightarrow> (string \<Rightarrow> bytes) \<Rightarrow> string list \<Rightarrow>
   entries \<Rightarrow> site_state \<Rightarrow> bool" for lk canon sha256 site d0 where
  start: "site_reachable lk canon sha256 site d0 (init_site d0)"
| step: "site_reachable lk canon sha256 site d0 s \<Longrightarrow> site_step lk canon sha256 site s t \<Longrightarrow>
     site_reachable lk canon sha256 site d0 t"

definition in_flight :: "site_state \<Rightarrow> bool" where
  "in_flight s \<longleftrightarrow> (case ss_active s of Some (i, g) \<Rightarrow> g_pending g \<noteq> None | None \<Rightarrow> False)"

definition cache_ok :: "bool \<Rightarrow> control_record \<Rightarrow> entries \<Rightarrow> cached \<Rightarrow> bool" where
  "cache_ok flight r d c \<longleftrightarrow>
     unat (cached_generation c) < unat (rec_generation r)
     \<or> (\<not> flight \<and> cached_generation c = rec_generation r \<and> exact (cached_usage c) d)"

definition handle_ok :: "site_state \<Rightarrow> storage \<Rightarrow> bool" where
  "handle_ok s st \<longleftrightarrow> (\<exists>r. root_record (ss_tree s) = Some r \<and> rec_limits r = st_limits st
     \<and> (\<forall>c. st_cached st = Some c \<longrightarrow> cache_ok (in_flight s) r (ss_tree s) c))"

definition site_inv :: "site_state \<Rightarrow> bool" where
  "site_inv s \<longleftrightarrow>
     all_sized (ss_tree s)
     \<and> (\<forall>i st. ss_handles s i = Some st \<longrightarrow> handle_ok s st)
     \<and> (\<forall>i g. ss_active s = Some (i, g) \<longrightarrow>
          (\<exists>st. ss_handles s i = Some st)
          \<and> (\<exists>r. root_record (ss_tree s) = Some r \<and> rec_generation r = g_generation g)
          \<and> (\<forall>p. g_pending g = Some p \<longrightarrow> balanced (ss_tree s) p))"

lemma cached_of_handle:
  assumes "handle_ok s st" "\<not> in_flight s" "root_record (ss_tree s) = Some r"
    and "storage_cached st (rec_generation r) = Some u"
  shows "exact u (ss_tree s)"
  using assms
  by (auto simp: handle_ok_def cache_ok_def storage_cached_def split: option.splits if_splits)

lemma handle_ok_same_tree:
  assumes "handle_ok s st" "ss_tree t = ss_tree s" "in_flight t \<Longrightarrow> in_flight s"
  shows "handle_ok t st"
  using assms by (auto simp: handle_ok_def cache_ok_def)

lemma cache_ok_bump:
  assumes "cache_ok flight r d c" "unat (rec_generation r) < unat (rec_generation r')"
  shows "cache_ok flight' r' d' c"
  using assms by (auto simp: cache_ok_def)

lemma root_record_replace:
  assumes "open_dir_at d relp = Inr ds" "relp = [] \<longrightarrow> map_of ds' CONTROL = map_of ds CONTROL"
    and "root_record d = Some r"
  shows "root_record (replace_at d relp ds') = Some r"
proof (cases relp)
  case Nil
  with assms show ?thesis by (simp add: root_record_Some)
next
  case (Cons n ns)
  with assms have "n \<noteq> CONTROL" by (auto simp: root_record_Some)
  with Cons assms show ?thesis
    by (auto simp: root_record_Some map_of_set_entry split: option.splits node.splits)
qed

lemma inv_opened:
  assumes inv: "site_inv s" and act: "ss_active s = None"
    and op: "storage_open lk (ss_tree s) limits = Inr (st, d)"
  shows "site_inv (s\<lparr>ss_tree := d, ss_handles := (ss_handles s)(i \<mapsto> st)\<rparr>)"
proof -
  from inv have sz: "all_sized (ss_tree s)"
    and hs: "\<And>j st. ss_handles s j = Some st \<Longrightarrow> handle_ok s st"
    by (auto simp: site_inv_def)
  from storage_open_state [OF op sz] obtain r c where
    st: "root_record d = Some r" "rec_limits r = st_limits st" "st_cached st = Some c"
      "cached_generation c = rec_generation r" "exact (cached_usage c) d" "all_sized d"
    and same: "root_record (ss_tree s) = None \<or> d = ss_tree s"
    by metis
  from st have new: "handle_ok (s\<lparr>ss_tree := d, ss_handles := (ss_handles s)(i \<mapsto> st)\<rparr>) st"
    using act by (simp add: handle_ok_def cache_ok_def in_flight_def)
  have old: "handle_ok (s\<lparr>ss_tree := d, ss_handles := (ss_handles s)(i \<mapsto> st)\<rparr>) st'"
    if "ss_handles s j = Some st'" for j st'
    using hs [OF that] same act by (auto simp: handle_ok_def in_flight_def)
  show ?thesis
    using new old st(6) act by (auto simp: site_inv_def split: if_splits)
qed

lemma inv_began:
  assumes inv: "site_inv s" and act: "ss_active s = None" and h: "ss_handles s i = Some st"
    and co: "coordinate lk (Inr True) (ss_tree s) (Some st) = Inr (g, d)"
  shows "site_inv (s\<lparr>ss_tree := d, ss_active := Some (i, g)\<rparr>)"
proof -
  from inv h have "handle_ok s st" by (simp add: site_inv_def)
  then obtain r where r: "root_record (ss_tree s) = Some r"
    by (auto simp: handle_ok_def)
  from coordinate_managed [OF co r] r inv act h show ?thesis
    by (auto simp: site_inv_def in_flight_def intro: handle_ok_same_tree [of s])
qed

lemma active_record:
  assumes "site_inv s" "ss_active s = Some (i, g)"
  obtains r where "root_record (ss_tree s) = Some r" "rec_generation r = g_generation g"
  using assms by (auto simp: site_inv_def)

lemma inv_admitted:
  assumes inv: "site_inv s" and act: "ss_active s = Some (i, g)" "g_pending g = None"
    and h: "ss_handles s i = Some st"
    and ad: "admit_managed lk canon sha256 site (ss_tree s) st g parent name hb mb = (st', Inr (g', d))"
  shows "site_inv (s\<lparr>ss_tree := d, ss_handles := (ss_handles s)(i \<mapsto> st'), ss_active := Some (i, g')\<rparr>)"
proof -
  from inv act(1) obtain r where r: "root_record (ss_tree s) = Some r" "rec_generation r = g_generation g"
    by (rule active_record)
  have sz: "all_sized (ss_tree s)" and hs: "\<And>j st. ss_handles s j = Some st \<Longrightarrow> handle_ok s st"
    using inv by (auto simp: site_inv_def)
  have nf: "\<not> in_flight s" using act by (simp add: in_flight_def)
  have cache: "\<And>u. storage_cached st (g_generation g) = Some u \<Longrightarrow> exact u (ss_tree s)"
    using cached_of_handle [OF hs [OF h] nf r(1)] r(2) by simp
  from admit_managed_ok [OF ad r sz cache] obtain p where p: "g_pending g' = Some p" "balanced d p"
    "root_record d = Some (r\<lparr>rec_generation := g_generation g'\<rparr>)"
    "unat (g_generation g') = unat (g_generation g) + 1" "all_sized d"
    by blast
  let ?t = "s\<lparr>ss_tree := d, ss_handles := (ss_handles s)(i \<mapsto> st'), ss_active := Some (i, g')\<rparr>"
  have other: "handle_ok ?t st''" if "handle_ok s st''" for st''
    using that r p by (auto simp: handle_ok_def intro: cache_ok_bump)
  have "handle_ok ?t st'"
    using admit_managed_handle [OF ad sz cache] other [OF hs [OF h]] hs [OF h] r p
    by (auto simp: handle_ok_def cache_ok_def)
  with other hs p show ?thesis by (auto simp: site_inv_def split: if_splits)
qed

lemma inv_refused:
  assumes inv: "site_inv s" and act: "ss_active s = Some (i, g)" "g_pending g = None"
    and h: "ss_handles s i = Some st"
    and ad: "admit_managed lk canon sha256 site (ss_tree s) st g parent name hb mb = (st', Inl e)"
  shows "site_inv (s\<lparr>ss_handles := (ss_handles s)(i \<mapsto> st'), ss_active := None\<rparr>)"
proof -
  from inv act(1) obtain r where r: "root_record (ss_tree s) = Some r" "rec_generation r = g_generation g"
    by (rule active_record)
  have sz: "all_sized (ss_tree s)" and hs: "\<And>j st. ss_handles s j = Some st \<Longrightarrow> handle_ok s st"
    using inv by (auto simp: site_inv_def)
  have nf: "\<not> in_flight s" using act by (simp add: in_flight_def)
  have cache: "\<And>u. storage_cached st (g_generation g) = Some u \<Longrightarrow> exact u (ss_tree s)"
    using cached_of_handle [OF hs [OF h] nf r(1)] r(2) by simp
  have "handle_ok s st'"
    using admit_managed_handle [OF ad sz cache] hs [OF h] r nf
    by (auto simp: handle_ok_def cache_ok_def)
  with hs sz nf show ?thesis
    by (auto simp: site_inv_def handle_ok_def in_flight_def split: if_splits)
qed

lemma inv_wrote:
  assumes inv: "site_inv s" and act: "ss_active s = Some (i, g)" "g_pending g = Some p"
    and ds: "open_dir_at (ss_tree s) (p_existing p) = Inr ds" and cf: "confined p ds ds'"
  shows "site_inv (s\<lparr>ss_tree := replace_at (ss_tree s) (p_existing p) ds'\<rparr>)"
proof -
  let ?d = "replace_at (ss_tree s) (p_existing p) ds'"
  from inv act(1) obtain r where r: "root_record (ss_tree s) = Some r" "rec_generation r = g_generation g"
    by (rule active_record)
  have rr: "root_record ?d = Some r"
    using root_record_replace [OF ds _ r(1)] cf by (auto simp: confined_def)
  have bal: "balanced ?d p"
    using inv act cf by (intro balanced_replace [OF _ ds]) (auto simp: site_inv_def confined_def)
  have sz: "all_sized ?d"
    using inv cf by (intro all_sized_replace) (auto simp: site_inv_def confined_def)
  have fl: "in_flight s" using act by (simp add: in_flight_def)
  have "handle_ok (s\<lparr>ss_tree := ?d\<rparr>) st" if "handle_ok s st" for st
    using that r rr fl by (auto simp: handle_ok_def cache_ok_def in_flight_def)
  with inv act bal sz rr r show ?thesis by (auto simp: site_inv_def)
qed

lemma inv_committed:
  assumes inv: "site_inv s" and act: "ss_active s = Some (i, g)" "g_pending g \<noteq> None"
    and h: "ss_handles s i = Some st"
    and co: "commit lk (ss_tree s) (Some st) g = (Some st', g', d)"
  shows "site_inv (s\<lparr>ss_tree := d, ss_handles := (ss_handles s)(i \<mapsto> st'), ss_active := None\<rparr>)"
proof -
  let ?t = "s\<lparr>ss_tree := d, ss_handles := (ss_handles s)(i \<mapsto> st'), ss_active := None\<rparr>"
  from inv act(1) obtain r where r: "root_record (ss_tree s) = Some r" "rec_generation r = g_generation g"
    by (rule active_record)
  have sz: "all_sized (ss_tree s)" and hs: "\<And>j st. ss_handles s j = Some st \<Longrightarrow> handle_ok s st"
    and bal: "\<And>p. g_pending g = Some p \<Longrightarrow> balanced (ss_tree s) p"
    using inv act(1) by (auto simp: site_inv_def)
  have fl: "in_flight s" using act by (auto simp: in_flight_def)
  from commit_state [OF co r sz bal] obtain r' where c: "st_limits st' = st_limits st" "all_sized d"
    "root_record d = Some r'" "rec_limits r' = rec_limits r"
    "unat (rec_generation r) \<le> unat (rec_generation r')"
    "st' = st \<and> d = ss_tree s \<or> st_cached st' = None
       \<or> (\<exists>u. exact u d \<and> st_cached st' = Some \<lparr>cached_generation = rec_generation r', cached_usage = u\<rparr>)"
    by blast
  have other: "handle_ok ?t st''" if "handle_ok s st''" for st''
    using that r c fl by (auto simp: handle_ok_def cache_ok_def)
  have "handle_ok ?t st'"
    using c other [OF hs [OF h]] hs [OF h] r
    by (auto simp: handle_ok_def cache_ok_def in_flight_def)
  with other hs c show ?thesis by (auto simp: site_inv_def split: if_splits)
qed

lemma inv_crashed:
  assumes "site_inv s" "ss_active s = Some (i, g)"
  shows "site_inv (s\<lparr>ss_handles := (ss_handles s)(i := None), ss_active := None\<rparr>)"
  using assms
  by (auto simp: site_inv_def in_flight_def split: if_splits intro: handle_ok_same_tree [of s])

lemma inv_exited:
  assumes "site_inv s" "\<forall>g. ss_active s \<noteq> Some (i, g)"
  shows "site_inv (s\<lparr>ss_handles := (ss_handles s)(i := None)\<rparr>)"
  using assms
  by (auto simp: site_inv_def in_flight_def split: if_splits intro: handle_ok_same_tree [of s])

lemma site_step_inv:
  assumes "site_step lk canon sha256 site s t" "site_inv s"
  shows "site_inv t"
  using assms
  by (cases rule: site_step.cases)
    (auto intro: inv_opened inv_began inv_admitted inv_refused inv_wrote inv_committed inv_crashed inv_exited)

lemma site_reachable_inv:
  assumes "site_reachable lk canon sha256 site d0 s" "all_sized d0"
  shows "site_inv s"
  using assms(1)
proof (induction rule: site_reachable.induct)
  case start
  show ?case using assms(2) by (simp add: site_inv_def init_site_def)
next
  case (step s t)
  then show ?case by (blast intro: site_step_inv)
qed

section \<open>Admission accounting\<close>

text \<open>The entries a publication can add at its peak: the missing parents, the two staged files, and
  those of the two lock files and the metadata directory that do not exist yet.\<close>

definition absent :: "entries \<Rightarrow> string \<Rightarrow> nat" where
  "absent ds name = (case missing_entry ds name of Inr m \<Rightarrow> unat m | Inl _ \<Rightarrow> 0)"

definition peak_entries :: "(string \<Rightarrow> bytes) \<Rightarrow> entries \<Rightarrow> nat \<Rightarrow> string \<Rightarrow> nat" where
  "peak_entries sha256 ds missing name =
     missing + 2 + (if missing \<noteq> 0 then 3
       else absent ds (lock_name sha256 name) + absent ds PUBLICATION_LOCK + absent ds METADATA_DIRECTORY)"

lemma admission_peak_Inr:
  assumes "admission_peak sha256 tot ds missing name hb mb = Inr u"
  shows "unat (usage_bytes u) = unat (usage_bytes tot) + unat hb + unat mb
     \<and> unat (usage_entries u) = unat (usage_entries tot) + peak_entries sha256 ds (unat missing) name"
proof -
  have "unat missing \<noteq> 0 \<longleftrightarrow> missing \<noteq> 0" by (simp add: unat_eq_zero)
  with assms show ?thesis
    by (auto simp: admission_peak_def res_bind_Inr_iff storage_add_Inr peak_entries_def absent_def
        split: if_splits)
qed

section \<open>A concrete site\<close>

text \<open>A fresh root opened with limits of 1000 bytes and 10 entries, then coordinated by its handle.\<close>

definition demo_limits :: storage_limits where
  "demo_limits = \<lparr>logical_file_bytes = Some 1000, namespace_entries = Some 10\<rparr>"
definition demo_root :: entries where
  "demo_root = [(CONTROL, Reg 1 (encode demo_limits))]"
definition demo_handle :: storage where
  "demo_handle = \<lparr>st_limits = demo_limits,
     st_cached = Some \<lparr>cached_generation = 0, cached_usage = \<lparr>usage_bytes = 40, usage_entries = 1\<rparr>\<rparr>\<rparr>"
definition demo_record :: control_record where
  "demo_record = \<lparr>rec_limits = demo_limits, rec_generation = 0\<rparr>"
definition demo_canon :: "component list \<Rightarrow> io_error + string list" where
  "demo_canon p = (if p = [RootDir, Normal ''srv''] then Inr [''srv''] else Inl (io_err NotFound []))"
abbreviation demo_lock :: lock_call where "demo_lock \<equiv> \<lambda>_ _. Inr ()"
abbreviation demo_sha :: "string \<Rightarrow> bytes" where "demo_sha \<equiv> \<lambda>_. replicate 32 0"

definition demo_opened :: site_state where
  "demo_opened = \<lparr>ss_tree = demo_root, ss_handles = [0 \<mapsto> demo_handle], ss_active = None\<rparr>"
definition demo_began :: site_state where
  "demo_began = demo_opened\<lparr>ss_active := Some (0, \<lparr>g_generation = 0, g_pending = None\<rparr>)\<rparr>"

lemma demo_record: "root_record demo_root = Some demo_record"
  by (simp add: root_record_Some demo_root_def demo_record_def encode_record_bytes)

lemma demo_open: "storage_open demo_lock [] demo_limits = Inr (demo_handle, demo_root)"
proof -
  have "open_lock_entry [] CONTROL True = Inr ([], [(CONTROL, Reg 1 [])])"
    by (simp add: open_lock_entry_Inr)
  from storage_open_fresh [OF this, of demo_lock demo_limits] show ?thesis
    by (simp add: lock_control_def file_lock_acquire_def inventory_def charge_def storage_add_def checked_add_def
      usage_default_def RECORD_LEN_def check_limits_def check_limit_def demo_limits_def demo_handle_def demo_root_def)
qed

lemma demo_opened_reachable: "site_reachable demo_lock demo_canon demo_sha [''srv''] [] demo_opened"
proof -
  have "site_step demo_lock demo_canon demo_sha [''srv''] (init_site []) 
     ((init_site [])\<lparr>ss_tree := demo_root, ss_handles := (ss_handles (init_site []))(0 \<mapsto> demo_handle)\<rparr>)"
    by (rule site_step.opened [where limits = demo_limits and i = 0]) (simp_all add: init_site_def demo_open)
  from site_reachable.step [OF site_reachable.start this] show ?thesis
    by (simp add: init_site_def demo_opened_def)
qed

lemma demo_began_reachable: "site_reachable demo_lock demo_canon demo_sha [''srv''] [] demo_began"
proof -
  have "coordinate demo_lock (Inr True) demo_root (Some demo_handle)
      = Inr (\<lparr>g_generation = 0, g_pending = None\<rparr>, demo_root)"
    by (simp add: coordinate_def open_control_record [OF demo_record] read_record_bytes lock_control_def
        file_lock_acquire_def demo_record_def demo_handle_def del: read_record.simps)
  then have "site_step demo_lock demo_canon demo_sha [''srv''] demo_opened
     (demo_opened\<lparr>ss_tree := demo_root, ss_active := Some (0, \<lparr>g_generation = 0, g_pending = None\<rparr>)\<rparr>)"
    by (intro site_step.began [where i = 0 and st = demo_handle]) (simp_all add: demo_opened_def)
  from site_reachable.step [OF demo_opened_reachable this] show ?thesis
    by (simp add: demo_began_def demo_opened_def)
qed


lemma demo_lock_bucket: "lock_name demo_sha n = ''.leptos-static-00.lock''"
  by (simp add: lock_name_def show_nat.simps char_of_def bit_simps)

lemma demo_find: "find_existing demo_canon [''srv''] demo_root [Normal ''srv'', RootDir] 0 None
    = Inr ([], demo_root, 0, None)"
  by (simp add: site_parent_def relative_def canonicalize_existing_prefix_def demo_canon_def)

lemma demo_bump: "bump \<lparr>g_generation = 0, g_pending = None\<rparr> demo_root
    = Inr (\<lparr>g_generation = 1, g_pending = None\<rparr>, [(CONTROL, Reg 1 (write_generation 1 (encode demo_limits)))])"
  by (simp add: bump_def demo_root_def storage_add_def checked_add_def)

lemma demo_admit: "\<exists>g' d'. admit_managed demo_lock demo_canon demo_sha [''srv''] demo_root demo_handle
      \<lparr>g_generation = 0, g_pending = None\<rparr> [RootDir, Normal ''srv''] ''index.html'' 100 50
      = (demo_handle, Inr (g', d'))"
proof -
  have t: "admission_total demo_lock demo_handle \<lparr>g_generation = 0, g_pending = None\<rparr> demo_root
     = (demo_handle, Inr \<lparr>usage_bytes = 40, usage_entries = 1\<rparr>)"
    by (simp add: admission_total_def storage_cached_def demo_handle_def)
  have p: "admission_peak demo_sha \<lparr>usage_bytes = 40, usage_entries = 1\<rparr> demo_root 0 ''index.html'' 100 50
     = Inr \<lparr>usage_bytes = 190, usage_entries = 6\<rparr>"
    by (simp add: admission_peak_def demo_root_def storage_add_def checked_add_def demo_lock_bucket missing_entry_def
       CONTROL_def PUBLICATION_LOCK_def METADATA_DIRECTORY_def)
  have l: "local_usage demo_lock demo_root None = Inr \<lparr>usage_bytes = 40, usage_entries = 1\<rparr>"
    by (simp add: local_usage_def demo_root_def charge_def storage_add_def checked_add_def usage_default_def RECORD_LEN_def
       is_touched_def CONTROL_def METADATA_DIRECTORY_def)
  have c: "check_limits \<lparr>usage_bytes = 190, usage_entries = 6\<rparr> (st_limits demo_handle) = Inr ()"
    by (simp add: check_limits_def check_limit_def demo_handle_def demo_limits_def)
  show ?thesis
    by (simp add: admit_managed_def demo_find t p l c demo_bump del: find_existing.simps)
qed

lemma demo_sized: "list_all (\<lambda>(n, nd). sized nd) []" by simp

section \<open>Properties\<close>





end
