(* ===== verification/Permits.thy ===== *)
theory Permits
  imports Storage_Record "HOL-Library.Multiset"
begin

text \<open>
  Process-local work admission (\<^verbatim>\<open>src/static_routes/policy.rs\<close>): the work limits, the policy
  errors, the permit pool shared by the clones of one policy, permits, and the future that waits for one.

  The pool is a record with its counter and its registered wakers. A waker, a permit and a future are
  named by a number that stands for their allocation. The mutex of the pool makes each critical section
  atomic; what happens between two of them may be interleaved with the steps of any other task, so a poll
  is three steps (registration of the waker, entry into the queue, the attempt to acquire) and dropping a
  permit is a release followed by one wake-up per collected waker.
\<close>

section \<open>Limits and errors\<close>

record static_work_limits =
  renders :: "u64 option"
  subscriptions :: "u64 option"
  waiters :: "u64 option"

definition work_limits_new :: static_work_limits where
  "work_limits_new = \<lparr>renders = None, subscriptions = None, waiters = None\<rparr>"

definition with_renders :: "static_work_limits \<Rightarrow> u64 \<Rightarrow> static_work_limits" where
  "with_renders l m = l\<lparr>renders := Some m\<rparr>"

definition with_subscriptions :: "static_work_limits \<Rightarrow> u64 \<Rightarrow> static_work_limits" where
  "with_subscriptions l m = l\<lparr>subscriptions := Some m\<rparr>"

definition with_waiters :: "static_work_limits \<Rightarrow> u64 \<Rightarrow> static_work_limits" where
  "with_waiters l m = l\<lparr>waiters := Some m\<rparr>"

datatype static_policy_error =
    StorageFailure storage_error
  | WorkCapacity string u64
  | AlreadyStarted
  | ConflictingPolicy
  | Render string

fun is_admission :: "static_policy_error \<Rightarrow> bool" where
  "is_admission (StorageFailure e) = is_capacity e"
| "is_admission (WorkCapacity _ _) = True"
| "is_admission AlreadyStarted = False"
| "is_admission ConflictingPolicy = False"
| "is_admission (Render _) = False"

section \<open>The permit pool\<close>

record permit_pool =
  pool_resource :: string
  pool_limit :: "u64 option"
  pool_used :: u64
  pool_pending :: "nat list"

definition pool_new :: "string \<Rightarrow> u64 option \<Rightarrow> permit_pool" where
  "pool_new resource limit =
     \<lparr>pool_resource = resource, pool_limit = limit, pool_used = 0, pool_pending = []\<rparr>"

definition pool_error :: "permit_pool \<Rightarrow> static_policy_error" where
  "pool_error p = WorkCapacity (pool_resource p) (unwrap_or (pool_limit p) (- 1))"

text \<open>\<open>acquire\<close>: the pool afterwards; the permit it returns carries \<open>amount\<close>.\<close>

definition acquire :: "permit_pool \<Rightarrow> u64 \<Rightarrow> static_policy_error + permit_pool" where
  "acquire p amount =
     res_bind (ok_or (checked_add (pool_used p) amount) (pool_error p)) (\<lambda>nxt.
       if (case pool_limit p of Some limit \<Rightarrow> limit < nxt | None \<Rightarrow> False) then Inl (pool_error p)
       else Inr (p\<lparr>pool_used := nxt\<rparr>))"

text \<open>\<open>split_one\<close>: the remaining and the split amount; \<open>None\<close> is the failed assertion.\<close>

definition split_one :: "u64 \<Rightarrow> (u64 \<times> u64) option" where
  "split_one amount = (if 0 < amount then Some (amount - 1, 1) else None)"

text \<open>The critical section of dropping a permit: the pool afterwards and the wakers to be woken. A
  registered waker is upgraded when its future is alive.\<close>

definition permit_drop :: "(nat \<Rightarrow> bool) \<Rightarrow> permit_pool \<Rightarrow> u64 \<Rightarrow> permit_pool \<times> nat list" where
  "permit_drop alive p amount =
     (let pending = filter alive (pool_pending p)
      in (p\<lparr>pool_used := pool_used p - amount, pool_pending := pending\<rparr>, filter alive pending))"

section \<open>The waiting future\<close>

text \<open>Where the future stands: not yet polled, inside a poll after the waker is registered, inside a poll
  after the queue entry, returned \<open>Pending\<close>, or returned a permit. \<open>pf_woken\<close> says that its task has been
  notified since the waker was last registered.\<close>

datatype poll_phase = Unpolled | Registering | Queued | Waiting | Ready

record permit_future =
  pf_registered :: bool
  pf_phase :: poll_phase
  pf_woken :: bool

definition future_new :: permit_future where
  "future_new = \<lparr>pf_registered = False, pf_phase = Unpolled, pf_woken = False\<rparr>"

definition poll_register :: "permit_future \<Rightarrow> permit_future" where
  "poll_register f = f\<lparr>pf_phase := Registering, pf_woken := False\<rparr>"

definition poll_enqueue ::
  "(nat \<Rightarrow> bool) \<Rightarrow> nat \<Rightarrow> permit_pool \<Rightarrow> permit_future \<Rightarrow> permit_pool \<times> permit_future" where
  "poll_enqueue alive i p f =
     (if \<not> pf_registered f
      then (p\<lparr>pool_pending := filter alive (pool_pending p) @ [i]\<rparr>, f\<lparr>pf_registered := True, pf_phase := Queued\<rparr>)
      else (p, f\<lparr>pf_phase := Queued\<rparr>))"

definition poll_acquire :: "permit_pool \<Rightarrow> permit_future \<Rightarrow> permit_pool \<times> permit_future" where
  "poll_acquire p f =
     (case acquire p 1 of
        Inr p' \<Rightarrow> (p', f\<lparr>pf_phase := Ready\<rparr>)
      | Inl _ \<Rightarrow> (p, f\<lparr>pf_phase := Waiting\<rparr>))"

definition future_poll ::
  "(nat \<Rightarrow> bool) \<Rightarrow> nat \<Rightarrow> permit_pool \<Rightarrow> permit_future \<Rightarrow> permit_pool \<times> permit_future" where
  "future_poll alive i p f = (case poll_enqueue alive i p (poll_register f) of (p', f') \<Rightarrow> poll_acquire p' f')"

definition future_drop :: "nat \<Rightarrow> permit_pool \<Rightarrow> permit_pool" where
  "future_drop i p = p\<lparr>pool_pending := filter (\<lambda>j. j \<noteq> i) (pool_pending p)\<rparr>"

section \<open>Tasks sharing one pool\<close>

text \<open>The state of everything that shares a pool: the live permits with their amounts, the live futures,
  and the wake-ups that dropped permits have collected and not yet delivered.\<close>

record work_system =
  ws_pool :: permit_pool
  ws_permits :: "u64 multiset"
  ws_futures :: "nat \<Rightarrow> permit_future option"
  ws_wakes :: "nat list"

definition ws_alive :: "work_system \<Rightarrow> nat \<Rightarrow> bool" where
  "ws_alive s i \<longleftrightarrow> ws_futures s i \<noteq> None"

definition ws_init :: "string \<Rightarrow> u64 option \<Rightarrow> work_system" where
  "ws_init resource limit =
     \<lparr>ws_pool = pool_new resource limit, ws_permits = {#}, ws_futures = (\<lambda>_. None), ws_wakes = []\<rparr>"

inductive work_step :: "work_system \<Rightarrow> work_system \<Rightarrow> bool" where
  acquired: "acquire (ws_pool s) a = Inr p \<Longrightarrow>
     work_step s (s\<lparr>ws_pool := p, ws_permits := add_mset a (ws_permits s)\<rparr>)"
| split: "a \<in># ws_permits s \<Longrightarrow> split_one a = Some (b, c) \<Longrightarrow>
     work_step s (s\<lparr>ws_permits := add_mset b (add_mset c (ws_permits s - {#a#}))\<rparr>)"
| released: "a \<in># ws_permits s \<Longrightarrow> permit_drop (ws_alive s) (ws_pool s) a = (p, wakes) \<Longrightarrow>
     work_step s (s\<lparr>ws_pool := p, ws_permits := ws_permits s - {#a#}, ws_wakes := ws_wakes s @ wakes\<rparr>)"
| woken: "ws_wakes s = ws1 @ i # ws2 \<Longrightarrow>
     work_step s (s\<lparr>ws_wakes := ws1 @ ws2,
       ws_futures := (ws_futures s)(i := map_option (\<lambda>f. f\<lparr>pf_woken := True\<rparr>) (ws_futures s i))\<rparr>)"
| created: "ws_futures s i = None \<Longrightarrow> i \<notin> set (ws_wakes s) \<Longrightarrow> i \<notin> set (pool_pending (ws_pool s)) \<Longrightarrow>
     work_step s (s\<lparr>ws_futures := (ws_futures s)(i \<mapsto> future_new)\<rparr>)"
| registered: "ws_futures s i = Some f \<Longrightarrow> pf_phase f = Unpolled \<or> pf_phase f = Waiting \<Longrightarrow>
     work_step s (s\<lparr>ws_futures := (ws_futures s)(i \<mapsto> poll_register f)\<rparr>)"
| enqueued: "ws_futures s i = Some f \<Longrightarrow> pf_phase f = Registering \<Longrightarrow>
     poll_enqueue (ws_alive s) i (ws_pool s) f = (p, f') \<Longrightarrow>
     work_step s (s\<lparr>ws_pool := p, ws_futures := (ws_futures s)(i \<mapsto> f')\<rparr>)"
| tried: "ws_futures s i = Some f \<Longrightarrow> pf_phase f = Queued \<Longrightarrow>
     poll_acquire (ws_pool s) f = (p, f') \<Longrightarrow>
     work_step s (s\<lparr>ws_pool := p, ws_futures := (ws_futures s)(i \<mapsto> f'),
       ws_permits := (if pf_phase f' = Ready then add_mset 1 (ws_permits s) else ws_permits s)\<rparr>)"
| dropped: "ws_futures s i = Some f \<Longrightarrow> pf_phase f \<noteq> Registering \<Longrightarrow> pf_phase f \<noteq> Queued \<Longrightarrow>
     work_step s (s\<lparr>ws_pool := future_drop i (ws_pool s), ws_futures := (ws_futures s)(i := None)\<rparr>)"

inductive_cases work_stepE: "work_step s t"

inductive work_reachable :: "string \<Rightarrow> u64 option \<Rightarrow> work_system \<Rightarrow> bool" for resource limit where
  start: "work_reachable resource limit (ws_init resource limit)"
| step: "work_reachable resource limit s \<Longrightarrow> work_step s t \<Longrightarrow> work_reachable resource limit t"

section \<open>Accounting\<close>

definition permits_total :: "u64 multiset \<Rightarrow> nat" where
  "permits_total ps = (\<Sum>a\<in>#ps. unat a)"

lemma permits_total_simps [simp]:
  "permits_total {#} = 0" "permits_total (add_mset a ps) = unat a + permits_total ps"
  by (simp_all add: permits_total_def)

lemma permits_total_remove: "a \<in># ps \<Longrightarrow> permits_total ps = unat a + permits_total (ps - {#a#})"
  by (simp add: permits_total_def flip: image_mset_Diff sum_mset.remove)
     (metis image_mset_add_mset insert_DiffM sum_mset.insert)

text \<open>The contract of a counted resource: taking adds the amount when the bound allows it, giving back
  subtracts it. A client that hands out one unit per grant and returns each grant at most once never
  exceeds the bound, whatever the order.\<close>

locale counted_resource =
  fixes take_amount :: "'s \<Rightarrow> u64 \<Rightarrow> 's option"
    and give :: "'s \<Rightarrow> u64 \<Rightarrow> 's"
    and used :: "'s \<Rightarrow> nat"
    and bound :: "'s \<Rightarrow> nat"
  assumes take_used: "take_amount s a = Some t \<Longrightarrow> used t = used s + unat a \<and> used t \<le> bound s"
    and take_bound: "take_amount s a = Some t \<Longrightarrow> bound t = bound s"
    and give_used: "unat a \<le> used s \<Longrightarrow> used (give s a) = used s - unat a"
    and give_bound: "bound (give s a) = bound s"
begin

definition accounted :: "'s \<Rightarrow> u64 multiset \<Rightarrow> bool" where
  "accounted s live \<longleftrightarrow> used s = permits_total live \<and> used s \<le> bound s"

lemma accounted_take:
  "accounted s live \<Longrightarrow> take_amount s a = Some t \<Longrightarrow> accounted t (add_mset a live)"
  using take_used [of s a t] take_bound [of s a t] by (simp add: accounted_def)

lemma accounted_give:
  assumes "accounted s live" "a \<in># live"
  shows "accounted (give s a) (live - {#a#})"
  using assms give_used [of a s] give_bound [of s a] permits_total_remove [of a live]
  by (simp add: accounted_def)

lemma accounted_split:
  assumes "accounted s live" "a \<in># live" "unat b + unat c = unat a"
  shows "accounted s (add_mset b (add_mset c (live - {#a#})))"
  using assms permits_total_remove [of a live] by (simp add: accounted_def)

end

definition pool_bound :: "permit_pool \<Rightarrow> nat" where
  "pool_bound p = (case pool_limit p of Some l \<Rightarrow> unat l | None \<Rightarrow> 2 ^ 64 - 1)"

definition pool_take :: "permit_pool \<Rightarrow> u64 \<Rightarrow> permit_pool option" where
  "pool_take p a = (case acquire p a of Inr p' \<Rightarrow> Some p' | Inl _ \<Rightarrow> None)"

definition pool_give :: "permit_pool \<Rightarrow> u64 \<Rightarrow> permit_pool" where
  "pool_give p a = fst (permit_drop (\<lambda>i. i \<in> set (pool_pending p)) p a)"

lemma unat_u64_less: "unat (l :: u64) < 18446744073709551616"
  using unsigned_less [of l] by simp

lemma acquire_Inr:
  "acquire p a = Inr p' \<longleftrightarrow>
     unat (pool_used p) + unat a \<le> pool_bound p \<and> p' = p\<lparr>pool_used := pool_used p + a\<rparr>"
proof -
  have w: "unat (pool_used p) + unat a < 2 ^ 64 \<Longrightarrow> unat (pool_used p + a) = unat (pool_used p) + unat a"
    by (simp add: unat_word_ariths)
  show ?thesis
  proof (cases "pool_limit p")
    case None
    then show ?thesis by (auto simp: acquire_def pool_bound_def checked_add_def)
  next
    case (Some l)
    with w unat_u64_less [of l] show ?thesis
      by (auto simp: acquire_def pool_bound_def checked_add_def word_less_nat_alt)
  qed
qed

lemma acquire_used: "acquire p a = Inr p' \<Longrightarrow> unat (pool_used p') = unat (pool_used p) + unat a"
proof -
  assume "acquire p a = Inr p'"
  moreover have "pool_bound p < 2 ^ 64"
    by (simp add: pool_bound_def unat_u64_less split: option.splits)
  ultimately show ?thesis by (auto simp: acquire_Inr unat_word_ariths)
qed

interpretation pool: counted_resource pool_take pool_give "\<lambda>p. unat (pool_used p)" pool_bound
proof unfold_locales
  fix s a t
  assume "pool_take s a = Some t"
  then have t: "acquire s a = Inr t" by (simp add: pool_take_def split: sum.splits)
  with acquire_used [OF t]
  show "unat (pool_used t) = unat (pool_used s) + unat a \<and> unat (pool_used t) \<le> pool_bound s"
    by (auto simp: acquire_Inr)
  from t show "pool_bound t = pool_bound s" by (auto simp: acquire_Inr pool_bound_def)
next
  fix s a
  show "pool_bound (pool_give s a) = pool_bound s"
    by (simp add: pool_give_def permit_drop_def Let_def pool_bound_def)
  assume "unat a \<le> unat (pool_used s)"
  then show "unat (pool_used (pool_give s a)) = unat (pool_used s) - unat a"
    by (simp add: pool_give_def permit_drop_def Let_def unat_sub word_le_nat_alt)
qed

section \<open>The invariant of the shared pool\<close>

definition future_ok :: "work_system \<Rightarrow> nat \<Rightarrow> permit_future \<Rightarrow> bool" where
  "future_ok s i f \<longleftrightarrow>
     (pf_phase f = Queued \<or> pf_phase f = Waiting \<longrightarrow> pf_registered f)
     \<and> (pf_registered f \<longrightarrow> i \<in> set (pool_pending (ws_pool s)))
     \<and> (pf_phase f = Waiting \<longrightarrow>
          pf_woken f \<or> i \<in> set (ws_wakes s) \<or> pool_bound (ws_pool s) \<le> unat (pool_used (ws_pool s)))"

definition work_inv :: "work_system \<Rightarrow> bool" where
  "work_inv s \<longleftrightarrow> pool.accounted (ws_pool s) (ws_permits s)
     \<and> (\<forall>i f. ws_futures s i = Some f \<longrightarrow> future_ok s i f)"

lemma future_ok_mono:
  assumes "future_ok s i f"
    and "i \<in> set (pool_pending (ws_pool s)) \<Longrightarrow> i \<in> set (pool_pending (ws_pool t))"
    and "ws_wakes t = ws_wakes s" and "pool_bound (ws_pool t) = pool_bound (ws_pool s)"
    and "unat (pool_used (ws_pool s)) \<le> unat (pool_used (ws_pool t))"
  shows "future_ok t i f"
proof -
  have "pool_bound (ws_pool s) \<le> unat (pool_used (ws_pool s)) \<Longrightarrow> pool_bound (ws_pool t) \<le> unat (pool_used (ws_pool t))"
    using assms(4,5) by linarith
  with assms(1-3) show ?thesis by (auto simp: future_ok_def)
qed

lemma accounted_pending [simp]:
  "pool.accounted (p\<lparr>pool_pending := q\<rparr>) live \<longleftrightarrow> pool.accounted p live"
  by (simp add: pool.accounted_def pool_bound_def)

lemma accounted_drop:
  assumes "pool.accounted p live" "a \<in># live" "permit_drop alive p a = (p', ws)"
  shows "pool.accounted p' (live - {#a#})"
proof -
  have "p' = (pool_give p a)\<lparr>pool_pending := pool_pending p'\<rparr>"
    using assms(3) by (auto simp: permit_drop_def pool_give_def Let_def)
  with pool.accounted_give [OF assms(1,2)] show ?thesis
    by (metis accounted_pending)
qed

lemma accounted_acquire:
  "pool.accounted p live \<Longrightarrow> acquire p a = Inr p' \<Longrightarrow> pool.accounted p' (add_mset a live)"
  using pool.accounted_take [of p live a p'] by (simp add: pool_take_def)

lemma split_one_sum: "split_one a = Some (b, c) \<Longrightarrow> unat b + unat c = unat a"
  by (auto simp: split_one_def word_less_nat_alt unat_sub word_le_nat_alt split: if_splits)

lemma acquire_pool: "acquire p a = Inr p' \<Longrightarrow>
    pool_pending p' = pool_pending p \<and> pool_bound p' = pool_bound p \<and> unat (pool_used p) \<le> unat (pool_used p')"
  using acquire_used [of p a p'] by (auto simp: acquire_Inr pool_bound_def)

lemma acquire_fails: "acquire p 1 = Inl e \<Longrightarrow> pool_bound p \<le> unat (pool_used p)"
proof (rule ccontr)
  assume "acquire p 1 = Inl e" "\<not> pool_bound p \<le> unat (pool_used p)"
  with acquire_Inr [of p 1 "p\<lparr>pool_used := pool_used p + 1\<rparr>"] show False by simp
qed

lemma inv_acquired:
  assumes "work_inv s" "acquire (ws_pool s) a = Inr p"
  shows "work_inv (s\<lparr>ws_pool := p, ws_permits := add_mset a (ws_permits s)\<rparr>)"
proof -
  let ?t = "s\<lparr>ws_pool := p, ws_permits := add_mset a (ws_permits s)\<rparr>"
  have "future_ok ?t j g" if "future_ok s j g" for j g
    using that acquire_pool [OF assms(2)] by (intro future_ok_mono [OF that]) simp_all
  moreover have "pool.accounted p (add_mset a (ws_permits s))"
    using assms(1) accounted_acquire [OF _ assms(2)] by (simp add: work_inv_def)
  ultimately show ?thesis using assms(1) by (simp add: work_inv_def)
qed

lemma inv_released:
  assumes "work_inv s" "a \<in># ws_permits s" "permit_drop (ws_alive s) (ws_pool s) a = (p, wakes)"
  shows "work_inv (s\<lparr>ws_pool := p, ws_permits := ws_permits s - {#a#}, ws_wakes := ws_wakes s @ wakes\<rparr>)"
  using assms accounted_drop [OF _ assms(2,3)]
  by (auto simp: work_inv_def future_ok_def permit_drop_def Let_def ws_alive_def)

lemma work_inv_woken:
  assumes "work_inv s" "ws_wakes s = ws1 @ i # ws2"
  shows "work_inv (s\<lparr>ws_wakes := ws1 @ ws2,
       ws_futures := (ws_futures s)(i := map_option (\<lambda>f. f\<lparr>pf_woken := True\<rparr>) (ws_futures s i))\<rparr>)"
  using assms by (auto simp: work_inv_def future_ok_def)

lemma inv_enqueued:
  assumes "work_inv s" "ws_futures s i = Some f" "poll_enqueue (ws_alive s) i (ws_pool s) f = (p, f')"
    "pf_phase f = Registering"
  shows "work_inv (s\<lparr>ws_pool := p, ws_futures := (ws_futures s)(i \<mapsto> f')\<rparr>)"
proof -
  let ?t = "s\<lparr>ws_pool := p, ws_futures := (ws_futures s)(i \<mapsto> f')\<rparr>"
  have q: "i \<in> set (pool_pending p) \<or> pf_registered f" "pool_bound p = pool_bound (ws_pool s)"
    "pool_used p = pool_used (ws_pool s)" "pf_registered f'" "pf_phase f' = Queued"
    "\<And>j. ws_alive s j \<Longrightarrow> j \<in> set (pool_pending (ws_pool s)) \<Longrightarrow> j \<in> set (pool_pending p)"
    using assms(3) by (auto simp: poll_enqueue_def pool_bound_def split: if_splits)
  have "future_ok ?t j g" if "ws_futures s j = Some g" for j g
  proof (rule future_ok_mono [of s])
    show "future_ok s j g" using assms(1) that by (simp add: work_inv_def)
  qed (use that q in \<open>simp_all add: ws_alive_def\<close>)
  moreover have "future_ok ?t i f'"
    using assms(1,2) q by (auto simp: work_inv_def future_ok_def ws_alive_def)
  moreover have "pool.accounted p (ws_permits s)"
    using assms by (auto simp: work_inv_def poll_enqueue_def split: if_splits)
  ultimately show ?thesis by (simp add: work_inv_def)
qed

lemma inv_tried:
  assumes "work_inv s" "ws_futures s i = Some f" "pf_phase f = Queued" "poll_acquire (ws_pool s) f = (p, f')"
  shows "work_inv (s\<lparr>ws_pool := p, ws_futures := (ws_futures s)(i \<mapsto> f'),
       ws_permits := (if pf_phase f' = Ready then add_mset 1 (ws_permits s) else ws_permits s)\<rparr>)"
proof (cases "acquire (ws_pool s) 1")
  case (Inl e)
  with assms acquire_fails [OF Inl] show ?thesis
    by (auto simp: work_inv_def future_ok_def poll_acquire_def)
next
  case (Inr p1)
  let ?t = "s\<lparr>ws_pool := p, ws_futures := (ws_futures s)(i \<mapsto> f'), ws_permits := add_mset 1 (ws_permits s)\<rparr>"
  have p: "p1 = p" "pf_phase f' = Ready" "pf_registered f' = pf_registered f"
    using Inr assms(4) by (auto simp: poll_acquire_def)
  have "future_ok ?t j g" if "ws_futures s j = Some g" for j g
  proof (rule future_ok_mono [of s])
    show "future_ok s j g" using assms(1) that by (simp add: work_inv_def)
  qed (use acquire_pool [OF Inr] p in simp_all)
  moreover have "future_ok ?t i f'"
    using calculation [OF assms(2)] p by (simp add: future_ok_def)
  moreover have "pool.accounted p (add_mset 1 (ws_permits s))"
    using assms(1) accounted_acquire [OF _ Inr] p(1) by (simp add: work_inv_def)
  ultimately show ?thesis using p(2) by (simp add: work_inv_def)
qed

lemma work_inv_dropped:
  assumes "work_inv s" "ws_futures s i = Some f"
  shows "work_inv (s\<lparr>ws_pool := future_drop i (ws_pool s), ws_futures := (ws_futures s)(i := None)\<rparr>)"
  using assms by (auto simp: work_inv_def future_ok_def future_drop_def pool_bound_def)

lemma work_step_inv: "work_step s t \<Longrightarrow> work_inv s \<Longrightarrow> work_inv t"
proof (induction rule: work_step.induct)
  case (split a s b c)
  then show ?case
    using pool.accounted_split [OF _ _ split_one_sum [of a b c]] by (auto simp: work_inv_def future_ok_def)
next
  case (created s i)
  then show ?case by (auto simp: work_inv_def future_ok_def future_new_def)
next
  case (registered s i f)
  then show ?case by (auto simp: work_inv_def future_ok_def poll_register_def)
qed (simp_all add: inv_acquired inv_released work_inv_woken inv_enqueued inv_tried work_inv_dropped)

lemma work_reachable_inv: "work_reachable resource limit s \<Longrightarrow> work_inv s"
proof (induction rule: work_reachable.induct)
  case start
  show ?case by (simp add: work_inv_def ws_init_def pool_new_def pool.accounted_def)
next
  case (step s t)
  then show ?case by (blast intro: work_step_inv)
qed

lemma work_step_limit: "work_step s t \<Longrightarrow> pool_limit (ws_pool t) = pool_limit (ws_pool s)"
  by (induction rule: work_step.induct)
    (auto simp: acquire_Inr permit_drop_def Let_def poll_enqueue_def poll_acquire_def future_drop_def
      split: if_splits sum.splits)

lemma work_reachable_limit: "work_reachable resource limit s \<Longrightarrow> pool_limit (ws_pool s) = limit"
  by (induction rule: work_reachable.induct) (simp_all add: ws_init_def pool_new_def work_step_limit)

section \<open>Properties\<close>

text \<open>A pool of one permit whose permit has been handed out; and the same pool after a future that
  polled in vain and the release of the permit.\<close>

definition demo_pool :: "u64 \<Rightarrow> nat list \<Rightarrow> permit_pool" where
  "demo_pool u q = \<lparr>pool_resource = ''renders'', pool_limit = Some 1, pool_used = u, pool_pending = q\<rparr>"

definition demo_taken :: work_system where
  "demo_taken = \<lparr>ws_pool = demo_pool 1 [], ws_permits = {#1#}, ws_futures = (\<lambda>_. None), ws_wakes = []\<rparr>"

definition demo_waiting :: work_system where
  "demo_waiting = \<lparr>ws_pool = demo_pool 0 [7], ws_permits = {#},
     ws_futures = [7 \<mapsto> \<lparr>pf_registered = True, pf_phase = Waiting, pf_woken = False\<rparr>], ws_wakes = [7]\<rparr>"

lemma demo_taken_reachable: "work_reachable ''renders'' (Some 1) demo_taken"
proof -
  have "acquire (ws_pool (ws_init ''renders'' (Some 1))) 1 = Inr (demo_pool 1 [])"
    by (simp add: ws_init_def pool_new_def acquire_def checked_add_def demo_pool_def)
  from work_reachable.step [OF work_reachable.start work_step.acquired [OF this]] show ?thesis
    by (simp add: ws_init_def demo_taken_def)
qed

lemma demo_waiting_reachable: "work_reachable ''renders'' (Some 1) demo_waiting"
proof -
  let ?w = "\<lambda>f. \<lparr>ws_pool = demo_pool 1 [], ws_permits = {#1#}, ws_futures = [7 \<mapsto> f], ws_wakes = []\<rparr>"
  let ?q = "\<lambda>f. \<lparr>ws_pool = demo_pool 1 [7], ws_permits = {#1#}, ws_futures = [7 \<mapsto> f], ws_wakes = []\<rparr>"
  have 1: "work_step demo_taken (?w future_new)"
    using work_step.created [of demo_taken 7] by (simp add: demo_taken_def demo_pool_def)
  have 2: "work_step (?w future_new) (?w (poll_register future_new))"
    using work_step.registered [of "?w future_new" 7 future_new] by (simp add: future_new_def)
  have 3: "work_step (?w (poll_register future_new)) (?q \<lparr>pf_registered = True, pf_phase = Queued, pf_woken = False\<rparr>)"
    using work_step.enqueued [of "?w (poll_register future_new)" 7 "poll_register future_new"]
    by (simp add: future_new_def poll_register_def poll_enqueue_def demo_pool_def)
  have 4: "work_step (?q \<lparr>pf_registered = True, pf_phase = Queued, pf_woken = False\<rparr>)
      (?q \<lparr>pf_registered = True, pf_phase = Waiting, pf_woken = False\<rparr>)"
    using work_step.tried [of "?q \<lparr>pf_registered = True, pf_phase = Queued, pf_woken = False\<rparr>" 7
        "\<lparr>pf_registered = True, pf_phase = Queued, pf_woken = False\<rparr>"]
    by (simp add: poll_acquire_def acquire_def checked_add_def demo_pool_def)
  have 5: "work_step (?q \<lparr>pf_registered = True, pf_phase = Waiting, pf_woken = False\<rparr>) demo_waiting"
    using work_step.released [of 1 "?q \<lparr>pf_registered = True, pf_phase = Waiting, pf_woken = False\<rparr>"]
    by (simp add: permit_drop_def Let_def ws_alive_def demo_pool_def demo_waiting_def)
  from demo_taken_reachable 1 2 3 4 5 show ?thesis by (meson work_reachable.step)
qed

text \<open>C17: accounting of permits. In every state reachable by any interleaving of acquisitions, splits,
  releases, wake-ups and polls of waiting futures, the pool's counter is the sum of the amounts of the
  live permits and never exceeds the configured limit; so the subtraction on release cannot underflow.\<close>

theorem permits_accounted:
  assumes "work_reachable resource limit s"
  shows "unat (pool_used (ws_pool s)) = permits_total (ws_permits s)
     \<and> (case limit of Some l \<Rightarrow> unat (pool_used (ws_pool s)) \<le> unat l | None \<Rightarrow> True)
     \<and> (\<forall>a. a \<in># ws_permits s \<longrightarrow> a \<le> pool_used (ws_pool s))"
proof -
  from work_reachable_inv [OF assms] have acc: "pool.accounted (ws_pool s) (ws_permits s)"
    by (simp add: work_inv_def)
  then have "a \<le> pool_used (ws_pool s)" if "a \<in># ws_permits s" for a
    using permits_total_remove [OF that] by (simp add: pool.accounted_def word_le_nat_alt)
  with acc work_reachable_limit [OF assms] show ?thesis
    by (auto simp: pool.accounted_def pool_bound_def split: option.splits)
qed

theorem permits_accounted_witness:
  "unat (pool_used (ws_pool demo_taken)) = permits_total {#1#} \<and> unat (pool_used (ws_pool demo_taken)) \<le> unat (1 :: u64)"
  using permits_accounted [OF demo_taken_reachable] by (simp add: demo_taken_def)

text \<open>C16: no wake-up is lost. A future whose last poll returned \<open>Pending\<close>, in a state where one more
  permit could be acquired, has been woken since it registered its waker or is about to be woken by a
  release that has already happened; and once its task polls it, a poll that finds the permit still
  available returns it.\<close>

theorem no_lost_wakeup:
  assumes "work_reachable resource limit s" and "ws_futures s i = Some f" and "pf_phase f = Waiting"
    and "acquire (ws_pool s) 1 = Inr p"
  shows "(pf_woken f \<or> i \<in> set (ws_wakes s))
     \<and> pf_phase (snd (future_poll (ws_alive s) i (ws_pool s) f)) = Ready"
proof -
  have ok: "future_ok s i f" using work_reachable_inv [OF assms(1)] assms(2) by (simp add: work_inv_def)
  have "unat (pool_used (ws_pool s)) < pool_bound (ws_pool s)"
    using assms(4) by (simp add: acquire_Inr)
  with ok assms(3) have "pf_woken f \<or> i \<in> set (ws_wakes s)"
    by (auto simp: future_ok_def)
  moreover have "poll_enqueue (ws_alive s) i (ws_pool s) (poll_register f) = (ws_pool s, f\<lparr>pf_woken := False, pf_phase := Queued\<rparr>)"
    using ok assms(3) by (simp add: future_ok_def poll_enqueue_def poll_register_def)
  ultimately show ?thesis using assms(4) by (simp add: future_poll_def poll_acquire_def)
qed

theorem no_lost_wakeup_witness:
  "7 \<in> set (ws_wakes demo_waiting)
     \<and> pf_phase (snd (future_poll (ws_alive demo_waiting) 7 (ws_pool demo_waiting)
          \<lparr>pf_registered = True, pf_phase = Waiting, pf_woken = False\<rparr>)) = Ready"
proof -
  have "acquire (ws_pool demo_waiting) 1 = Inr (demo_pool 1 [7])"
    by (simp add: demo_waiting_def acquire_def checked_add_def demo_pool_def)
  from no_lost_wakeup [OF demo_waiting_reachable _ _ this, of 7] show ?thesis
    by (simp add: demo_waiting_def)
qed

end
