(* ===== verification/Policy.thy ===== *)
theory Policy
  imports Permits
begin

text \<open>
  Installation of a static route policy (\<^verbatim>\<open>src/static_routes/policy.rs\<close>): the bindings of one
  runtime, keyed by canonical site root, and the binding of one policy on every runtime behind a list of
  routes. A policy handle is its allocation (\<open>Arc\<close> identity) together with its canonical root; a runtime
  is named by its address, and the store maps it to its \<open>PolicyState\<close>.
\<close>

section \<open>Bindings of one runtime\<close>

record route_policy =
  pol_id :: nat
  pol_root :: "string list"

record binding =
  b_policy :: "route_policy option"
  b_started :: bool

definition binding_default :: binding where
  "binding_default = \<lparr>b_policy = None, b_started = False\<rparr>"

type_synonym policy_state = "string list \<Rightarrow> binding option"

definition policy_check :: "policy_state \<Rightarrow> route_policy \<Rightarrow> static_policy_error + unit" where
  "policy_check s policy =
     (case s (pol_root policy) of
        None \<Rightarrow> Inr ()
      | Some b \<Rightarrow>
          if b_started b then Inl AlreadyStarted
          else if (case b_policy b of Some current \<Rightarrow> pol_id current \<noteq> pol_id policy | None \<Rightarrow> False)
          then Inl ConflictingPolicy
          else Inr ())"

definition or_default :: "policy_state \<Rightarrow> string list \<Rightarrow> binding" where
  "or_default s key = (case s key of Some b \<Rightarrow> b | None \<Rightarrow> binding_default)"

definition policy_bind :: "policy_state \<Rightarrow> route_policy \<Rightarrow> policy_state" where
  "policy_bind s policy =
     s(pol_root policy \<mapsto> (or_default s (pol_root policy))\<lparr>b_policy := Some policy\<rparr>)"

text \<open>\<open>start\<close>, with the outcome of resolving the site root.\<close>

definition policy_start :: "policy_state \<Rightarrow> io_error + string list \<Rightarrow> policy_state \<times> route_policy option" where
  "policy_start s resolved =
     (case resolved of
        Inl _ \<Rightarrow> (s, None)
      | Inr key \<Rightarrow>
          (s(key \<mapsto> (or_default s key)\<lparr>b_started := True\<rparr>), b_policy (or_default s key)))"

section \<open>Binding routes\<close>

type_synonym runtimes = "nat \<Rightarrow> policy_state"

fun check_all :: "runtimes \<Rightarrow> route_policy \<Rightarrow> nat list \<Rightarrow> static_policy_error + unit" where
  "check_all rt policy [] = Inr ()"
| "check_all rt policy (r # rs) = res_bind (policy_check (rt r) policy) (\<lambda>_. check_all rt policy rs)"

fun bind_all :: "runtimes \<Rightarrow> route_policy \<Rightarrow> nat list \<Rightarrow> runtimes" where
  "bind_all rt policy [] = rt"
| "bind_all rt policy (r # rs) = bind_all (rt(r := policy_bind (rt r) policy)) policy rs"

text \<open>\<open>configure_routes\<close>: the runtimes are locked in address order without duplicates, so that no lock is
  taken twice; all are checked before any is bound.\<close>

definition configure_routes ::
  "runtimes \<Rightarrow> route_policy \<Rightarrow> nat list \<Rightarrow> runtimes \<times> (static_policy_error + unit)" where
  "configure_routes rt policy routes =
     (let guards = remdups_adj (sort routes)
      in case check_all rt policy guards of
           Inl e \<Rightarrow> (rt, Inl e)
         | Inr _ \<Rightarrow> (bind_all rt policy guards, Inr ()))"

definition bind_runtime ::
  "runtimes \<Rightarrow> route_policy \<Rightarrow> nat \<Rightarrow> runtimes \<times> (static_policy_error + unit)" where
  "bind_runtime rt policy r =
     (case policy_check (rt r) policy of
        Inl e \<Rightarrow> (rt, Inl e)
      | Inr _ \<Rightarrow> (rt(r := policy_bind (rt r) policy), Inr ()))"

text \<open>Any operation of any task on the store.\<close>

inductive policy_step :: "runtimes \<Rightarrow> runtimes \<Rightarrow> bool" where
  configured: "policy_step rt (fst (configure_routes rt policy routes))"
| bound: "policy_step rt (fst (bind_runtime rt policy r))"
| started: "policy_step rt (rt(r := fst (policy_start (rt r) resolved)))"

section \<open>Lemmas\<close>

lemma check_all_Inr: "check_all rt policy rs = Inr () \<longleftrightarrow> (\<forall>r\<in>set rs. policy_check (rt r) policy = Inr ())"
  by (induction rs) (auto simp: res_bind_Inr_iff)

lemma check_all_Inl: "check_all rt policy rs = Inl e \<Longrightarrow> \<exists>r\<in>set rs. policy_check (rt r) policy = Inl e"
  by (induction rs) (auto simp: res_bind_Inl_iff)

lemma bind_all_notin: "r \<notin> set rs \<Longrightarrow> bind_all rt policy rs r = rt r"
  by (induction rs arbitrary: rt) auto

lemma bind_all_distinct:
  "distinct rs \<Longrightarrow> bind_all rt policy rs r = (if r \<in> set rs then policy_bind (rt r) policy else rt r)"
  by (induction rs arbitrary: rt) (auto simp: bind_all_notin)

lemma distinct_remdups_adj: "sorted (xs :: 'a :: linorder list) \<Longrightarrow> distinct (remdups_adj xs)"
  by (induction xs rule: remdups_adj.induct) auto

lemma distinct_guards: "distinct (remdups_adj (sort (rs :: nat list)))"
  by (rule distinct_remdups_adj) simp

lemma policy_check_started:
  "s (pol_root policy) = Some b \<Longrightarrow> b_started b \<Longrightarrow> policy_check s policy = Inl AlreadyStarted"
  by (simp add: policy_check_def)

lemma policy_bind_other:
  "policy_check s policy = Inr () \<Longrightarrow> s key = Some b \<Longrightarrow> b_started b \<Longrightarrow> policy_bind s policy key = Some b"
  by (auto simp: policy_bind_def policy_check_def)

lemma started_kept:
  assumes "policy_step rt rt'" "rt r key = Some b" "b_started b"
  shows "rt' r key = Some b"
  using assms
proof (induction rule: policy_step.induct)
  case (configured rt policy routes)
  then show ?case
    by (auto simp: configure_routes_def Let_def bind_all_distinct distinct_guards check_all_Inr policy_bind_other
        split: sum.splits)
next
  case (bound rt policy r')
  then show ?case by (auto simp: bind_runtime_def policy_bind_other split: sum.splits)
next
  case (started rt r' resolved)
  then show ?case by (auto simp: policy_start_def or_default_def split: sum.splits)
qed

lemma started_kept_rtranclp:
  assumes "policy_step\<^sup>*\<^sup>* rt rt'" "rt r key = Some b" "b_started b"
  shows "rt' r key = Some b"
  using assms by (induction rule: rtranclp_induct) (auto dest: started_kept)

section \<open>Properties\<close>

text \<open>Binding a policy to a list of routes is all or nothing. When it fails, no runtime has changed
  and some listed runtime refuses the policy with that error; when it succeeds, every listed runtime
  governs the root by exactly this handle, no generation had started there, and nothing else has changed:
  neither other roots of the listed runtimes nor any other runtime. A runtime listed several times is
  bound once.\<close>

theorem configure_routes_atomic:
  "case configure_routes rt policy routes of
     (rt', Inl e) \<Rightarrow> rt' = rt \<and> (\<exists>r\<in>set routes. policy_check (rt r) policy = Inl e)
   | (rt', Inr _) \<Rightarrow>
       (\<forall>r. r \<notin> set routes \<longrightarrow> rt' r = rt r)
       \<and> (\<forall>r\<in>set routes. rt' r (pol_root policy) = Some \<lparr>b_policy = Some policy, b_started = False\<rparr>
            \<and> (\<forall>key. key \<noteq> pol_root policy \<longrightarrow> rt' r key = rt r key))"
proof (cases "check_all rt policy (remdups_adj (sort routes))")
  case (Inl e)
  with check_all_Inl [OF Inl] show ?thesis by (simp add: configure_routes_def)
next
  case (Inr u)
  then have ok: "\<forall>r\<in>set routes. policy_check (rt r) policy = Inr ()"
    using check_all_Inr [of rt policy "remdups_adj (sort routes)"] by simp
  have "policy_bind (rt r) policy (pol_root policy) = Some \<lparr>b_policy = Some policy, b_started = False\<rparr>"
    if "policy_check (rt r) policy = Inr ()" for r
    using that
    by (auto simp: policy_check_def policy_bind_def or_default_def binding_default_def
        split: option.splits if_splits)
  with Inr ok show ?thesis
    by (simp add: configure_routes_def bind_all_distinct distinct_guards) (simp add: policy_bind_def)
qed

definition demo_policy :: route_policy where
  "demo_policy = \<lparr>pol_id = 1, pol_root = [''srv'']\<rparr>"

theorem configure_routes_atomic_witness:
  "fst (configure_routes (\<lambda>_. Map.empty) demo_policy [3, 1, 3]) 5 = Map.empty
   \<and> fst (configure_routes (\<lambda>_. Map.empty) demo_policy [3, 1, 3]) 3 [''srv'']
       = Some \<lparr>b_policy = Some demo_policy, b_started = False\<rparr>"
proof -
  have ok: "snd (configure_routes (\<lambda>_. Map.empty) demo_policy [3, 1, 3]) = Inr ()"
    by (simp add: configure_routes_def policy_check_def demo_policy_def)
  have root: "pol_root demo_policy = [''srv'']" by (simp add: demo_policy_def)
  from configure_routes_atomic [where rt = "\<lambda>_. Map.empty" and policy = demo_policy and routes = "[3, 1, 3]"] ok
  show ?thesis unfolding root split_def by auto
qed

text \<open>The policy of a root is fixed once generation into it has started. Whatever sequence of
  bindings and starts follows on whatever runtimes, starting the root again on that runtime returns the
  policy the first start returned.\<close>

theorem started_policy_fixed:
  assumes "policy_start (rt r) (Inr key) = (s, p)" and "policy_step\<^sup>*\<^sup>* (rt(r := s)) rt'"
  shows "snd (policy_start (rt' r) (Inr key)) = p"
proof -
  from assms(1) have "s key = Some ((or_default (rt r) key)\<lparr>b_started := True\<rparr>)"
    and p: "p = b_policy (or_default (rt r) key)"
    by (auto simp: policy_start_def)
  then have "(rt(r := s)) r key = Some ((or_default (rt r) key)\<lparr>b_started := True\<rparr>)" by simp
  from started_kept_rtranclp [OF assms(2) this] p show ?thesis
    by (simp add: policy_start_def or_default_def)
qed

theorem started_policy_fixed_witness:
  "snd (policy_start ((fst (configure_routes
      ((\<lambda>_. Map.empty)(5 := fst (policy_start Map.empty (Inr [''srv''])))) demo_policy [5])) 5) (Inr [''srv''])) = None"
proof -
  let ?s = "fst (policy_start Map.empty (Inr [''srv'']))"
  have "policy_step\<^sup>*\<^sup>* ((\<lambda>_. Map.empty)(5 := ?s))
      (fst (configure_routes ((\<lambda>_. Map.empty)(5 := ?s)) demo_policy [5]))"
    by (rule r_into_rtranclp) (rule policy_step.configured)
  from started_policy_fixed [OF _ this, of "[''srv'']" None] show ?thesis
    by (simp add: policy_start_def or_default_def binding_default_def)
qed

end
