(* ===== verification/Qvalue.thy ===== *)
theory Qvalue
  imports Prelude Complex_Main
begin

text \<open>
  Quality values of \<open>Accept\<close> and \<open>Accept-Encoding\<close> (\<open>parse_qvalue\<close> of \<^verbatim>\<open>src/config.rs\<close>), with
  the single-precision parse they rest on: \<open>str::parse::<f32>\<close> reads a decimal number, an infinity or
  not-a-number, and rounds to the nearest representable value, ties to even. Finite values are rationals;
  the sign of a zero makes no difference to the comparisons the code makes.
\<close>

section \<open>Single-precision numbers\<close>

datatype f32 = Fin rat | Infinite bool | NaN

text \<open>The exponent of the unit in the last place: \<open>2^e \<le> x < 2^(e+1)\<close> for normal numbers, and the
  subnormal range below.\<close>

definition f32_exponent :: "rat \<Rightarrow> int" where
  "f32_exponent x = (case find (\<lambda>e. (2 :: rat) powi e \<le> x) (rev [- 126..127]) of Some e \<Rightarrow> e | None \<Rightarrow> - 126)"

definition round_half_even :: "rat \<Rightarrow> int" where
  "round_half_even x =
     (let n = \<lfloor>x\<rfloor>; r = x - of_int n
      in if r < 1 / 2 then n else if 1 / 2 < r then n + 1 else if even n then n else n + 1)"

definition round_f32 :: "rat \<Rightarrow> rat" where
  "round_f32 x =
     (let ulp = (2 :: rat) powi (f32_exponent \<bar>x\<bar> - 23)
      in sgn x * of_int (round_half_even (\<bar>x\<bar> / ulp)) * ulp)"

section \<open>Parsing\<close>

definition strip_sign :: "string \<Rightarrow> bool \<times> string" where
  "strip_sign s =
     (case s of [] \<Rightarrow> (False, [])
      | c # cs \<Rightarrow> if c = CHR ''-'' then (True, cs) else if c = CHR ''+'' then (False, cs) else (False, s))"

definition parse_exponent :: "string \<Rightarrow> int option" where
  "parse_exponent s =
     (case s of
        [] \<Rightarrow> Some 0
      | c # cs \<Rightarrow>
          if to_ascii_lowercase c = CHR ''e'' then
            (case strip_sign cs of (neg, ds) \<Rightarrow>
               if ds \<noteq> [] \<and> list_all is_ascii_digit ds
               then Some ((if neg then - 1 else 1) * int (digits_val ds)) else None)
          else None)"

text \<open>The digits before the point, the optional point with the digits after it, the optional exponent.\<close>

definition parse_decimal :: "string \<Rightarrow> rat option" where
  "parse_decimal s =
     (let ip = takeWhile is_ascii_digit s; r1 = dropWhile is_ascii_digit s;
          (fp, r2) = (case r1 of c # cs \<Rightarrow> if c = CHR ''.'' then (takeWhile is_ascii_digit cs, dropWhile is_ascii_digit cs)
                                    else ([], r1) | [] \<Rightarrow> ([], []))
      in if ip = [] \<and> fp = [] then None
         else map_option (\<lambda>e. of_nat (digits_val (ip @ fp)) * (10 :: rat) powi (e - int (length fp))) (parse_exponent r2))"

definition parse_f32 :: "string \<Rightarrow> f32 option" where
  "parse_f32 s =
     (case strip_sign s of (neg, body) \<Rightarrow>
        if map to_ascii_lowercase body \<in> {''inf'', ''infinity''} then Some (Infinite neg)
        else if map to_ascii_lowercase body = ''nan'' then Some NaN
        else map_option (\<lambda>x. Fin (round_f32 (if neg then - x else x))) (parse_decimal body))"

definition parse_qvalue :: "string \<Rightarrow> rat option" where
  "parse_qvalue s =
     (case parse_f32 (str_trim s) of
        Some (Fin q) \<Rightarrow> if 0 \<le> q \<and> q \<le> 1 then Some q else None
      | _ \<Rightarrow> None)"

lemma parse_qvalue_range: "parse_qvalue s = Some q \<Longrightarrow> 0 \<le> q \<and> q \<le> 1"
  by (auto simp: parse_qvalue_def split: option.splits f32.splits if_splits)

end
