(* ===== verification/Response.thy ===== *)
theory Response
  imports Qvalue
begin

text \<open>
  Response headers and overrides (\<^verbatim>\<open>src/response.rs\<close>): how application headers captured in
  \<open>ResponseOptions\<close> join the framework's response, the default content type, the \<open>Accept\<close> test for HTML
  and \<open>redirect\<close>.

  The header map of the library is an argument: a record of its operations. What the code relies on is the
  predicate \<open>header_laws\<close>: the values of a name after an insertion, an append and a removal, and that the
  keys are the names with a value, each once. Header names are lower-case strings.
\<close>

section \<open>Header maps\<close>

record ('hm, 'hv) header_ops =
  h_empty :: 'hm
  h_keys :: "'hm \<Rightarrow> string list"
  h_get_all :: "'hm \<Rightarrow> string \<Rightarrow> 'hv list"
  h_insert :: "'hm \<Rightarrow> string \<Rightarrow> 'hv \<Rightarrow> 'hm"
  h_append :: "'hm \<Rightarrow> string \<Rightarrow> 'hv \<Rightarrow> 'hm"
  h_remove :: "'hm \<Rightarrow> string \<Rightarrow> 'hm"

definition header_laws :: "('hm, 'hv) header_ops \<Rightarrow> bool" where
  "header_laws h \<longleftrightarrow>
     (\<forall>k. h_get_all h (h_empty h) k = [])
     \<and> (\<forall>m k v k'. h_get_all h (h_insert h m k v) k' = (if k' = k then [v] else h_get_all h m k'))
     \<and> (\<forall>m k v k'. h_get_all h (h_append h m k v) k' = h_get_all h m k' @ (if k' = k then [v] else []))
     \<and> (\<forall>m k k'. h_get_all h (h_remove h m k) k' = (if k' = k then [] else h_get_all h m k'))
     \<and> (\<forall>m. distinct (h_keys h m) \<and> (\<forall>k. k \<in> set (h_keys h m) \<longleftrightarrow> h_get_all h m k \<noteq> []))"

text \<open>\<open>get\<close> yields the first value of a name.\<close>

definition h_get :: "('hm, 'hv) header_ops \<Rightarrow> 'hm \<Rightarrow> string \<Rightarrow> 'hv option" where
  "h_get h m k = (case h_get_all h m k of [] \<Rightarrow> None | v # _ \<Rightarrow> Some v)"

section \<open>Merging\<close>

definition REPRESENTATION_HEADERS :: "string list" where
  "REPRESENTATION_HEADERS = [''content-length'', ''content-type'', ''content-encoding'', ''content-range'',
     ''transfer-encoding'', ''accept-ranges'', ''etag'', ''last-modified'', ''content-digest'', ''digest'']"

definition FAILED_REPRESENTATION_HEADERS :: "string list" where
  "FAILED_REPRESENTATION_HEADERS =
     [''content-language'', ''content-location'', ''repr-digest'', ''sec-websocket-version'']"

datatype header_merge = ReplaceOne | ReplaceList | Append

definition merge_of :: "string \<Rightarrow> header_merge" where
  "merge_of key =
     (if key \<in> set REPRESENTATION_HEADERS \<or> key \<in> set FAILED_REPRESENTATION_HEADERS
      then if key \<in> {''content-encoding'', ''transfer-encoding'', ''accept-ranges'', ''content-language''}
           then ReplaceList else ReplaceOne
      else if key \<in> {''location'', ''expires'', ''content-disposition'', ''retry-after'', ''age'', ''date'', ''server'',
             ''strict-transport-security'', ''x-frame-options'', ''x-content-type-options'', ''referrer-policy''}
      then ReplaceOne
      else if key = ''cache-control'' then ReplaceList
      else Append)"

text \<open>Classes of status codes.\<close>

definition is_redirection :: "nat \<Rightarrow> bool" where
  "is_redirection s \<longleftrightarrow> 300 \<le> s \<and> s < 400"

definition is_success :: "nat \<Rightarrow> bool" where
  "is_success s \<longleftrightarrow> 200 \<le> s \<and> s < 300"

record 'hm response_parts =
  rp_status :: "nat option"
  rp_headers :: 'hm

record ('hm, 'b) http_response =
  rs_status :: nat
  rs_headers :: 'hm
  rs_body :: 'b

definition parts_default :: "('hm, 'hv) header_ops \<Rightarrow> 'hm response_parts" where
  "parts_default h = \<lparr>rp_status = None, rp_headers = h_empty h\<rparr>"

definition append_all :: "('hm, 'hv) header_ops \<Rightarrow> string \<Rightarrow> 'hv list \<Rightarrow> 'hm \<Rightarrow> 'hm" where
  "append_all h key values m = foldl (\<lambda>m v. h_append h m key v) m values"

definition merge_key :: "('hm, 'hv) header_ops \<Rightarrow> 'hm \<Rightarrow> 'hm \<Rightarrow> string \<Rightarrow> 'hm" where
  "merge_key h from m key =
     (case merge_of key of
        ReplaceOne \<Rightarrow> if h_get_all h from key = [] then m else h_insert h m key (last (h_get_all h from key))
      | ReplaceList \<Rightarrow> append_all h key (h_get_all h from key) (h_remove h m key)
      | Append \<Rightarrow> append_all h key (h_get_all h from key) m)"

definition extend_response_parts ::
  "('hm, 'hv) header_ops \<Rightarrow> ('hm, 'b) http_response \<Rightarrow> 'hm response_parts \<Rightarrow> ('hm, 'b) http_response" where
  "extend_response_parts h res parts =
     (let res1 = res\<lparr>rs_headers := foldl (merge_key h (rp_headers parts)) (rs_headers res) (h_keys h (rp_headers parts))\<rparr>
      in case rp_status parts of Some s \<Rightarrow> res1\<lparr>rs_status := s\<rparr> | None \<Rightarrow> res1)"

text \<open>\<open>extend_response\<close> takes the overrides out of the shared options, which are empty afterwards.\<close>

definition extend_response ::
  "('hm, 'hv) header_ops \<Rightarrow> ('hm, 'b) http_response \<Rightarrow> 'hm response_parts \<Rightarrow>
   ('hm, 'b) http_response \<times> 'hm response_parts" where
  "extend_response h res options = (extend_response_parts h res options, parts_default h)"

definition set_default_content_type ::
  "('hm, 'hv) header_ops \<Rightarrow> (string \<Rightarrow> 'hv option) \<Rightarrow> ('hm, 'b) http_response \<Rightarrow> string \<Rightarrow> ('hm, 'b) http_response" where
  "set_default_content_type h hv_from_str res content_type =
     (if h_get_all h (rs_headers res) ''content-type'' \<noteq> [] then res
      else case hv_from_str content_type of
             Some v \<Rightarrow> res\<lparr>rs_headers := h_insert h (rs_headers res) ''content-type'' v\<rparr>
           | None \<Rightarrow> res)"

text \<open>\<open>finalize_error_response\<close> of the dispatcher: an adapter error keeps its own status and its own
  representation.\<close>

definition finalize_error_response ::
  "('hm, 'hv) header_ops \<Rightarrow> ('hm, 'b) http_response \<Rightarrow> 'hm response_parts \<Rightarrow>
   ('hm, 'b) http_response \<times> 'hm response_parts" where
  "finalize_error_response h response options =
     (let headers = foldl (h_remove h) (rp_headers options) (REPRESENTATION_HEADERS @ FAILED_REPRESENTATION_HEADERS)
      in (extend_response_parts h response \<lparr>rp_status = None, rp_headers = headers\<rparr>, parts_default h))"

section \<open>Options\<close>

definition options_overwrite :: "'hm response_parts \<Rightarrow> 'hm response_parts \<Rightarrow> 'hm response_parts" where
  "options_overwrite options parts = parts"

definition set_status :: "'hm response_parts \<Rightarrow> nat \<Rightarrow> 'hm response_parts" where
  "set_status options s = options\<lparr>rp_status := Some s\<rparr>"

definition insert_header ::
  "('hm, 'hv) header_ops \<Rightarrow> 'hm response_parts \<Rightarrow> string \<Rightarrow> 'hv \<Rightarrow> 'hm response_parts" where
  "insert_header h options key v = options\<lparr>rp_headers := h_insert h (rp_headers options) key v\<rparr>"

definition append_header ::
  "('hm, 'hv) header_ops \<Rightarrow> 'hm response_parts \<Rightarrow> string \<Rightarrow> 'hv \<Rightarrow> 'hm response_parts" where
  "append_header h options key v = options\<lparr>rp_headers := h_append h (rp_headers options) key v\<rparr>"

section \<open>The HTML test and redirects\<close>

text \<open>What the code uses of a parsed media range.\<close>

record media =
  m_type :: string
  m_subtype :: string
  m_param :: "string \<Rightarrow> string option"

definition accept_header_includes_html :: "(string \<Rightarrow> media option) \<Rightarrow> string \<Rightarrow> bool" where
  "accept_header_includes_html parse_mime accept =
     list_ex (\<lambda>range.
       case parse_mime (str_trim range) of
         None \<Rightarrow> False
       | Some media \<Rightarrow>
           if m_type media \<noteq> ''text'' \<or> m_subtype media \<noteq> ''html'' then False
           else (case m_param media ''q'' of
                   Some q \<Rightarrow> (case parse_qvalue q of Some w \<Rightarrow> 0 < w | None \<Rightarrow> True)
                 | None \<Rightarrow> True))
       (split_on (CHR '','') accept)"

definition accepts_html ::
  "('hv \<Rightarrow> string option) \<Rightarrow> (string \<Rightarrow> media option) \<Rightarrow> 'hv option \<Rightarrow> bool" where
  "accepts_html to_str parse_mime accept =
     (case Option.bind accept to_str of Some a \<Rightarrow> accept_header_includes_html parse_mime a | None \<Rightarrow> False)"

definition FOUND :: nat where "FOUND = 302"

text \<open>\<open>redirect\<close>: the context holds the request (whose \<open>Accept\<close> value may be out of reach) and the options
  when it is called inside a handler; the result is the options afterwards. \<open>redirect_header\<close> is the client-side
  navigation header of the server-function library and \<open>hv_static\<close> a header value from a literal.\<close>

definition redirect ::
  "('hm, 'hv) header_ops \<Rightarrow> (string \<Rightarrow> 'hv option) \<Rightarrow> (string \<Rightarrow> 'hv) \<Rightarrow> string \<Rightarrow> ('hv \<Rightarrow> string option) \<Rightarrow>
   (string \<Rightarrow> media option) \<Rightarrow> ('err + 'hv option) option \<Rightarrow> 'hm response_parts option \<Rightarrow> string \<Rightarrow>
   'hm response_parts option" where
  "redirect h hv_from_str hv_static redirect_header to_str parse_mime req options path =
     (case (req, options) of
        (Some access, Some res) \<Rightarrow>
          (case hv_from_str path of
             None \<Rightarrow> Some res
           | Some location \<Rightarrow>
               (case access of
                  Inl _ \<Rightarrow> Some res
                | Inr accept \<Rightarrow>
                    let res1 = insert_header h res ''location'' location
                    in if accepts_html to_str parse_mime accept then Some (set_status res1 FOUND)
                       else Some (insert_header h res1 redirect_header (hv_static []))))
      | _ \<Rightarrow> options)"

section \<open>Lemmas\<close>

lemma header_lawsD:
  assumes "header_laws h"
  shows "h_get_all h (h_empty h) k = []"
    and "h_get_all h (h_insert h m k v) k' = (if k' = k then [v] else h_get_all h m k')"
    and "h_get_all h (h_append h m k v) k' = h_get_all h m k' @ (if k' = k then [v] else [])"
    and "h_get_all h (h_remove h m k) k' = (if k' = k then [] else h_get_all h m k')"
    and "distinct (h_keys h m)" and "k \<in> set (h_keys h m) \<longleftrightarrow> h_get_all h m k \<noteq> []"
  using assms by (simp_all add: header_laws_def)

lemma append_all_get:
  "header_laws h \<Longrightarrow> h_get_all h (append_all h key vs m) k = h_get_all h m k @ (if k = key then vs else [])"
  unfolding append_all_def by (induction vs arbitrary: m) (simp_all add: header_lawsD)

definition merged :: "string \<Rightarrow> 'hv list \<Rightarrow> 'hv list \<Rightarrow> 'hv list" where
  "merged key old new =
     (if new = [] then old
      else case merge_of key of ReplaceOne \<Rightarrow> [last new] | ReplaceList \<Rightarrow> new | Append \<Rightarrow> old @ new)"

lemma merge_key_get:
  assumes "header_laws h" "h_get_all h from key \<noteq> []"
  shows "h_get_all h (merge_key h from m key) k =
     (if k = key then merged key (h_get_all h m key) (h_get_all h from key) else h_get_all h m k)"
  using assms
  by (auto simp: merge_key_def merged_def append_all_get header_lawsD split: header_merge.splits)

lemma merge_keys_get:
  assumes "header_laws h" "distinct keys" "\<forall>k\<in>set keys. h_get_all h from k \<noteq> []"
  shows "h_get_all h (foldl (merge_key h from) m keys) k =
     (if k \<in> set keys then merged k (h_get_all h m k) (h_get_all h from k) else h_get_all h m k)"
  using assms(2,3)
proof (induction keys arbitrary: m)
  case (Cons key keys)
  with merge_key_get [OF assms(1), of "from" key] show ?case by auto
qed simp

lemma extend_get:
  assumes "header_laws h"
  shows "h_get_all h (rs_headers (extend_response_parts h res parts)) k =
     merged k (h_get_all h (rs_headers res) k) (h_get_all h (rp_headers parts) k)"
proof -
  have "h_get_all h (rs_headers (extend_response_parts h res parts)) k =
      h_get_all h (foldl (merge_key h (rp_headers parts)) (rs_headers res) (h_keys h (rp_headers parts))) k"
    by (simp add: extend_response_parts_def Let_def split: option.splits)
  with merge_keys_get [OF assms, of "h_keys h (rp_headers parts)" "rp_headers parts" "rs_headers res" k]
    header_lawsD(5,6) [OF assms]
  show ?thesis by (auto simp: merged_def)
qed

lemma remove_keys_get:
  "header_laws h \<Longrightarrow> h_get_all h (foldl (h_remove h) m keys) k = (if k \<in> set keys then [] else h_get_all h m k)"
  by (induction keys arbitrary: m) (auto simp: header_lawsD)

text \<open>A header map kept as a list of pairs in insertion order.\<close>

definition list_headers :: "((string \<times> string) list, string) header_ops" where
  "list_headers = \<lparr>h_empty = [], h_keys = (\<lambda>m. remdups (map fst m)),
     h_get_all = (\<lambda>m k. map snd (filter (\<lambda>(n, _). n = k) m)),
     h_insert = (\<lambda>m k v. filter (\<lambda>(n, _). n \<noteq> k) m @ [(k, v)]),
     h_append = (\<lambda>m k v. m @ [(k, v)]), h_remove = (\<lambda>m k. filter (\<lambda>(n, _). n \<noteq> k) m)\<rparr>"

lemma list_headers_laws: "header_laws list_headers"
proof -
  have f: "filter (\<lambda>x. fst x = k' \<and> fst x \<noteq> k) m = (if k' = k then [] else filter (\<lambda>x. fst x = k') m)" for m k k'
    by (induction m) auto
  show ?thesis
    by (auto simp: header_laws_def list_headers_def split_def f filter_empty_conv image_iff conj_commute)
qed

section \<open>Properties\<close>

text \<open>How application headers join the response. For a header map that behaves as documented, after
  the captured overrides are applied, every name without an application value keeps the framework's
  values; a single-valued field carries only the last application value; a list field describing the
  representation carries exactly the application's values; every other field, including cookies and
  unknown names, carries the framework's values followed by all application values. The status is the
  application's when it set one, and the options are left empty.\<close>

theorem extend_response_merges:
  assumes "header_laws h"
  shows "case extend_response h res options of (res', options') \<Rightarrow>
     h_get_all h (rs_headers res') k =
       (let old = h_get_all h (rs_headers res) k; new = h_get_all h (rp_headers options) k
        in if new = [] then old
           else case merge_of k of ReplaceOne \<Rightarrow> [last new] | ReplaceList \<Rightarrow> new | Append \<Rightarrow> old @ new)
     \<and> rs_status res' = (case rp_status options of Some s \<Rightarrow> s | None \<Rightarrow> rs_status res)
     \<and> rs_body res' = rs_body res
     \<and> rp_status options' = None \<and> h_get_all h (rp_headers options') k = []"
  using extend_get [OF assms, of res options k] header_lawsD(1) [OF assms]
  by (simp add: extend_response_def merged_def parts_default_def Let_def)
    (simp add: extend_response_parts_def Let_def split: option.splits)

theorem extend_response_merges_witness:
  "h_get_all list_headers (rs_headers (fst (extend_response list_headers
      \<lparr>rs_status = 200, rs_headers = [(''set-cookie'', ''a'')], rs_body = ()\<rparr>
      \<lparr>rp_status = Some 404, rp_headers = [(''set-cookie'', ''b''), (''set-cookie'', ''c'')]\<rparr>))) ''set-cookie''
   = [''a'', ''b'', ''c'']"
  using extend_response_merges [OF list_headers_laws,
      where res = "\<lparr>rs_status = 200, rs_headers = [(''set-cookie'', ''a'')], rs_body = ()\<rparr>"
        and options = "\<lparr>rp_status = Some 404, rp_headers = [(''set-cookie'', ''b''), (''set-cookie'', ''c'')]\<rparr>"
        and k = "''set-cookie''"]
  by (simp add: extend_response_def)
    (simp add: list_headers_def merge_of_def REPRESENTATION_HEADERS_def FAILED_REPRESENTATION_HEADERS_def)

text \<open>An adapter error keeps its own status and representation. When a payload or handshake error
  replaces the intended response, its status stays, every field that describes a representation or the
  handshake version is the adapter's own whatever the application captured, and all other captured
  headers survive.\<close>

theorem finalize_error_keeps_representation:
  assumes "header_laws h"
  shows "rs_status (fst (finalize_error_response h response options)) = rs_status response
     \<and> h_get_all h (rs_headers (fst (finalize_error_response h response options))) k =
         (if k \<in> set REPRESENTATION_HEADERS \<or> k \<in> set FAILED_REPRESENTATION_HEADERS
          then h_get_all h (rs_headers response) k
          else merged k (h_get_all h (rs_headers response) k) (h_get_all h (rp_headers options) k))"
proof -
  have "rs_status (fst (finalize_error_response h response options)) = rs_status response"
    by (simp add: finalize_error_response_def extend_response_parts_def Let_def)
  then show ?thesis
    by (simp add: finalize_error_response_def Let_def extend_get [OF assms] remove_keys_get [OF assms]
        merged_def del: foldl_append)
qed

theorem finalize_error_keeps_representation_witness:
  "rs_status (fst (finalize_error_response list_headers
      \<lparr>rs_status = 413, rs_headers = [(''content-type'', ''text/plain'')], rs_body = ()\<rparr>
      \<lparr>rp_status = Some 200, rp_headers = [(''content-type'', ''text/html'')]\<rparr>)) = 413"
  using finalize_error_keeps_representation [OF list_headers_laws,
      of "\<lparr>rs_status = 413, rs_headers = [(''content-type'', ''text/plain'')], rs_body = ()\<rparr>"
        "\<lparr>rp_status = Some 200, rp_headers = [(''content-type'', ''text/html'')]\<rparr>" "''content-type''"]
  by simp

text \<open>A redirect either takes full effect or none. Called outside a handler, with a target that is not a
  legal header value, or when the request is out of reach, it changes nothing; otherwise the options carry
  exactly the target as location, and either status 302 for a client that accepts HTML or the client-side
  redirect header, with every other header untouched.\<close>

theorem redirect_all_or_nothing:
  assumes "header_laws h" and "redirect_header \<noteq> ''location''"
  shows "case redirect h hv_from_str hv_static redirect_header to_str parse_mime req (Some res) path of
      None \<Rightarrow> False
    | Some res' \<Rightarrow>
        (case (req, hv_from_str path) of
           (Some (Inr accept), Some location) \<Rightarrow>
             h_get_all h (rp_headers res') ''location'' = [location]
             \<and> (if accepts_html to_str parse_mime accept
                then rp_status res' = Some 302
                  \<and> (\<forall>k. k \<noteq> ''location'' \<longrightarrow> h_get_all h (rp_headers res') k = h_get_all h (rp_headers res) k)
                else rp_status res' = rp_status res \<and> h_get_all h (rp_headers res') redirect_header = [hv_static []]
                  \<and> (\<forall>k. k \<noteq> ''location'' \<longrightarrow> k \<noteq> redirect_header \<longrightarrow>
                        h_get_all h (rp_headers res') k = h_get_all h (rp_headers res) k))
         | _ \<Rightarrow> res' = res)"
  using assms(2)
  by (auto simp: redirect_def insert_header_def set_status_def FOUND_def header_lawsD [OF assms(1)] Let_def
      split: option.splits sum.splits)

theorem redirect_all_or_nothing_witness:
  "\<exists>res'. redirect list_headers Some (\<lambda>s. s) ''serverfnredirect'' Some (\<lambda>_. None) (Some (Inr None :: unit + string option))
      (Some (parts_default list_headers)) ''/home'' = Some res'
    \<and> h_get_all list_headers (rp_headers res') ''location'' = [''/home'']"
  using redirect_all_or_nothing [OF list_headers_laws, where redirect_header = "''serverfnredirect''"
      and hv_from_str = Some and hv_static = "\<lambda>s. s" and to_str = Some and parse_mime = "\<lambda>_. None"
      and req = "Some (Inr None :: unit + string option)" and res = "parts_default list_headers" and path = "''/home''"]
  by (auto simp: accepts_html_def split: option.splits)

end
