(* ===== verification/Registry.thy ===== *)
theory Registry
  imports Prelude
begin

text \<open>
  The server-function registry (\<^verbatim>\<open>src/server_fn/registry.rs\<close>): a map from paths to the methods
  registered there with their functions. A registered function is third-party; what the registry and the
  dispatcher use of it is its path, its method, its boxed service and its middleware layers.

  The abstract registry is a map from \<open>(path, method)\<close> to the function, with the last registration
  winning. The lemmas show that the path-indexed representation implements it.
\<close>

type_synonym 'f registry = "string \<Rightarrow> (string \<times> 'f) list option"

section \<open>Operations\<close>

fun upsert :: "(string \<times> 'f) list \<Rightarrow> string \<Rightarrow> 'f \<Rightarrow> (string \<times> 'f) list" where
  "upsert [] method obj = [(method, obj)]"
| "upsert ((m, f) # es) method obj = (if m = method then (m, obj) # es else (m, f) # upsert es method obj)"

definition entry_of :: "'f registry \<Rightarrow> string \<Rightarrow> (string \<times> 'f) list" where
  "entry_of reg path = (case reg path of Some es \<Rightarrow> es | None \<Rightarrow> [])"

text \<open>\<open>register_explicit\<close>: one registration.\<close>

definition register :: "'f registry \<Rightarrow> string \<Rightarrow> string \<Rightarrow> 'f \<Rightarrow> 'f registry" where
  "register reg path method obj = reg(path \<mapsto> upsert (entry_of reg path) method obj)"

text \<open>The initial registry: every inventory entry is registered in turn.\<close>

fun register_all :: "('f \<Rightarrow> string) \<Rightarrow> ('f \<Rightarrow> string) \<Rightarrow> 'f registry \<Rightarrow> 'f list \<Rightarrow> 'f registry" where
  "register_all path method reg [] = reg"
| "register_all path method reg (obj # objs) =
     register_all path method (register reg (path obj) (method obj) obj) objs"

definition inventory_registry :: "('f \<Rightarrow> string) \<Rightarrow> ('f \<Rightarrow> string) \<Rightarrow> 'f list \<Rightarrow> 'f registry" where
  "inventory_registry path method objs = register_all path method (\<lambda>_. None) objs"

definition lookup_server_fn :: "'f registry \<Rightarrow> string \<Rightarrow> string \<Rightarrow> 'f option" where
  "lookup_server_fn reg path method =
     (case reg path of
        None \<Rightarrow> None
      | Some es \<Rightarrow> map_option snd (find (\<lambda>(m, _). m = method) es))"

fun collect_methods :: "string list \<Rightarrow> (string \<times> 'f) list \<Rightarrow> string list" where
  "collect_methods ms [] = ms"
| "collect_methods ms ((m, _) # es) = collect_methods (if m \<in> set ms then ms else ms @ [m]) es"

definition server_fn_methods :: "'f registry \<Rightarrow> string \<Rightarrow> string list" where
  "server_fn_methods reg path = (case reg path of Some es \<Rightarrow> collect_methods [] es | None \<Rightarrow> [])"

text \<open>\<open>server_fn_paths\<close>, for the order \<open>keys\<close> in which the map yields its paths.\<close>

definition server_fn_paths :: "string list \<Rightarrow> 'f registry \<Rightarrow> (string \<times> string) list" where
  "server_fn_paths keys reg = concat (map (\<lambda>path. map (\<lambda>(m, _). (path, m)) (entry_of reg path)) keys)"

text \<open>\<open>get_server_fn_service\<close>: the function's service wrapped in its layers, the first one innermost.\<close>

definition get_server_fn_service ::
  "('f \<Rightarrow> 'svc) \<Rightarrow> ('f \<Rightarrow> ('svc \<Rightarrow> 'svc) list) \<Rightarrow> 'f registry \<Rightarrow> string \<Rightarrow> string \<Rightarrow> 'svc option" where
  "get_server_fn_service boxed middleware reg path method =
     map_option (\<lambda>f. foldl (\<lambda>svc layer. layer svc) (boxed f) (middleware f)) (lookup_server_fn reg path method)"

section \<open>Refinement to a map\<close>

text \<open>The contract of a registry indexed by path and method: looking up yields the last registration, and
  the listing names each registered pair once.\<close>

locale method_map =
  fixes lookup :: "'r \<Rightarrow> string \<Rightarrow> string \<Rightarrow> 'f option"
    and insert_fn :: "'r \<Rightarrow> string \<Rightarrow> string \<Rightarrow> 'f \<Rightarrow> 'r"
    and methods :: "'r \<Rightarrow> string \<Rightarrow> string list"
    and valid :: "'r \<Rightarrow> bool"
  assumes insert_valid: "valid r \<Longrightarrow> valid (insert_fn r p m f)"
    and lookup_insert: "valid r \<Longrightarrow>
        lookup (insert_fn r p m f) p' m' = (if p' = p \<and> m' = m then Some f else lookup r p' m')"
    and methods_lookup: "valid r \<Longrightarrow> m \<in> set (methods r p) \<longleftrightarrow> lookup r p m \<noteq> None"
    and methods_distinct: "valid r \<Longrightarrow> distinct (methods r p)"
begin

lemma fold_valid: "valid r \<Longrightarrow> valid (foldl (\<lambda>r (p, m, f). insert_fn r p m f) r regs)"
  by (induction regs arbitrary: r) (auto simp: insert_valid)

text \<open>After any sequence of registrations the last one for a pair wins.\<close>

lemma fold_lookup:
  "valid r \<Longrightarrow> lookup (foldl (\<lambda>r (p, m, f). insert_fn r p m f) r regs) path meth =
     (case map_of (map (\<lambda>(p, m, f). ((p, m), f)) (rev regs)) (path, meth) of
        Some f \<Rightarrow> Some f | None \<Rightarrow> lookup r path meth)"
proof (induction regs arbitrary: r)
  case (Cons x regs)
  obtain p m f where x: "x = (p, m, f)" by (cases x)
  show ?case
    using Cons.IH [OF insert_valid [OF Cons.prems, of p m f]] lookup_insert [OF Cons.prems, of p m f path meth] x
    by (auto simp: map_add_def split: option.splits)
qed simp

end

definition registry_ok :: "'f registry \<Rightarrow> bool" where
  "registry_ok reg \<longleftrightarrow> (\<forall>path es. reg path = Some es \<longrightarrow> distinct (map fst es))"

lemma upsert_fst: "set (map fst (upsert es m f)) = insert m (set (map fst es))"
  by (induction es m f rule: upsert.induct) auto

lemma upsert_distinct: "distinct (map fst es) \<Longrightarrow> distinct (map fst (upsert es m f))"
proof (induction es m f rule: upsert.induct)
  case (2 k g es m f)
  with upsert_fst [of es m f] show ?case by auto
qed simp

lemma upsert_find:
  "find (\<lambda>(k, _). k = m') (upsert es m f) =
     (if m' = m then Some (m, f) else find (\<lambda>(k, _). k = m') es)"
  by (induction es m f rule: upsert.induct) auto

lemma find_methods: "find (\<lambda>(k, _). k = m) es \<noteq> None \<longleftrightarrow> m \<in> set (map fst es)"
  by (induction es) auto

lemma collect_methods_props:
  "distinct ms \<Longrightarrow> distinct (collect_methods ms es) \<and> set (collect_methods ms es) = set ms \<union> set (map fst es)"
  by (induction ms es rule: collect_methods.induct) (auto split: if_splits)

interpretation reg: method_map lookup_server_fn register server_fn_methods registry_ok
proof unfold_locales
  fix r :: "'f registry" and p p' m m' :: string and f
  assume v: "registry_ok r"
  have e: "distinct (map fst (entry_of r p))" for p
    using v by (auto simp: registry_ok_def entry_of_def split: option.splits)
  show "registry_ok (register r p m f)"
    using v upsert_distinct [OF e] by (auto simp: registry_ok_def register_def)
  show "lookup_server_fn (register r p m f) p' m' = (if p' = p \<and> m' = m then Some f else lookup_server_fn r p' m')"
    by (auto simp: lookup_server_fn_def register_def upsert_find entry_of_def split: option.splits)
  show "(m \<in> set (server_fn_methods r p)) = (lookup_server_fn r p m \<noteq> None)"
    using collect_methods_props [of "[]" "entry_of r p"] find_methods [of m "entry_of r p"]
    by (auto simp: server_fn_methods_def lookup_server_fn_def entry_of_def split: option.splits)
  show "distinct (server_fn_methods r p)"
    using collect_methods_props [of "[]" "entry_of r p"]
    by (auto simp: server_fn_methods_def entry_of_def split: option.splits)
qed

lemma register_all_fold:
  "register_all path method r objs =
     foldl (\<lambda>r (p, m, f). register r p m f) r (map (\<lambda>obj. (path obj, method obj, obj)) objs)"
  by (induction objs arbitrary: r) auto

lemma registry_ok_empty: "registry_ok (\<lambda>_. None)"
  by (simp add: registry_ok_def)

section \<open>Properties\<close>

text \<open>The registry implements a map keyed by path and method in which the last registration wins. After
  the inventory pass over any list of functions followed by any explicit registrations, a lookup finds
  exactly the last function registered for that path and method; the methods reported for a path are
  exactly those with a function there, each once.\<close>

theorem registry_last_registration_wins:
  "let reg = register_all path method (inventory_registry path method objs) explicit;
       entries = map (\<lambda>obj. ((path obj, method obj), obj)) (rev (objs @ explicit))
   in lookup_server_fn reg p m = map_of entries (p, m)
      \<and> distinct (server_fn_methods reg p)
      \<and> (m \<in> set (server_fn_methods reg p) \<longleftrightarrow> (p, m) \<in> set (map fst entries))"
proof -
  let ?regs = "map (\<lambda>obj. (path obj, method obj, obj)) (objs @ explicit)"
  let ?reg = "register_all path method (inventory_registry path method objs) explicit"
  have r: "?reg = foldl (\<lambda>r (p, m, f). register r p m f) (\<lambda>_. None) ?regs"
    by (simp add: inventory_registry_def register_all_fold)
  have v: "registry_ok ?reg" unfolding r by (rule reg.fold_valid [OF registry_ok_empty])
  have l: "lookup_server_fn ?reg p m = map_of (map (\<lambda>obj. ((path obj, method obj), obj)) (rev (objs @ explicit))) (p, m)"
    unfolding r reg.fold_lookup [OF registry_ok_empty]
    by (auto simp: rev_map comp_def lookup_server_fn_def map_add_def split: option.splits)
  have "m \<in> set (server_fn_methods ?reg p) \<longleftrightarrow>
      (p, m) \<in> set (map fst (map (\<lambda>obj. ((path obj, method obj), obj)) (rev (objs @ explicit))))"
    unfolding reg.methods_lookup [OF v] l by (simp add: map_of_eq_None_iff image_Un image_image del: rev_append)
  with l reg.methods_distinct [OF v] show ?thesis unfolding Let_def by blast
qed

end
