(* ===== verification/Utf8.thy ===== *)
theory Utf8
  imports Prelude
begin

text \<open>
  UTF-8 validation as \<open>std::str::from_utf8\<close> and \<open>String::from_utf8\<close> perform it: the validator reports how
  far the input is valid and, unless the input merely ends too early, how many bytes the invalid sequence
  has.
\<close>

section \<open>The validator\<close>

definition in_range :: "u8 \<Rightarrow> u8 \<Rightarrow> u8 \<Rightarrow> bool" where
  "in_range lo hi b \<longleftrightarrow> lo \<le> b \<and> b \<le> hi"

definition is_cont :: "u8 \<Rightarrow> bool" where
  "is_cont b \<longleftrightarrow> in_range 0x80 0xBF b"

text \<open>The bytes a second position may hold after the first byte of a three- or four-byte sequence.\<close>

definition second_ok :: "u8 \<Rightarrow> u8 \<Rightarrow> bool" where
  "second_ok a b \<longleftrightarrow>
     (if a = 0xE0 then in_range 0xA0 0xBF b
      else if a = 0xED then in_range 0x80 0x9F b
      else if a = 0xF0 then in_range 0x90 0xBF b
      else if a = 0xF4 then in_range 0x80 0x8F b
      else is_cont b)"

text \<open>The width of the first character, or the length of the invalid sequence (\<open>None\<close> at an
  unexpected end).\<close>

fun char_width :: "bytes \<Rightarrow> nat option + nat" where
  "char_width [] = Inl None"
| "char_width (a # r) =
     (if a < 0x80 then Inr 1
      else if in_range 0xC2 0xDF a then
        (case r of [] \<Rightarrow> Inl None | b # _ \<Rightarrow> if is_cont b then Inr 2 else Inl (Some 1))
      else if in_range 0xE0 0xEF a then
        (case r of [] \<Rightarrow> Inl None
         | b # r2 \<Rightarrow> if \<not> second_ok a b then Inl (Some 1)
             else (case r2 of [] \<Rightarrow> Inl None | c # _ \<Rightarrow> if is_cont c then Inr 3 else Inl (Some 2)))
      else if in_range 0xF0 0xF4 a then
        (case r of [] \<Rightarrow> Inl None
         | b # r2 \<Rightarrow> if \<not> second_ok a b then Inl (Some 1)
             else (case r2 of [] \<Rightarrow> Inl None
                   | c # r3 \<Rightarrow> if \<not> is_cont c then Inl (Some 2)
                       else (case r3 of [] \<Rightarrow> Inl None | d # _ \<Rightarrow> if is_cont d then Inr 4 else Inl (Some 3))))
      else Inl (Some 1))"

lemma char_width_pos: "char_width bs = Inr w \<Longrightarrow> 0 < w \<and> w \<le> length bs"
  by (cases bs) (auto split: if_splits list.splits)

text \<open>The error carries \<open>valid_up_to\<close> and \<open>error_len\<close>.\<close>

function from_utf8 :: "nat \<Rightarrow> bytes \<Rightarrow> (nat \<times> nat option) + unit" where
  "from_utf8 i bs =
     (if bs = [] then Inr ()
      else case char_width bs of
             Inl e \<Rightarrow> Inl (i, e)
           | Inr w \<Rightarrow> from_utf8 (i + w) (drop w bs))"
  by pat_completeness auto
termination
proof (relation "measure (\<lambda>(i, bs). length bs)")
  fix i :: nat and bs w
  assume "bs \<noteq> []" "char_width bs = Inr w"
  with char_width_pos [of bs w] show "((i + w, drop w bs), i, bs) \<in> measure (\<lambda>(i, bs). length bs)"
    by auto
qed simp

declare from_utf8.simps [simp del]

definition valid_utf8 :: "bytes \<Rightarrow> bool" where
  "valid_utf8 bs \<longleftrightarrow> from_utf8 0 bs = Inr ()"

text \<open>The message of \<open>Utf8Error\<close>.\<close>

definition utf8_message :: "nat \<times> nat option \<Rightarrow> string" where
  "utf8_message err =
     (case err of
        (i, Some n) \<Rightarrow> ''invalid utf-8 sequence of '' @ show_nat n @ '' bytes from index '' @ show_nat i
      | (i, None) \<Rightarrow> ''incomplete utf-8 byte sequence from index '' @ show_nat i)"

section \<open>Lemmas\<close>

lemma from_utf8_step:
  "bs \<noteq> [] \<Longrightarrow> from_utf8 i bs =
     (case char_width bs of Inl e \<Rightarrow> Inl (i, e) | Inr w \<Rightarrow> from_utf8 (i + w) (drop w bs))"
  by (subst from_utf8.simps) simp

lemma from_utf8_Nil [simp]: "from_utf8 i [] = Inr ()"
  by (subst from_utf8.simps) simp

lemma from_utf8_shift: "from_utf8 i bs = Inr () \<Longrightarrow> from_utf8 j bs = Inr ()"
proof (induction i bs arbitrary: j rule: from_utf8.induct)
  case (1 i bs)
  then show ?case
    by (cases "bs = []") (auto simp: from_utf8_step split: sum.splits)
qed

lemma valid_utf8_Nil [simp]: "valid_utf8 []"
  by (simp add: valid_utf8_def)

lemma valid_utf8_step:
  "bs \<noteq> [] \<Longrightarrow> valid_utf8 bs \<longleftrightarrow> (\<exists>w. char_width bs = Inr w \<and> valid_utf8 (drop w bs))"
  by (auto simp: valid_utf8_def from_utf8_step split: sum.splits intro: from_utf8_shift)

lemma from_utf8_error_bound: "from_utf8 i bs = Inl (j, e) \<Longrightarrow> i \<le> j \<and> j < i + length bs"
proof (induction i bs rule: from_utf8.induct)
  case (1 i bs)
  show ?case
  proof (cases "bs = []")
    case False
    show ?thesis
    proof (cases "char_width bs")
      case (Inr w)
      have "from_utf8 (i + w) (drop w bs) = Inl (j, e)"
        using "1.prems" False Inr by (simp add: from_utf8_step)
      with "1.IH" [OF False Inr] char_width_pos [OF Inr] show ?thesis by simp
    qed (use "1.prems" False in \<open>simp add: from_utf8_step\<close>)
  qed (use "1.prems" in simp)
qed

end
