(* ===== verification/Payload.thy ===== *)
theory Payload
  imports Utf8 Storage_Record
begin

text \<open>
  Request payload limits (\<^verbatim>\<open>src/config.rs\<close>, the body accessors of
  \<^verbatim>\<open>src/server_fn/request.rs\<close> and the draining of an unread body in
  \<^verbatim>\<open>src/server_fn/handlers.rs\<close>).

  A payload is the list of chunks its receiver yields, each a block of bytes or the message of a payload
  error; after the last one it yields nothing. The marker that promotes an overflow to status 413 is a
  boolean of the result. Header values are third-party: \<open>to_str\<close> is an argument.
\<close>

section \<open>Configuration\<close>

definition DEFAULT_PAYLOAD_LIMIT :: nat where
  "DEFAULT_PAYLOAD_LIMIT = 2 * 1024 * 1024"

definition DEFAULT_WS_CHANNEL_BUFFER :: nat where
  "DEFAULT_WS_CHANNEL_BUFFER = 2048"

record server_fn_config =
  payload_limit :: nat
  ws_channel_buffer :: nat
  ws_subprotocol :: "string option"

definition config_new :: server_fn_config where
  "config_new = \<lparr>payload_limit = DEFAULT_PAYLOAD_LIMIT,
     ws_channel_buffer = DEFAULT_WS_CHANNEL_BUFFER, ws_subprotocol = None\<rparr>"

definition with_payload_limit :: "server_fn_config \<Rightarrow> nat \<Rightarrow> server_fn_config" where
  "with_payload_limit c n = c\<lparr>payload_limit := n\<rparr>"

definition with_ws_channel_buffer :: "server_fn_config \<Rightarrow> nat \<Rightarrow> server_fn_config" where
  "with_ws_channel_buffer c n = c\<lparr>ws_channel_buffer := n\<rparr>"

definition with_ws_subprotocol :: "server_fn_config \<Rightarrow> string \<Rightarrow> server_fn_config" where
  "with_ws_subprotocol c p = c\<lparr>ws_subprotocol := Some p\<rparr>"

text \<open>\<open>server_fn_config\<close>: the configuration registered as application state, or the defaults.\<close>

definition configured :: "server_fn_config option \<Rightarrow> server_fn_config" where
  "configured state = (case state of Some c \<Rightarrow> c | None \<Rightarrow> config_new)"

section \<open>Declared length\<close>

definition declared_length :: "('hv \<Rightarrow> string option) \<Rightarrow> 'hv option \<Rightarrow> nat option" where
  "declared_length to_str raw = Option.bind (Option.bind raw to_str) parse_usize"

definition content_length_exceeds :: "('hv \<Rightarrow> string option) \<Rightarrow> 'hv option \<Rightarrow> nat \<Rightarrow> bool" where
  "content_length_exceeds to_str raw limit =
     (case raw of
        None \<Rightarrow> False
      | Some v \<Rightarrow> (case Option.bind (to_str v) parse_usize of
                      Some declared \<Rightarrow> limit < declared
                    | None \<Rightarrow> True))"

definition INITIAL_PAYLOAD_CAPACITY_CAP :: nat where
  "INITIAL_PAYLOAD_CAPACITY_CAP = 64 * 1024"

definition initial_payload_capacity :: "nat option \<Rightarrow> nat \<Rightarrow> nat" where
  "initial_payload_capacity content_length limit =
     min (case content_length of Some d \<Rightarrow> if d \<le> limit then d else 0 | None \<Rightarrow> 0)
       INITIAL_PAYLOAD_CAPACITY_CAP"

section \<open>Collecting a body\<close>

type_synonym chunk = "string + bytes"

definition limit_message :: "nat \<Rightarrow> string" where
  "limit_message limit = ''payload exceeds limit of '' @ show_nat limit @ '' bytes''"

text \<open>The loop of \<open>collect_payload\<close>: the marker and the result.\<close>

fun collect_loop :: "nat \<Rightarrow> bytes \<Rightarrow> chunk list \<Rightarrow> bool \<times> (io_error + bytes)" where
  "collect_loop limit buf [] = (False, Inr buf)"
| "collect_loop limit buf (Inl e # cs) = (False, Inl (Io_Error OtherKind e))"
| "collect_loop limit buf (Inr c # cs) =
     (if limit < saturating_add (length buf) (length c)
      then (True, Inl (Io_Error InvalidData (limit_message limit)))
      else collect_loop limit (buf @ c) cs)"

text \<open>\<open>collect_payload\<close>, with the capacity reserved before the first chunk arrives.\<close>

definition collect_payload ::
  "('hv \<Rightarrow> string option) \<Rightarrow> 'hv option \<Rightarrow> chunk list \<Rightarrow> nat \<Rightarrow> nat \<times> bool \<times> (io_error + bytes)" where
  "collect_payload to_str content_length payload limit =
     (initial_payload_capacity (declared_length to_str content_length) limit, collect_loop limit [] payload)"

datatype server_fn_error = Args string | Request_Error string | Deserialization string

definition try_into_bytes ::
  "('hv \<Rightarrow> string option) \<Rightarrow> (server_fn_error \<Rightarrow> 'e) \<Rightarrow> server_fn_config option \<Rightarrow> 'hv option \<Rightarrow>
   chunk list \<Rightarrow> bool \<times> ('e + bytes)" where
  "try_into_bytes to_str from_server_fn_error state content_length payload =
     (case collect_payload to_str content_length payload (payload_limit (configured state)) of
        (_, marker, Inl e) \<Rightarrow> (marker, Inl (from_server_fn_error (Args (io_message e))))
      | (_, marker, Inr b) \<Rightarrow> (marker, Inr b))"

definition try_into_string ::
  "('hv \<Rightarrow> string option) \<Rightarrow> (server_fn_error \<Rightarrow> 'e) \<Rightarrow> server_fn_config option \<Rightarrow> 'hv option \<Rightarrow>
   chunk list \<Rightarrow> bool \<times> ('e + bytes)" where
  "try_into_string to_str from_server_fn_error state content_length payload =
     (case collect_payload to_str content_length payload (payload_limit (configured state)) of
        (_, marker, Inl e) \<Rightarrow> (marker, Inl (from_server_fn_error (Args (io_message e))))
      | (_, marker, Inr b) \<Rightarrow>
          (marker,
           (case from_utf8 0 b of
              Inl err \<Rightarrow> Inl (from_server_fn_error (Args (utf8_message err)))
            | Inr _ \<Rightarrow> Inr b)))"

section \<open>Streaming a body\<close>

text \<open>The unfold of \<open>try_into_stream\<close>. The state is the rest of the payload and the bytes seen so far, or
  \<open>None\<close> once an error has been emitted; a step yields an item, the next state and the marker.\<close>

type_synonym stream_state = "(chunk list \<times> nat) option"

fun stream_step ::
  "(server_fn_error \<Rightarrow> bytes) \<Rightarrow> nat \<Rightarrow> stream_state \<Rightarrow> ((bytes + bytes) \<times> stream_state \<times> bool) option" where
  "stream_step ser limit None = None"
| "stream_step ser limit (Some ([], so_far)) = None"
| "stream_step ser limit (Some (Inr b # cs, so_far)) =
     (let nxt = saturating_add so_far (length b)
      in if limit < nxt then Some (Inl (ser (Args (limit_message limit))), None, True)
         else Some (Inr b, Some (cs, nxt), False))"
| "stream_step ser limit (Some (Inl e # cs, so_far)) = Some (Inl (ser (Args e)), None, False)"

definition stream_rank :: "stream_state \<Rightarrow> nat" where
  "stream_rank st = (case st of None \<Rightarrow> 0 | Some (cs, _) \<Rightarrow> Suc (length cs))"

lemma stream_step_rank:
  "stream_step ser limit st = Some (item, st', m) \<Longrightarrow> stream_rank st' < stream_rank st"
  by (cases "(ser, limit, st)" rule: stream_step.cases)
    (auto simp: stream_rank_def Let_def split: if_splits)

text \<open>The items a consumer that drains the stream sees, and whether the marker was set.\<close>

function stream_items ::
  "(server_fn_error \<Rightarrow> bytes) \<Rightarrow> nat \<Rightarrow> stream_state \<Rightarrow> (bytes + bytes) list \<times> bool" where
  "stream_items ser limit st =
     (case stream_step ser limit st of
        None \<Rightarrow> ([], False)
      | Some (item, st', m) \<Rightarrow>
          (case stream_items ser limit st' of (items, m') \<Rightarrow> (item # items, m \<or> m')))"
  by pat_completeness auto
termination
  by (relation "measure (\<lambda>(ser, limit, st). stream_rank st)") (auto simp: stream_step_rank)

declare stream_items.simps [simp del]

definition try_into_stream ::
  "server_fn_config option \<Rightarrow> chunk list \<Rightarrow> nat \<times> stream_state" where
  "try_into_stream state payload = (payload_limit (configured state), Some (payload, 0))"

section \<open>Draining an unread body\<close>

text \<open>\<open>drain_payload\<close>: the chunks left unread.\<close>

fun drain_payload :: "nat \<Rightarrow> nat \<Rightarrow> chunk list \<Rightarrow> chunk list" where
  "drain_payload limit seen [] = []"
| "drain_payload limit seen (Inl e # cs) = cs"
| "drain_payload limit seen (Inr b # cs) =
     (let seen' = saturating_add seen (length b)
      in if limit < seen' then cs else drain_payload limit seen' cs)"

section \<open>Bounded accumulation\<close>

text \<open>The contract the buffered collector, the streaming counter and the assembly of a fragmented message
  share: blocks are accepted one at a time, and a block is accepted exactly when the bytes accepted so
  far together with it are admissible. \<open>holds s n\<close> says that the state has accepted \<open>n\<close> bytes.\<close>

locale bounded_accumulator =
  fixes feed :: "'s \<Rightarrow> bytes \<Rightarrow> 's option"
    and holds :: "'s \<Rightarrow> nat \<Rightarrow> bool"
    and admits :: "nat \<Rightarrow> bool"
  assumes feed_accepts: "holds s n \<Longrightarrow> feed s c \<noteq> None \<longleftrightarrow> admits (n + length c)"
    and feed_holds: "holds s n \<Longrightarrow> feed s c = Some t \<Longrightarrow> holds t (n + length c)"
    and admits_down: "admits n \<Longrightarrow> m \<le> n \<Longrightarrow> admits m"
begin

fun feed_all :: "'s \<Rightarrow> bytes list \<Rightarrow> 's option" where
  "feed_all s [] = Some s"
| "feed_all s (c # cs) = Option.bind (feed s c) (\<lambda>t. feed_all t cs)"

lemma feed_all_holds:
  "holds s n \<Longrightarrow> feed_all s cs = Some t \<Longrightarrow> holds t (n + length (concat cs))"
proof (induction cs arbitrary: s n)
  case (Cons c cs)
  then obtain u where u: "feed s c = Some u" "feed_all u cs = Some t"
    by (auto simp: Option.bind_eq_Some_conv)
  with Cons.IH [OF feed_holds [OF Cons.prems(1) u(1)]] show ?case by (simp add: add.assoc)
qed simp

text \<open>Only the total matters, not how it is cut into blocks.\<close>

lemma feed_all_accepts:
  "holds s n \<Longrightarrow> admits n \<Longrightarrow> feed_all s cs \<noteq> None \<longleftrightarrow> admits (n + length (concat cs))"
proof (induction cs arbitrary: s n)
  case (Cons c cs)
  show ?case
  proof (cases "feed s c")
    case None
    with feed_accepts [OF Cons.prems(1), of c] admits_down [of "n + length (concat (c # cs))" "n + length c"]
    show ?thesis by auto
  next
    case (Some u)
    with feed_accepts [OF Cons.prems(1), of c] have "admits (n + length c)" by simp
    with Some Cons.IH [OF feed_holds [OF Cons.prems(1) Some]] show ?thesis by (simp add: add.assoc)
  qed
qed simp

end

definition collect_feed :: "nat \<Rightarrow> bytes \<Rightarrow> bytes \<Rightarrow> bytes option" where
  "collect_feed limit buf c = (if limit < saturating_add (length buf) (length c) then None else Some (buf @ c))"

definition counter_feed :: "nat \<Rightarrow> nat \<Rightarrow> bytes \<Rightarrow> nat option" where
  "counter_feed limit so_far c =
     (let nxt = saturating_add so_far (length c) in if limit < nxt then None else Some nxt)"

abbreviation admits_saturated :: "nat \<Rightarrow> nat \<Rightarrow> bool" where
  "admits_saturated limit n \<equiv> min n usize_max \<le> limit"

interpretation collector: bounded_accumulator
  "collect_feed limit" "\<lambda>buf n. length buf = n" "admits_saturated limit" for limit
  by unfold_locales (auto simp: collect_feed_def saturating_add_def split: if_splits)

interpretation counter: bounded_accumulator
  "counter_feed limit" "\<lambda>k n. k = min n usize_max" "admits_saturated limit" for limit
  by unfold_locales (auto simp: counter_feed_def saturating_add_def Let_def split: if_splits)

lemma collect_loop_feed:
  "collect_loop limit buf (map Inr cs) =
     (case collector.feed_all limit buf cs of
        Some b \<Rightarrow> (False, Inr b)
      | None \<Rightarrow> (True, Inl (Io_Error InvalidData (limit_message limit))))"
  by (induction cs arbitrary: buf) (auto simp: collect_feed_def)

lemma collector_feed_all: "collector.feed_all limit buf cs = Some b \<Longrightarrow> b = buf @ concat cs"
  by (induction cs arbitrary: buf)
    (fastforce simp: collect_feed_def Option.bind_eq_Some_conv split: if_splits)+

lemma drain_feed:
  "counter.feed_all limit k cs \<noteq> None \<Longrightarrow> drain_payload limit k (map Inr cs) = []"
  by (induction cs arbitrary: k) (auto simp: counter_feed_def Let_def split: if_splits)

lemma stream_items_Some:
  "stream_items ser limit (Some ([], k)) = ([], False)"
  "stream_items ser limit (Some (Inl e # cs, k)) = ([Inl (ser (Args e))], False)"
  "stream_items ser limit (Some (Inr b # cs, k)) =
     (if limit < saturating_add k (length b) then ([Inl (ser (Args (limit_message limit)))], True)
      else case stream_items ser limit (Some (cs, saturating_add k (length b))) of
             (items, m) \<Rightarrow> (Inr b # items, m))"
  by (subst stream_items.simps; simp add: Let_def stream_items.simps [of _ _ None])+

lemma stream_items_collect:
  "k = min (length buf) usize_max \<Longrightarrow>
   (case stream_items ser limit (Some (cs, k)) of (items, m) \<Rightarrow>
      (\<exists>oks rest. items = map Inr oks @ rest
        \<and> (case collect_loop limit buf cs of
             (m', Inr b) \<Rightarrow> m = m' \<and> rest = [] \<and> b = buf @ concat oks
           | (m', Inl e) \<Rightarrow> m = m' \<and> rest = [Inl (ser (Args (io_message e)))])))"
proof (induction limit buf cs arbitrary: k rule: collect_loop.induct)
  case (1 limit buf)
  then show ?case by (simp add: stream_items_Some)
next
  case (2 limit buf e cs)
  then show ?case by (auto simp: stream_items_Some intro: exI [of _ "[]"])
next
  case (3 limit buf c cs)
  have sat: "saturating_add k (length c) = min (length (buf @ c)) usize_max"
    "saturating_add (length buf) (length c) = min (length (buf @ c)) usize_max"
    using 3 by (auto simp: saturating_add_def)
  show ?case
  proof (cases "limit < min (length (buf @ c)) usize_max")
    case True
    then show ?thesis using sat by (auto simp: stream_items_Some intro: exI [of _ "[]"])
  next
    case False
    obtain items m where it: "stream_items ser limit (Some (cs, min (length (buf @ c)) usize_max)) = (items, m)"
      by force
    from "3.IH" [OF _ refl] False sat it
    obtain oks rest where o: "items = map Inr oks @ rest"
      "case collect_loop limit (buf @ c) cs of
             (m', Inr b) \<Rightarrow> m = m' \<and> rest = [] \<and> b = (buf @ c) @ concat oks
           | (m', Inl e) \<Rightarrow> m = m' \<and> rest = [Inl (ser (Args (io_message e)))]"
      by auto
    have si: "stream_items ser limit (Some (Inr c # cs, k)) = (map Inr (c # oks) @ rest, m)"
      using False sat it o(1) by (auto simp: stream_items_Some)
    have cl: "collect_loop limit buf (Inr c # cs) = collect_loop limit (buf @ c) cs"
      using False sat(2) by auto
    show ?thesis unfolding si cl
      using o(2) by (simp add: split_def del: list.map) (rule exI [of _ "c # oks"], auto split: sum.splits)
  qed
qed

section \<open>Properties\<close>


text \<open>The payload limit is exact, however the body is cut into chunks. For a limit below the largest
  \<open>usize\<close>, a body without payload errors is returned in full when its total length is at most the limit;
  otherwise the result is the error naming the limit and the 413 marker is set.\<close>

theorem payload_limit_exact:
  assumes "payload_limit (configured state) < usize_max"
  shows "try_into_bytes to_str from_err state content_length (map Inr blocks) =
     (if length (concat blocks) \<le> payload_limit (configured state) then (False, Inr (concat blocks))
      else (True, Inl (from_err (Args (limit_message (payload_limit (configured state)))))))"
proof -
  let ?l = "payload_limit (configured state)"
  have "collector.feed_all ?l [] blocks \<noteq> None \<longleftrightarrow> length (concat blocks) \<le> ?l"
    using collector.feed_all_accepts [of "[]" 0 ?l blocks] assms by auto
  then show ?thesis
    using collector_feed_all [of ?l "[]" blocks]
    by (auto simp: try_into_bytes_def collect_payload_def collect_loop_feed split: option.splits)
qed

theorem payload_limit_exact_witness:
  "try_into_bytes Some (\<lambda>e. e) (Some (with_payload_limit config_new 3)) (None :: string option)
     (map Inr [[1], [2, 3]]) = (False, Inr [1, 2, 3])
   \<and> fst (try_into_bytes Some (\<lambda>e. e) (Some (with_payload_limit config_new 2)) (None :: string option)
     (map Inr [[1], [2, 3]]))"
  using payload_limit_exact [of "Some (with_payload_limit config_new 3)" Some "\<lambda>e. e" "None :: string option" "[[1], [2, 3]]"]
    payload_limit_exact [of "Some (with_payload_limit config_new 2)" Some "\<lambda>e. e" "None :: string option" "[[1], [2, 3]]"]
  by (simp add: configured_def with_payload_limit_def usize_max_def)

end
