(* ===== verification/Ws_Frames.thy ===== *)
theory Ws_Frames
  imports Payload
begin

unbundle bit_operations_syntax

text \<open>
  Frames of a server-function WebSocket (\<^verbatim>\<open>src/server_fn/websocket.rs\<close>): the checks that
  \<open>CheckedCodec\<close> makes before the frame codec of the library sees the bytes, the assembly of fragmented
  messages, and the close reason of each failure.

  The library's codec is an argument: from its state and the buffered bytes it yields a protocol error, or
  possibly a frame and the bytes that remain. Its protocol errors are an arbitrary type with a display
  text and the test for the overflow error.
\<close>

section \<open>Frames and errors\<close>

datatype ws_item = FirstText bytes | FirstBinary bytes | Continue bytes | Last bytes

datatype close_code = Protocol_Error | Invalid_Payload | Message_Too_Big | Other_Code u16

record close_reason =
  cr_code :: close_code
  cr_description :: "string option"

datatype ws_frame =
    Text bytes | Binary bytes | Continuation ws_item | Ping bytes | Pong bytes | Close "close_reason option"

datatype 'pe frame_error = Protocol string | InvalidText | TooBig | Ntex 'pe

text \<open>\<open>FrameError::reason\<close>.\<close>

fun frame_reason :: "('pe \<Rightarrow> bool) \<Rightarrow> ('pe \<Rightarrow> string) \<Rightarrow> nat \<Rightarrow> 'pe frame_error \<Rightarrow> close_reason" where
  "frame_reason is_overflow display limit TooBig =
     \<lparr>cr_code = Message_Too_Big,
      cr_description = Some (''message exceeds limit of '' @ show_nat limit @ '' bytes'')\<rparr>"
| "frame_reason is_overflow display limit InvalidText =
     \<lparr>cr_code = Invalid_Payload, cr_description = Some ''text frame payload is not valid UTF-8''\<rparr>"
| "frame_reason is_overflow display limit (Protocol message) =
     \<lparr>cr_code = Protocol_Error, cr_description = Some message\<rparr>"
| "frame_reason is_overflow display limit (Ntex e) =
     (if is_overflow e
      then \<lparr>cr_code = Message_Too_Big,
            cr_description = Some (''message exceeds limit of '' @ show_nat limit @ '' bytes'')\<rparr>
      else \<lparr>cr_code = Protocol_Error, cr_description = Some (display e)\<rparr>)"

section \<open>Checks before decoding\<close>

definition u16_be :: "u8 \<Rightarrow> u8 \<Rightarrow> u16" where
  "u16_be a b = push_bit 8 (ucast a) OR ucast b"

definition u64_be :: "bytes \<Rightarrow> u64" where
  "u64_be bs = from_le_bytes (rev bs)"

definition opcode :: "bytes \<Rightarrow> u8" where "opcode bs = bs ! 0 AND 15"
definition finished :: "bytes \<Rightarrow> bool" where "finished bs \<longleftrightarrow> bs ! 0 AND 128 \<noteq> 0"
definition short_len :: "bytes \<Rightarrow> u8" where "short_len bs = bs ! 1 AND 127"
definition masked :: "bytes \<Rightarrow> bool" where "masked bs \<longleftrightarrow> bs ! 1 AND 128 \<noteq> 0"

definition header_len :: "bytes \<Rightarrow> nat" where
  "header_len bs = (if short_len bs = 126 then 4 else if short_len bs = 127 then 10 else 2)"

definition valid_close_code :: "u16 \<Rightarrow> bool" where
  "valid_close_code code \<longleftrightarrow>
     (1000 \<le> code \<and> code \<le> 1003) \<or> (1007 \<le> code \<and> code \<le> 1014) \<or> (3000 \<le> code \<and> code \<le> 4999)"

text \<open>The payload of a close frame after unmasking.\<close>

definition close_payload :: "bytes \<Rightarrow> bytes" where
  "close_payload bs =
     (let start = header_len bs + (if masked bs then 4 else 0)
      in map (\<lambda>i. bs ! (start + i) XOR (if masked bs then bs ! (header_len bs + i mod 4) else 0))
           [0..<unat (short_len bs)])"

datatype 'pe verdict = More | Reject "'pe frame_error" | Pass

definition check_close :: "bytes \<Rightarrow> 'pe verdict" where
  "check_close bs =
     (if short_len bs = 1 then Reject (Protocol ''incomplete close code'')
      else if length bs < header_len bs + (if masked bs then 4 else 0) + unat (short_len bs) then More
      else let payload = close_payload bs in
        if 2 \<le> unat (short_len bs) then
          if \<not> valid_close_code (u16_be (payload ! 0) (payload ! 1)) then Reject (Protocol ''invalid close code'')
          else if \<not> valid_utf8 (drop 2 payload) then Reject InvalidText
          else Pass
        else Pass)"

text \<open>The checks of \<open>CheckedCodec::decode\<close> on the buffered bytes: more bytes are needed, the frame is
  refused, or the library's codec may decode it. First those on the frame header.\<close>

definition check_header :: "bool \<Rightarrow> bytes \<Rightarrow> 'pe verdict" where
  "check_header fragmented bs =
     (if length bs < 2 then More
      else if bs ! 0 AND 0x70 \<noteq> 0 then Reject (Protocol ''reserved frame bits without an extension'')
      else if 8 \<le> opcode bs \<and> (\<not> finished bs \<or> 125 < short_len bs)
      then Reject (Protocol ''invalid control frame'')
      else if (opcode bs = 1 \<or> opcode bs = 2) \<and> fragmented
      then Reject (Protocol ''data frame interrupts a fragmented message'')
      else if length bs < header_len bs then More
      else if short_len bs = 126 \<and> u16_be (bs ! 2) (bs ! 3) < 126
      then Reject (Protocol ''nonminimal frame length'')
      else if short_len bs = 127
        \<and> (u64_be (take 8 (drop 2 bs)) < 65536 \<or> drop_bit 63 (u64_be (take 8 (drop 2 bs))) \<noteq> 0)
      then Reject (Protocol ''invalid extended frame length'')
      else Pass)"

definition precheck :: "bool \<Rightarrow> bytes \<Rightarrow> 'pe verdict" where
  "precheck fragmented bs =
     (case check_header fragmented bs of
        Pass \<Rightarrow> if opcode bs = 8 then check_close bs else Pass
      | v \<Rightarrow> v)"

record 'cs checked_codec =
  cc_codec :: 'cs
  cc_fragmented :: bool

type_synonym ('cs, 'pe) codec_decode = "'cs \<Rightarrow> bytes \<Rightarrow> 'cs \<times> ('pe + ws_frame option \<times> bytes)"

definition next_fragmented :: "bool \<Rightarrow> bytes \<Rightarrow> bool" where
  "next_fragmented fragmented bs =
     (if opcode bs = 0 \<and> finished bs then False
      else if (opcode bs = 1 \<or> opcode bs = 2) \<and> \<not> finished bs then True
      else fragmented)"

text \<open>\<open>CheckedCodec::decode\<close>: the codec and the buffer afterwards, and the result.\<close>

definition checked_decode ::
  "('cs, 'pe) codec_decode \<Rightarrow> 'cs checked_codec \<Rightarrow> bytes \<Rightarrow>
   'cs checked_codec \<times> bytes \<times> ('pe frame_error + ws_frame option)" where
  "checked_decode codec cc bs =
     (case precheck (cc_fragmented cc) bs of
        More \<Rightarrow> (cc, bs, Inr None)
      | Reject e \<Rightarrow> (cc, bs, Inl e)
      | Pass \<Rightarrow>
          (case codec (cc_codec cc) bs of
             (cs', Inl pe) \<Rightarrow> (cc\<lparr>cc_codec := cs'\<rparr>, bs, Inl (Ntex pe))
           | (cs', Inr (None, rest)) \<Rightarrow> (cc\<lparr>cc_codec := cs'\<rparr>, rest, Inr None)
           | (cs', Inr (Some frame, rest)) \<Rightarrow>
               (\<lparr>cc_codec = cs', cc_fragmented = next_fragmented (cc_fragmented cc) bs\<rparr>, rest, Inr (Some frame))))"

section \<open>Assembly of messages\<close>

text \<open>\<open>Assembly\<close>: whether the open message is text, and its bytes so far.\<close>

type_synonym assembly = "(bool \<times> bytes) option"

fun assembly_data :: "nat \<Rightarrow> ws_frame \<Rightarrow> 'pe frame_error + bytes option" where
  "assembly_data limit (Binary b) = (if limit < length b then Inl TooBig else Inr (Some b))"
| "assembly_data limit (Text b) =
     (if limit < length b then Inl TooBig
      else if \<not> valid_utf8 b then Inl InvalidText
      else Inr (Some b))"
| "assembly_data limit frame = Inr None"

fun assembly_extend :: "nat \<Rightarrow> bool \<Rightarrow> bytes \<Rightarrow> assembly \<Rightarrow> assembly \<times> ('pe frame_error + bytes option)" where
  "assembly_extend limit is_last b None = (None, Inl (Protocol ''fragment not started''))"
| "assembly_extend limit is_last b (Some (text, buf)) =
     (if limit - length buf < length b then (Some (text, buf), Inl TooBig)
      else if is_last then
        (None, if text \<and> \<not> valid_utf8 (buf @ b) then Inl InvalidText else Inr (Some (buf @ b)))
      else (Some (text, buf @ b), Inr None))"

fun assembly_first :: "nat \<Rightarrow> bool \<Rightarrow> bytes \<Rightarrow> assembly \<Rightarrow> assembly \<times> ('pe frame_error + bytes option)" where
  "assembly_first limit text b (Some a) = (Some a, Inl (Protocol ''fragment already started''))"
| "assembly_first limit text b None =
     (if limit < length b then (None, Inl TooBig) else (Some (text, b), Inr None))"

text \<open>\<open>Assembly::accept\<close>.\<close>

fun accept :: "nat \<Rightarrow> assembly \<Rightarrow> ws_frame \<Rightarrow> assembly \<times> ('pe frame_error + bytes option)" where
  "accept limit a (Continuation (FirstText b)) = assembly_first limit True b a"
| "accept limit a (Continuation (FirstBinary b)) = assembly_first limit False b a"
| "accept limit a (Continuation (Continue b)) = assembly_extend limit False b a"
| "accept limit a (Continuation (Last b)) = assembly_extend limit True b a"
| "accept limit a frame = (a, assembly_data limit frame)"

text \<open>The frames of a connection in order: ping and pong do not reach the assembly, a close frame ends the
  input, and the first error ends it with that error. The result is the delivered messages, the assembly
  at the end and the error.\<close>

fun deliver :: "nat \<Rightarrow> assembly \<Rightarrow> ws_frame list \<Rightarrow> bytes list \<times> assembly \<times> 'pe frame_error option" where
  "deliver limit a [] = ([], a, None)"
| "deliver limit a (Ping b # fs) = deliver limit a fs"
| "deliver limit a (Pong b # fs) = deliver limit a fs"
| "deliver limit a (Close r # fs) = ([], a, None)"
| "deliver limit a (f # fs) =
     (case accept limit a f of
        (a', Inl e) \<Rightarrow> ([], a', Some e)
      | (a', Inr None) \<Rightarrow> deliver limit a' fs
      | (a', Inr (Some m)) \<Rightarrow> (case deliver limit a' fs of (ms, r) \<Rightarrow> (m # ms, r)))"

section \<open>Lemmas\<close>

definition assembly_feed :: "nat \<Rightarrow> bytes \<Rightarrow> bytes \<Rightarrow> bytes option" where
  "assembly_feed limit buf b = (if limit - length buf < length b then None else Some (buf @ b))"

interpretation fragments: bounded_accumulator
  "assembly_feed limit" "\<lambda>buf n. length buf = n \<and> n \<le> limit" "\<lambda>n. n \<le> limit" for limit
  by unfold_locales (auto simp: assembly_feed_def split: if_splits)

lemma fragments_feed_all: "fragments.feed_all limit buf bs = Some b \<Longrightarrow> b = buf @ concat bs"
  by (induction bs arbitrary: buf)
    (fastforce simp: assembly_feed_def Option.bind_eq_Some_conv split: if_splits)+

definition first_item :: "bool \<Rightarrow> bytes \<Rightarrow> ws_frame" where
  "first_item text b = Continuation (if text then FirstText b else FirstBinary b)"

lemma accept_first: "accept limit a (first_item text b) = assembly_first limit text b a"
  by (simp add: first_item_def)

lemma assembly_feed_cases:
  "limit - length buf < length b \<Longrightarrow> assembly_feed limit buf b = None"
  "\<not> limit - length buf < length b \<Longrightarrow> assembly_feed limit buf b = Some (buf @ b)"
  by (simp_all add: assembly_feed_def)

lemma deliver_continue:
  "fragments.feed_all limit buf bs = Some buf' \<Longrightarrow>
     deliver limit (Some (text, buf)) (map (\<lambda>b. Continuation (Continue b)) bs @ fs)
       = deliver limit (Some (text, buf')) fs"
proof (induction bs arbitrary: buf)
  case (Cons b bs)
  then show ?case by (cases "limit - length buf < length b") (simp_all add: assembly_feed_cases)
qed simp

lemma deliver_continue_error:
  "fragments.feed_all limit buf bs = None \<Longrightarrow>
     \<exists>a. deliver limit (Some (text, buf)) (map (\<lambda>b. Continuation (Continue b)) bs @ fs)
       = ([], a, Some (TooBig :: 'pe frame_error))"
proof (induction bs arbitrary: buf)
  case (Cons b bs)
  then show ?case by (cases "limit - length buf < length b") (simp_all add: assembly_feed_cases)
qed simp

fun is_ping_pong :: "ws_frame \<Rightarrow> bool" where
  "is_ping_pong (Ping _) = True"
| "is_ping_pong (Pong _) = True"
| "is_ping_pong _ = False"

lemma deliver_message:
  "\<not> is_ping_pong f \<Longrightarrow> \<forall>r. f \<noteq> Close r \<Longrightarrow> deliver limit a (f # fs) =
     (case accept limit a f of
        (a', Inl e) \<Rightarrow> ([], a', Some e)
      | (a', Inr None) \<Rightarrow> deliver limit a' fs
      | (a', Inr (Some m)) \<Rightarrow> (case deliver limit a' fs of (ms, r) \<Rightarrow> (m # ms, r)))"
  by (cases f) auto

lemma deliver_filter: "deliver limit a fs = deliver limit a (filter (\<lambda>f. \<not> is_ping_pong f) fs)"
proof (induction fs arbitrary: a)
  case (Cons f fs)
  show ?case
  proof (cases "is_ping_pong f \<or> (\<exists>r. f = Close r)")
    case True
    with Cons show ?thesis by (cases f) auto
  next
    case False
    then have "\<not> is_ping_pong f" "\<forall>r. f \<noteq> Close r" by auto
    with Cons.IH show ?thesis
      by (auto simp: deliver_message split: prod.splits sum.splits option.splits)
  qed
qed simp

definition assembly_ok :: "nat \<Rightarrow> assembly \<Rightarrow> bool" where
  "assembly_ok limit a \<longleftrightarrow> (case a of None \<Rightarrow> True | Some (_, buf) \<Rightarrow> length buf \<le> limit)"

lemma accept_bounded:
  assumes "assembly_ok limit a" "accept limit a f = (a', r)"
  shows "assembly_ok limit a' \<and> (\<forall>m. r = Inr (Some m) \<longrightarrow> length m \<le> limit)"
  using assms
  by (cases "(limit, a, f)" rule: accept.cases; cases a)
    (auto simp: assembly_ok_def split: if_splits)

lemma deliver_bounded:
  "assembly_ok limit a \<Longrightarrow> deliver limit a fs = (ms, a', e) \<Longrightarrow>
     assembly_ok limit a' \<and> (\<forall>m\<in>set ms. length m \<le> limit)"
proof (induction fs arbitrary: a ms)
  case Nil
  then show ?case by simp
next
  case (Cons f fs)
  show ?case
  proof (cases "is_ping_pong f \<or> (\<exists>r. f = Close r)")
    case True
    with Cons show ?thesis by (cases f) auto
  next
    case False
    then have d: "\<not> is_ping_pong f" "\<forall>r. f \<noteq> Close r" by auto
    obtain a1 r where r: "accept limit a f = (a1, r :: 'a frame_error + bytes option)" by force
    note b = accept_bounded [OF Cons.prems(1) r]
    show ?thesis
      using Cons.prems(2) Cons.IH [of a1] b
      by (fastforce simp: deliver_message [OF d] r split: sum.splits option.splits prod.splits)
  qed
qed

lemma length_prefix: "length bs < 2 \<or> (\<exists>a b r. bs = a # b # r)"
  by (cases bs; cases "tl bs") auto

lemma header_append:
  assumes "2 \<le> length bs"
  shows "(bs @ ext) ! 0 = bs ! 0" "opcode (bs @ ext) = opcode bs" "finished (bs @ ext) = finished bs"
    "short_len (bs @ ext) = short_len bs" "masked (bs @ ext) = masked bs"
    "header_len (bs @ ext) = header_len bs"
proof -
  from assms obtain a b r where "bs = a # b # r" by (metis length_prefix not_less)
  then show "(bs @ ext) ! 0 = bs ! 0" "opcode (bs @ ext) = opcode bs" "finished (bs @ ext) = finished bs"
    "short_len (bs @ ext) = short_len bs" "masked (bs @ ext) = masked bs"
    "header_len (bs @ ext) = header_len bs"
    by (simp_all add: opcode_def finished_def short_len_def masked_def header_len_def)
qed

lemma close_payload_append:
  assumes "2 \<le> length bs" "header_len bs + (if masked bs then 4 else 0) + unat (short_len bs) \<le> length bs"
  shows "close_payload (bs @ ext) = close_payload bs"
proof -
  have "bs ! k = (bs @ ext) ! k" if "k < length bs" for k using that by (simp add: nth_append)
  moreover have "header_len bs + i mod 4 < length bs" if "masked bs" "i < unat (short_len bs)" for i
  proof -
    have "i mod 4 < 4" by simp
    with assms(2) that show ?thesis by auto
  qed
  ultimately show ?thesis
    using assms by (auto simp: close_payload_def Let_def header_append)
qed

lemma check_close_append:
  assumes "2 \<le> length bs" "check_close bs \<noteq> (More :: 'pe verdict)"
  shows "check_close (bs @ ext) = (check_close bs :: 'pe verdict)"
proof (cases "short_len bs = 1")
  case True
  with assms(1) show ?thesis by (simp add: check_close_def header_append)
next
  case False
  with assms have l: "header_len bs + (if masked bs then 4 else 0) + unat (short_len bs) \<le> length bs"
    by (auto simp: check_close_def split: if_splits)
  with assms(1) False close_payload_append [OF assms(1) l, of ext] show ?thesis
    by (simp add: check_close_def header_append)
qed

lemma check_header_append:
  assumes "check_header fragmented bs \<noteq> (More :: 'pe verdict)"
  shows "check_header fragmented (bs @ ext) = (check_header fragmented bs :: 'pe verdict)"
proof -
  have two: "2 \<le> length bs" using assms by (auto simp: check_header_def split: if_splits)
  note h = header_append [OF two, of ext]
  show ?thesis
  proof (cases "length bs < header_len bs")
    case True
    with assms two h show ?thesis by (auto simp: check_header_def)
  next
    case False
    have u16: "short_len bs = 126 \<Longrightarrow> (bs @ ext) ! 2 = bs ! 2 \<and> (bs @ ext) ! 3 = bs ! 3"
      using False by (simp add: header_len_def nth_append)
    have u64: "short_len bs = 127 \<Longrightarrow> 10 \<le> length bs"
      using False by (simp add: header_len_def)
    have l: "\<not> length (bs @ ext) < 2" "\<not> length (bs @ ext) < header_len bs" "\<not> length bs < 2"
      using two False by auto
    show ?thesis
      unfolding check_header_def h using l False u16 u64 by (simp cong: conj_cong if_cong)
  qed
qed

lemma precheck_append:
  assumes "precheck fragmented bs \<noteq> (More :: 'pe verdict)"
  shows "precheck fragmented (bs @ ext) = (precheck fragmented bs :: 'pe verdict)"
proof -
  have h: "check_header fragmented bs \<noteq> (More :: 'pe verdict)"
    using assms by (auto simp: precheck_def)
  then have two: "2 \<le> length bs" by (auto simp: check_header_def split: if_splits)
  show ?thesis
    using assms check_header_append [OF h, of ext] check_close_append [OF two, of ext]
    by (auto simp: precheck_def header_append [OF two] split: verdict.splits)
qed

section \<open>Frames as RFC 6455 describes them\<close>

text \<open>The frame the library's codec is documented to yield for a header: its kind is that of the opcode
  and the final bit of the first byte.\<close>

fun frame_matches :: "bytes \<Rightarrow> ws_frame \<Rightarrow> bool" where
  "frame_matches bs (Continuation (Last _)) = (opcode bs = 0 \<and> finished bs)"
| "frame_matches bs (Continuation (Continue _)) = (opcode bs = 0 \<and> \<not> finished bs)"
| "frame_matches bs (Continuation (FirstText _)) = (opcode bs = 1 \<and> \<not> finished bs)"
| "frame_matches bs (Continuation (FirstBinary _)) = (opcode bs = 2 \<and> \<not> finished bs)"
| "frame_matches bs (Text _) = (opcode bs = 1 \<and> finished bs)"
| "frame_matches bs (Binary _) = (opcode bs = 2 \<and> finished bs)"
| "frame_matches bs (Close _) = (opcode bs = 8)"
| "frame_matches bs (Ping _) = (opcode bs = 9)"
| "frame_matches bs (Pong _) = (opcode bs = 10)"

definition codec_faithful :: "('cs, 'pe) codec_decode \<Rightarrow> bool" where
  "codec_faithful codec \<longleftrightarrow>
     (\<forall>cs bs cs' frame rest. codec cs bs = (cs', Inr (Some frame, rest)) \<longrightarrow> frame_matches bs frame)"

text \<open>What RFC 6455 asks of a frame header and a close payload, in terms of the bits of the first bytes.\<close>

definition rfc_frame :: "bool \<Rightarrow> bytes \<Rightarrow> bool" where
  "rfc_frame fragmented bs \<longleftrightarrow>
     \<not> bit (bs ! 0) 4 \<and> \<not> bit (bs ! 0) 5 \<and> \<not> bit (bs ! 0) 6
     \<and> (bit (bs ! 0) 3 \<longrightarrow> bit (bs ! 0) 7 \<and> unat (short_len bs) \<le> 125)
     \<and> (opcode bs = 1 \<or> opcode bs = 2 \<longrightarrow> \<not> fragmented)
     \<and> (unat (short_len bs) = 126 \<longrightarrow> 126 \<le> unat (u16_be (bs ! 2) (bs ! 3)))
     \<and> (unat (short_len bs) = 127 \<longrightarrow> 65536 \<le> unat (u64_be (take 8 (drop 2 bs)))
           \<and> unat (u64_be (take 8 (drop 2 bs))) < 2 ^ 63)
     \<and> (opcode bs = 8 \<longrightarrow> close_payload bs = []
           \<or> (2 \<le> length (close_payload bs)
              \<and> valid_close_code (u16_be (close_payload bs ! 0) (close_payload bs ! 1))
              \<and> valid_utf8 (drop 2 (close_payload bs))))"

lemma reserved_bits: "(w :: u8) AND 0x70 = 0 \<longleftrightarrow> \<not> bit w 4 \<and> \<not> bit w 5 \<and> \<not> bit w 6"
proof -
  have "(w AND 0x70 = 0) = (\<forall>n < 8. \<not> (bit w n \<and> bit (0x70 :: u8) n))"
    by (auto simp: bit_eq_iff bit_simps)
  also have "\<dots> \<longleftrightarrow> \<not> bit w 4 \<and> \<not> bit w 5 \<and> \<not> bit w 6"
    by (auto simp: All_less_Suc eval_nat_numeral bit_simps)
  finally show ?thesis .
qed

lemma control_bit: "8 \<le> (w AND 15 :: u8) \<longleftrightarrow> bit w 3"
proof -
  have m: "w AND 15 = take_bit 4 w" by (simp add: take_bit_eq_mask mask_eq_exp_minus_1)
  have "bit w 3 \<longleftrightarrow> odd (unat w div 8)"
  proof -
    have "bit w 3 \<longleftrightarrow> bit (unat w) 3" by (simp add: bit_unsigned_iff)
    also have "\<dots> \<longleftrightarrow> odd (unat w div 2 ^ 3)" by (rule bit_iff_odd)
    finally show ?thesis by simp
  qed
  also have "\<dots> \<longleftrightarrow> 8 \<le> unat w mod 16" by presburger
  also have "\<dots> \<longleftrightarrow> 8 \<le> (w AND 15)"
    by (simp add: m word_le_nat_alt take_bit_eq_mod unat_mod_distrib)
  finally show ?thesis by simp
qed

lemma final_bit: "(w AND 128 :: u8) \<noteq> 0 \<longleftrightarrow> bit w 7"
proof -
  have "(w AND 128 = 0) = (\<forall>n < 8. \<not> (bit w n \<and> bit (128 :: u8) n))"
    by (auto simp: bit_eq_iff bit_simps)
  also have "\<dots> \<longleftrightarrow> \<not> bit w 7"
    by (auto simp: All_less_Suc eval_nat_numeral bit_simps)
  finally show ?thesis by simp
qed

lemma u64_top: "drop_bit 63 (w :: u64) = 0 \<longleftrightarrow> unat w < 2 ^ 63"
proof -
  have "drop_bit 63 w = 0 \<longleftrightarrow> unat (drop_bit 63 w) = 0" by (simp add: unat_eq_zero)
  also have "\<dots> \<longleftrightarrow> unat w < 2 ^ 63" 
    by (simp add: drop_bit_eq_div unat_div_distrib div_eq_0_iff)
  finally show ?thesis .
qed

definition frame_complete :: "bytes \<Rightarrow> bool" where
  "frame_complete bs \<longleftrightarrow> 2 \<le> length bs \<and> header_len bs \<le> length bs
     \<and> (opcode bs = 8 \<longrightarrow> header_len bs + (if masked bs then 4 else 0) + unat (short_len bs) \<le> length bs)"

lemma short_len_eq: "short_len bs = 126 \<longleftrightarrow> unat (short_len bs) = 126" "short_len bs = 127 \<longleftrightarrow> unat (short_len bs) = 127"
   "short_len bs = 1 \<longleftrightarrow> unat (short_len bs) = 1"
  by (simp_all add: word_unat_eq_iff)

lemma check_header_Pass:
  "check_header fragmented bs = Pass \<longleftrightarrow>
     2 \<le> length bs \<and> header_len bs \<le> length bs
     \<and> \<not> bit (bs ! 0) 4 \<and> \<not> bit (bs ! 0) 5 \<and> \<not> bit (bs ! 0) 6
     \<and> (bit (bs ! 0) 3 \<longrightarrow> bit (bs ! 0) 7 \<and> unat (short_len bs) \<le> 125)
     \<and> (opcode bs = 1 \<or> opcode bs = 2 \<longrightarrow> \<not> fragmented)
     \<and> (unat (short_len bs) = 126 \<longrightarrow> 126 \<le> unat (u16_be (bs ! 2) (bs ! 3)))
     \<and> (unat (short_len bs) = 127 \<longrightarrow> 65536 \<le> unat (u64_be (take 8 (drop 2 bs)))
           \<and> unat (u64_be (take 8 (drop 2 bs))) < 2 ^ 63)"
proof -
  have c: "8 \<le> opcode bs \<longleftrightarrow> bit (bs ! 0) 3" by (simp add: opcode_def control_bit)
  have f: "finished bs \<longleftrightarrow> bit (bs ! 0) 7" by (simp add: finished_def final_bit)
  have r: "bs ! 0 AND 0x70 \<noteq> 0 \<longleftrightarrow> \<not> (\<not> bit (bs ! 0) 4 \<and> \<not> bit (bs ! 0) 5 \<and> \<not> bit (bs ! 0) 6)"
    using reserved_bits [of "bs ! 0"] by blast
  have l: "125 < short_len bs \<longleftrightarrow> 125 < unat (short_len bs)" by (simp add: word_less_nat_alt)
  show ?thesis
    unfolding check_header_def c f r l short_len_eq u64_top
    by (simp add: word_less_nat_alt not_less) (auto simp: not_less)
qed

lemma check_close_Pass:
  "check_close bs = Pass \<longleftrightarrow>
     header_len bs + (if masked bs then 4 else 0) + unat (short_len bs) \<le> length bs
     \<and> (close_payload bs = []
           \<or> (2 \<le> length (close_payload bs)
              \<and> valid_close_code (u16_be (close_payload bs ! 0) (close_payload bs ! 1))
              \<and> valid_utf8 (drop 2 (close_payload bs))))"
proof -
  have len: "length (close_payload bs) = unat (short_len bs)" by (simp add: close_payload_def Let_def)
  then have emp: "close_payload bs = [] \<longleftrightarrow> unat (short_len bs) = 0" by (metis length_0_conv)
  show ?thesis
    unfolding check_close_def short_len_eq emp len by (auto simp: Let_def not_less)
qed

text \<open>A codec that knows only the first fragment of an empty text message.\<close>

definition demo_codec :: "(unit, unit) codec_decode" where
  "demo_codec c bs = (c, Inr (if opcode bs = 1 \<and> \<not> finished bs then Some (Continuation (FirstText [])) else None, []))"

section \<open>Properties\<close>

text \<open>C23: reassembly of a fragmented message is exact. For a first fragment, any continuation fragments and
  a last fragment, with any ping and pong frames between them: if the total length is within the limit,
  exactly their concatenation is delivered (for a text message, if it is valid UTF-8 as a whole, even when
  a character is split across fragments), and otherwise the connection fails with the UTF-8 or the size
  error; how the message is cut does not matter.\<close>

theorem fragmented_message_reassembled:
  assumes "filter (\<lambda>f. \<not> is_ping_pong f) frames =
       first_item text b0 # map (\<lambda>b. Continuation (Continue b)) mids @ [Continuation (Last b1)]"
  shows "(let msg = b0 @ concat mids @ b1 in
     case deliver limit None frames :: bytes list \<times> assembly \<times> 'pe frame_error option of (delivered, _, error) \<Rightarrow>
       if limit < length msg then delivered = [] \<and> error = Some TooBig
       else if text \<and> \<not> valid_utf8 msg then delivered = [] \<and> error = Some InvalidText
       else delivered = [msg] \<and> error = None)"
proof -
  let ?rest = "map (\<lambda>b. Continuation (Continue b)) mids @ [Continuation (Last b1)]"
  let ?pe = "\<lambda>x. x :: bytes list \<times> assembly \<times> 'pe frame_error option"
  have d: "?pe (deliver limit None frames) =
      (if limit < length b0 then ([], None, Some TooBig) else deliver limit (Some (text, b0)) ?rest)"
    by (subst deliver_filter) (simp add: assms first_item_def)
  show ?thesis
  proof (cases "limit < length b0")
    case True
    then show ?thesis by (simp add: d Let_def)
  next
    case False
    then have acc: "fragments.feed_all limit b0 mids \<noteq> None \<longleftrightarrow> length b0 + length (concat mids) \<le> limit"
      using fragments.feed_all_accepts [of b0 "length b0" limit mids] by simp
    show ?thesis
    proof (cases "fragments.feed_all limit b0 mids")
      case None
      with deliver_continue_error [where 'pe = 'pe, OF None, of "text" "[Continuation (Last b1)]"] acc False show ?thesis
        by (auto simp: d Let_def)
    next
      case (Some buf)
      with acc False fragments_feed_all [OF Some] show ?thesis
        by (auto simp: d Let_def deliver_continue [OF Some])
    qed
  qed
qed

theorem fragmented_message_reassembled_witness:
  "fst (deliver 4 None [Continuation (FirstText [0xC3]), Ping [9], Continuation (Last [0xA9])]) = [[0xC3, 0xA9]]"
  using fragmented_message_reassembled [of "[Continuation (FirstText [0xC3]), Ping [9], Continuation (Last [0xA9])]"
      True "[0xC3]" "[]" "[0xA9]" 4]
  by (simp add: first_item_def Let_def valid_utf8_step in_range_def is_cont_def split: prod.splits)

text \<open>Nothing larger than the limit is ever delivered or buffered. Whatever frames arrive in whatever
  order, every message handed to the application is at most the limit, and so is the partially assembled
  message at every moment.\<close>

theorem delivered_within_limit:
  "case deliver limit None frames of (delivered, open_message, _) \<Rightarrow>
     (\<forall>m. m \<in> set delivered \<longrightarrow> length m \<le> limit)
     \<and> (case open_message of Some (_, buf) \<Rightarrow> length buf \<le> limit | None \<Rightarrow> True)"
proof -
  obtain ms a e where d: "deliver limit None frames = (ms, a, e :: 'a frame_error option)"
    by (metis prod_cases3)
  have "assembly_ok limit None" by (simp add: assembly_ok_def)
  from deliver_bounded [OF this d] d show ?thesis
    by (auto simp: assembly_ok_def split: option.splits)
qed

theorem delivered_within_limit_witness:
  "list_all (\<lambda>m. length m \<le> 2)
     (fst (deliver 2 None [Binary [1, 2], Continuation (FirstBinary [3])] :: bytes list \<times> assembly \<times> unit frame_error option))"
  using delivered_within_limit [of 2 "[Binary [1, 2], Continuation (FirstBinary [3])]", where 'a = unit]
  by (auto simp only: list_all_iff split_def)

text \<open>The verdict on a frame does not depend on how the transport splits the bytes. Once the checks have
  decided on a buffered prefix, refusing it or passing it on, they decide the same, with the same error,
  whatever bytes follow; until then decoding leaves the buffer and the codec unchanged.\<close>

theorem precheck_chunking_independent:
  "(precheck fragmented bs \<noteq> (More :: 'pe verdict) \<longrightarrow> precheck fragmented (bs @ ext) = (precheck fragmented bs :: 'pe verdict))
   \<and> (precheck (cc_fragmented cc) bs = (More :: 'pe verdict) \<longrightarrow>
        checked_decode (codec :: ('cs, 'pe) codec_decode) cc bs = (cc, bs, Inr None))"
  by (simp add: precheck_append checked_decode_def)

theorem precheck_chunking_independent_witness:
  "precheck False ([0x88, 1] @ [3]) = (Reject (Protocol ''incomplete close code'') :: unit verdict)"
proof -
  have "precheck False [0x88, 1] = (Reject (Protocol ''incomplete close code'') :: unit verdict)"
    by (simp add: precheck_def check_header_def check_close_def opcode_def finished_def short_len_def header_len_def)
  with precheck_chunking_independent [where fragmented = False and bs = "[0x88, 1]" and ext = "[3]" and 'pe = unit
      and cc = "\<lparr>cc_codec = (), cc_fragmented = False\<rparr>" and codec = "\<lambda>c b. (c, Inr (None, b))"] show ?thesis by simp
qed


text \<open>The codec's fragmentation flag agrees with the assembly. If the library's codec yields frames of
  the kind the header announces, then as long as no error has closed the connection the flag says exactly
  whether a message is being assembled, and the assembly's own \<open>fragment already started\<close> check can
  never fire, because the interrupting frame was refused before decoding.\<close>

theorem fragmentation_tracked:
  assumes "codec_faithful codec" and "cc_fragmented cc \<longleftrightarrow> a \<noteq> None"
    and "checked_decode codec cc bs = (cc', rest, Inr (Some frame))"
  shows "snd (accept limit a frame) \<noteq> Inl (Protocol ''fragment already started'')
     \<and> (isl (snd (accept limit a frame)) \<or> (cc_fragmented cc' \<longleftrightarrow> fst (accept limit a frame) \<noteq> None))"
proof -
  obtain cs where p: "precheck (cc_fragmented cc) bs = (Pass :: 'b verdict)"
    and cod: "codec (cc_codec cc) bs = (cs, Inr (Some frame, rest))"
    and cc': "cc_fragmented cc' = next_fragmented (cc_fragmented cc) bs"
    using assms(3) by (auto simp: checked_decode_def split: verdict.splits prod.splits sum.splits option.splits)
  have m: "frame_matches bs frame" using assms(1) cod unfolding codec_faithful_def by blast
  have "\<not> ((opcode bs = 1 \<or> opcode bs = 2) \<and> cc_fragmented cc)"
    using p by (auto simp: precheck_def check_header_def split: verdict.splits if_splits)
  with m assms(2) cc' show ?thesis
    by (cases "(limit, a, frame)" rule: accept.cases; cases a)
      (auto simp: next_fragmented_def split: if_splits)
qed

theorem fragmentation_tracked_witness:
  "snd (accept 10 None (Continuation (FirstText []))) \<noteq> (Inl (Protocol ''fragment already started'') :: unit frame_error + bytes option)"
proof -
  have c: "codec_faithful demo_codec" by (auto simp: codec_faithful_def demo_codec_def)
  have "checked_decode demo_codec \<lparr>cc_codec = (), cc_fragmented = False\<rparr> [1, 0]
      = (\<lparr>cc_codec = (), cc_fragmented = True\<rparr>, [], Inr (Some (Continuation (FirstText []))))"
    by (simp add: checked_decode_def precheck_def check_header_def demo_codec_def opcode_def finished_def
        short_len_def header_len_def next_fragmented_def word_le_nat_alt)
  from fragmentation_tracked [OF c _ this, of None 10] show ?thesis by simp
qed

end
