(* ===== verification/Ws_Connection.thy ===== *)
theory Ws_Connection
  imports Ws_Frames
begin

text \<open>
  The upgrade handshake and the connection task of a server-function WebSocket
  (\<^verbatim>\<open>src/server_fn/websocket.rs\<close>).

  Header values, base64 and the transport are third-party. A request is its method, its version and its
  header values by name; \<open>to_str\<close> and \<open>as_bytes\<close> read a value, and \<open>decode16\<close> is the number of bytes the
  base64 decoder writes into a 16-byte buffer. One round of the connection task sees what each poll of the
  transport and of the channels returned, in the order the code makes them.
\<close>

section \<open>Handshake\<close>

datatype http_version = Http_10 | Http_11 | Http_2

record 'hv ws_request =
  wr_method :: string
  wr_version :: http_version
  wr_headers :: "string \<Rightarrow> 'hv list"

datatype handshake_error =
    GetMethodRequired | NoWebsocketUpgrade | NoConnectionUpgrade | NoVersionHeader
  | UnsupportedVersion | BadWebsocketKey

definition has_token :: "('hv \<Rightarrow> string option) \<Rightarrow> 'hv ws_request \<Rightarrow> string \<Rightarrow> string \<Rightarrow> bool" where
  "has_token to_str req name token \<longleftrightarrow>
     list_ex (\<lambda>value. case to_str value of
         None \<Rightarrow> False
       | Some v \<Rightarrow> list_ex (\<lambda>part. eq_ignore_ascii_case (str_trim part) token) (split_on (CHR '','') v))
       (wr_headers req name)"

definition is_token_char :: "char \<Rightarrow> bool" where
  "is_token_char c \<longleftrightarrow> is_ascii_alphabetic c \<or> is_ascii_digit c
     \<or> byte_of c \<in> {33, 35, 36, 37, 38, 39, 42, 43, 45, 46, 94, 95, 96, 124, 126}"

definition is_token :: "string \<Rightarrow> bool" where
  "is_token value \<longleftrightarrow> value \<noteq> [] \<and> list_all is_token_char value"

definition is_ows :: "char \<Rightarrow> bool" where
  "is_ows c \<longleftrightarrow> byte_of c = 32 \<or> byte_of c = 9"

text \<open>The loop over the parts of one field: the protocols seen so far are a list without repetition.\<close>

fun offer_parts :: "string list \<Rightarrow> string list \<Rightarrow> handshake_error + string list" where
  "offer_parts seen [] = Inr seen"
| "offer_parts seen (part # parts) =
     (let protocol = trim_matches is_ows part
      in if protocol = [] then offer_parts seen parts
         else if \<not> is_token protocol \<or> protocol \<in> set seen then Inl NoWebsocketUpgrade
         else offer_parts (seen @ [protocol]) parts)"

fun offer_fields ::
  "('hv \<Rightarrow> string option) \<Rightarrow> string list \<Rightarrow> 'hv list \<Rightarrow> handshake_error + string list" where
  "offer_fields to_str seen [] = Inr seen"
| "offer_fields to_str seen (f # fs) =
     (case to_str f of
        None \<Rightarrow> Inl NoWebsocketUpgrade
      | Some v \<Rightarrow> res_bind (offer_parts seen (split_on (CHR '','') v)) (\<lambda>seen'. offer_fields to_str seen' fs))"

definition verify_handshake ::
  "('hv \<Rightarrow> string option) \<Rightarrow> ('hv \<Rightarrow> string) \<Rightarrow> (string \<Rightarrow> nat option) \<Rightarrow> 'hv ws_request \<Rightarrow>
   handshake_error + string list" where
  "verify_handshake to_str as_bytes decode16 req =
     (if wr_method req \<noteq> ''GET'' then Inl GetMethodRequired
      else if wr_version req \<noteq> Http_11 \<or> \<not> has_token to_str req ''upgrade'' ''websocket'' then Inl NoWebsocketUpgrade
      else if \<not> has_token to_str req ''connection'' ''upgrade'' then Inl NoConnectionUpgrade
      else case wr_headers req ''sec-websocket-version'' of
             [] \<Rightarrow> Inl NoVersionHeader
           | version # more_versions \<Rightarrow>
               if more_versions \<noteq> [] \<or> as_bytes version \<notin> {''13'', ''8'', ''7''} then Inl UnsupportedVersion
               else (case wr_headers req ''sec-websocket-key'' of
                       [] \<Rightarrow> Inl BadWebsocketKey
                     | key # more_keys \<Rightarrow>
                         if more_keys \<noteq> [] \<or> decode16 (as_bytes key) \<noteq> Some 16 then Inl BadWebsocketKey
                         else res_bind (offer_fields to_str [] (wr_headers req ''sec-websocket-protocol'')) (\<lambda>protocols.
                           if wr_headers req ''sec-websocket-protocol'' \<noteq> [] \<and> protocols = []
                           then Inl NoWebsocketUpgrade
                           else Inr protocols)))"

text \<open>The subprotocol \<open>start\<close> echoes: the configured one, when the client offered it and it is a legal
  header value.\<close>

definition selected_subprotocol ::
  "(string \<Rightarrow> 'hv option) \<Rightarrow> server_fn_config \<Rightarrow> string list \<Rightarrow> 'hv option" where
  "selected_subprotocol hv_from_str config offered =
     (case ws_subprotocol config of
        Some protocol \<Rightarrow> if protocol \<in> set offered then hv_from_str protocol else None
      | None \<Rightarrow> None)"

text \<open>\<open>start\<close> up to the spawn of the connection task: the echoed subprotocol and the capacity of the two
  channels; \<open>take_io\<close> and \<open>encode\<close> say whether the transport could be taken and the response written.\<close>

definition ws_start ::
  "('hv \<Rightarrow> string option) \<Rightarrow> ('hv \<Rightarrow> string) \<Rightarrow> (string \<Rightarrow> nat option) \<Rightarrow> (string \<Rightarrow> 'hv option) \<Rightarrow>
   server_fn_config option \<Rightarrow> bool \<Rightarrow> bool \<Rightarrow> 'hv ws_request \<Rightarrow> handshake_error + 'hv option \<times> nat" where
  "ws_start to_str as_bytes decode16 hv_from_str state take_io encode_ok req =
     res_bind (verify_handshake to_str as_bytes decode16 req) (\<lambda>offered.
       if \<not> take_io then Inl NoWebsocketUpgrade
       else if \<not> encode_ok then Inl NoWebsocketUpgrade
       else Inr (selected_subprotocol hv_from_str (configured state) offered, ws_channel_buffer (configured state)))"

text \<open>\<open>upgrade\<close>: a failure is recorded on the request and returned as a request error.\<close>

definition upgrade ::
  "('hv \<Rightarrow> string option) \<Rightarrow> ('hv \<Rightarrow> string) \<Rightarrow> (string \<Rightarrow> nat option) \<Rightarrow> (string \<Rightarrow> 'hv option) \<Rightarrow>
   (handshake_error \<Rightarrow> string) \<Rightarrow> (server_fn_error \<Rightarrow> 'e) \<Rightarrow>
   server_fn_config option \<Rightarrow> bool \<Rightarrow> bool \<Rightarrow> 'hv ws_request \<Rightarrow> handshake_error option \<times> ('e + 'hv option \<times> nat)" where
  "upgrade to_str as_bytes decode16 hv_from_str display from_err state take_io encode_ok req =
     (case ws_start to_str as_bytes decode16 hv_from_str state take_io encode_ok req of
        Inl err \<Rightarrow> (Some err, Inl (from_err (Request_Error (display err))))
      | Inr c \<Rightarrow> (None, Inr c))"

section \<open>The connection task\<close>

datatype 'a poll = Pending | Ready 'a

datatype 'pe recv =
    Received ws_frame | Decoder_Error "'pe frame_error" | Write_Backpressure | Io_Failure

text \<open>What one round of \<open>pump\<close> observes: whether the peer is gone, the first flush (\<open>True\<close> when it
  succeeded), the output channel, whether the output could be encoded, the second flush, the readiness of
  the input channel (\<open>True\<close> when it accepts a message), the frame receiver, and whether the input channel took
  the message.\<close>

record 'pe pump_obs =
  ob_disconnected :: bool
  ob_flush :: "bool poll"
  ob_output :: "bytes option poll"
  ob_encode :: bool
  ob_flush_again :: "bool poll"
  ob_input :: "bool poll"
  ob_recv :: "'pe recv poll"
  ob_sent :: bool

record pump_state =
  ps_assembly :: assembly
  ps_input_open :: bool

datatype effect =
    Wrote_Binary bytes | Wrote_Pong bytes | Delivered bytes | Delivered_Error string | Paused

datatype outcome = Finished "close_reason option option" | Next bool

text \<open>\<open>report_error\<close>: the close reason and the error offered to the input channel.\<close>

definition report_error ::
  "('pe \<Rightarrow> bool) \<Rightarrow> ('pe \<Rightarrow> string) \<Rightarrow> nat \<Rightarrow> 'pe frame_error \<Rightarrow> close_reason \<times> effect" where
  "report_error is_overflow display limit error =
     (let reason = frame_reason is_overflow display limit error
      in (reason, Delivered_Error (case cr_description reason of Some d \<Rightarrow> d | None \<Rightarrow> [])))"

text \<open>The output half of a round: an early result, or whether it made progress.\<close>

definition pump_output :: "'pe pump_obs \<Rightarrow> effect list \<times> outcome" where
  "pump_output ob =
     (case ob_flush ob of
        Ready False \<Rightarrow> ([], Finished None)
      | Ready True \<Rightarrow>
          (case ob_output ob of
             Ready (Some b) \<Rightarrow> if ob_encode ob then ([Wrote_Binary b], Next True) else ([], Finished None)
           | Ready None \<Rightarrow> ([], Finished (Some None))
           | Pending \<Rightarrow> ([], Next False))
      | Pending \<Rightarrow> ([], Next False))"

text \<open>The input half of a round.\<close>

definition pump_receive ::
  "('pe \<Rightarrow> bool) \<Rightarrow> ('pe \<Rightarrow> string) \<Rightarrow> nat \<Rightarrow> 'pe pump_obs \<Rightarrow> pump_state \<Rightarrow>
   pump_state \<times> effect list \<times> outcome" where
  "pump_receive is_overflow display limit ob ps =
     (case ob_recv ob of
        Ready (Received (Close reason)) \<Rightarrow> (ps, [], Finished (Some reason))
      | Ready (Received (Ping b)) \<Rightarrow> (ps, [Wrote_Pong b], Next True)
      | Ready (Received (Pong _)) \<Rightarrow> (ps, [], Next True)
      | Ready (Received frame) \<Rightarrow>
          (case accept limit (ps_assembly ps) frame of
             (a, Inr (Some m)) \<Rightarrow>
               if ps_input_open ps
               then if ob_sent ob then (ps\<lparr>ps_assembly := a\<rparr>, [Delivered m], Next True)
                    else (ps\<lparr>ps_assembly := a, ps_input_open := False\<rparr>, [], Next True)
               else (ps\<lparr>ps_assembly := a\<rparr>, [], Next True)
           | (a, Inr None) \<Rightarrow> (ps\<lparr>ps_assembly := a\<rparr>, [], Next True)
           | (a, Inl error) \<Rightarrow>
               (case report_error is_overflow display limit error of (reason, e) \<Rightarrow>
                  (ps\<lparr>ps_assembly := a\<rparr>, [e], Finished (Some (Some reason)))))
      | Ready (Decoder_Error error) \<Rightarrow>
          (case report_error is_overflow display limit error of (reason, e) \<Rightarrow>
             (ps, [e], Finished (Some (Some reason))))
      | Ready Write_Backpressure \<Rightarrow> (ps, [], Next False)
      | Pending \<Rightarrow> (ps, [], Next False)
      | Ready Io_Failure \<Rightarrow> (ps, [], Finished None))"

definition pump_input ::
  "('pe \<Rightarrow> bool) \<Rightarrow> ('pe \<Rightarrow> string) \<Rightarrow> nat \<Rightarrow> 'pe pump_obs \<Rightarrow> pump_state \<Rightarrow>
   pump_state \<times> effect list \<times> outcome" where
  "pump_input is_overflow display limit ob ps =
     (if ob_flush_again ob \<noteq> Ready True then (ps, [], Next False)
      else if \<not> ps_input_open ps then pump_receive is_overflow display limit ob ps
      else (case ob_input ob of
              Pending \<Rightarrow> (ps, [Paused], Next False)
            | Ready True \<Rightarrow> pump_receive is_overflow display limit ob ps
            | Ready False \<Rightarrow> pump_receive is_overflow display limit ob (ps\<lparr>ps_input_open := False\<rparr>)))"

text \<open>One round of the loop.\<close>

definition pump_round ::
  "('pe \<Rightarrow> bool) \<Rightarrow> ('pe \<Rightarrow> string) \<Rightarrow> nat \<Rightarrow> 'pe pump_obs \<Rightarrow> pump_state \<Rightarrow>
   pump_state \<times> effect list \<times> outcome" where
  "pump_round is_overflow display limit ob ps =
     (if ob_disconnected ob then (ps, [], Finished None)
      else case pump_output ob of
             (es, Finished r) \<Rightarrow> (ps, es, Finished r)
           | (es, Next progress) \<Rightarrow>
               (case pump_input is_overflow display limit ob ps of
                  (ps', es', Finished r) \<Rightarrow> (ps', es @ es', Finished r)
                | (ps', es', Next progress') \<Rightarrow> (ps', es @ es', Next (progress \<or> progress'))))"

datatype poll_end = Done "close_reason option option" | Asleep | Self_Woken

text \<open>One poll of the task: at most \<open>fuel\<close> rounds (32 in the code); \<open>obs k\<close> is what round \<open>k\<close> observes.
  It ends with a result, asleep until something it polled wakes it, or having woken itself.\<close>

fun pump_poll ::
  "('pe \<Rightarrow> bool) \<Rightarrow> ('pe \<Rightarrow> string) \<Rightarrow> nat \<Rightarrow> nat \<Rightarrow> (nat \<Rightarrow> 'pe pump_obs) \<Rightarrow> pump_state \<Rightarrow>
   pump_state \<times> effect list \<times> poll_end" where
  "pump_poll is_overflow display limit 0 obs ps = (ps, [], Self_Woken)"
| "pump_poll is_overflow display limit (Suc fuel) obs ps =
     (case pump_round is_overflow display limit (obs 0) ps of
        (ps', es, Finished r) \<Rightarrow> (ps', es, Done r)
      | (ps', es, Next False) \<Rightarrow> (ps', es, Asleep)
      | (ps', es, Next True) \<Rightarrow>
          (case pump_poll is_overflow display limit fuel (\<lambda>k. obs (Suc k)) ps' of
             (ps'', es', r) \<Rightarrow> (ps'', es @ es', r)))"

definition PUMP_ROUNDS :: nat where "PUMP_ROUNDS = 32"

definition pump_start :: pump_state where
  "pump_start = \<lparr>ps_assembly = None, ps_input_open = True\<rparr>"

section \<open>Offers\<close>

text \<open>The protocols a client offers, over all fields in order: the nonempty elements of the lists.\<close>

definition offers_of :: "('hv \<Rightarrow> string option) \<Rightarrow> 'hv list \<Rightarrow> string list" where
  "offers_of to_str fds =
     filter (\<lambda>p. p \<noteq> []) (concat (map (\<lambda>f. case to_str f of
         Some v \<Rightarrow> map (trim_matches is_ows) (split_on (CHR '','') v) | None \<Rightarrow> []) fds))"

lemma offer_parts_Inr:
  "distinct seen \<Longrightarrow> offer_parts seen parts = Inr r \<longleftrightarrow>
     (let ps = filter (\<lambda>p. p \<noteq> []) (map (trim_matches is_ows) parts)
      in r = seen @ ps \<and> list_all is_token ps \<and> distinct r)"
proof (induction seen parts rule: offer_parts.induct)
  case (2 seen part parts)
  let ?p = "trim_matches is_ows part"
  show ?case
  proof (cases "?p = [] \<or> (is_token ?p \<and> ?p \<notin> set seen)")
    case True
    with 2 show ?thesis by (auto simp: Let_def)
  next
    case False
    then show ?thesis by (auto simp: Let_def)
  qed
qed (auto simp: Let_def)

lemma offer_fields_Inr:
  "distinct seen \<Longrightarrow> offer_fields to_str seen fds = Inr r \<longleftrightarrow>
     list_all (\<lambda>f. to_str f \<noteq> None) fds \<and> r = seen @ offers_of to_str fds
     \<and> list_all is_token (offers_of to_str fds) \<and> distinct r"
proof (induction fds arbitrary: seen)
  case (Cons f fs)
  show ?case
  proof (cases "to_str f")
    case (Some v)
    define ps where "ps = filter (\<lambda>p. p \<noteq> []) (map (trim_matches is_ows) (split_on (CHR '','') v))"
    have o: "offers_of to_str (f # fs) = ps @ offers_of to_str fs"
      using Some by (simp add: offers_of_def ps_def)
    have parts: "offer_parts seen (split_on (CHR '','') v) = Inr s \<longleftrightarrow>
        s = seen @ ps \<and> list_all is_token ps \<and> distinct s" for s
      using offer_parts_Inr [OF Cons.prems, of "split_on (CHR '','') v" s] by (simp add: ps_def Let_def)
    have "offer_fields to_str seen (f # fs) = Inr r \<longleftrightarrow>
        list_all is_token ps \<and> distinct (seen @ ps) \<and> offer_fields to_str (seen @ ps) fs = Inr r"
      using Some by (simp add: res_bind_Inr_iff parts)
    also have "\<dots> \<longleftrightarrow> list_all is_token ps \<and> distinct (seen @ ps) \<and> list_all (\<lambda>f. to_str f \<noteq> None) fs
        \<and> r = (seen @ ps) @ offers_of to_str fs \<and> list_all is_token (offers_of to_str fs) \<and> distinct r"
      using Cons.IH [of "seen @ ps"] by blast
    finally show ?thesis unfolding o using Some by auto
  qed simp
qed (auto simp: offers_of_def)

lemma handshake_accepted:
  "verify_handshake to_str as_bytes decode16 req = Inr protocols \<longleftrightarrow>
     wr_method req = ''GET'' \<and> wr_version req = Http_11
     \<and> has_token to_str req ''upgrade'' ''websocket'' \<and> has_token to_str req ''connection'' ''upgrade''
     \<and> (\<exists>v. wr_headers req ''sec-websocket-version'' = [v] \<and> as_bytes v \<in> {''13'', ''8'', ''7''})
     \<and> (\<exists>k. wr_headers req ''sec-websocket-key'' = [k] \<and> decode16 (as_bytes k) = Some 16)
     \<and> list_all (\<lambda>f. to_str f \<noteq> None) (wr_headers req ''sec-websocket-protocol'')
     \<and> protocols = offers_of to_str (wr_headers req ''sec-websocket-protocol'')
     \<and> list_all is_token protocols \<and> distinct protocols
     \<and> (wr_headers req ''sec-websocket-protocol'' = [] \<or> protocols \<noteq> [])"
proof -
  let ?f = "wr_headers req ''sec-websocket-protocol''"
  have fds: "res_bind (offer_fields to_str [] ?f) (\<lambda>ps. if ?f \<noteq> [] \<and> ps = [] then Inl NoWebsocketUpgrade else Inr ps)
      = Inr protocols \<longleftrightarrow>
      list_all (\<lambda>f. to_str f \<noteq> None) ?f \<and> protocols = offers_of to_str ?f
      \<and> list_all is_token protocols \<and> distinct protocols \<and> (?f = [] \<or> protocols \<noteq> [])"
    using offer_fields_Inr [of "[]" to_str ?f] by (auto simp: res_bind_Inr_iff split: if_splits)
  show ?thesis
    unfolding verify_handshake_def
    by (cases "wr_headers req ''sec-websocket-version''"; cases "wr_headers req ''sec-websocket-key''")
      (simp_all add: fds del: insert_iff, auto)
qed

section \<open>What a poll reads\<close>

text \<open>The frame a round reads: only when the peer is there, the output half neither failed nor ended, the
  transport has flushed and the input channel can take a message.\<close>

definition round_frame :: "'pe pump_obs \<Rightarrow> ws_frame option" where
  "round_frame ob =
     (if \<not> ob_disconnected ob \<and> (\<exists>p. snd (pump_output ob) = Next p) \<and> ob_flush_again ob = Ready True
         \<and> ob_input ob = Ready True
      then (case ob_recv ob of Ready (Received f) \<Rightarrow> Some f | _ \<Rightarrow> None) else None)"

text \<open>The frames a poll reads.\<close>

fun poll_frames ::
  "('pe \<Rightarrow> bool) \<Rightarrow> ('pe \<Rightarrow> string) \<Rightarrow> nat \<Rightarrow> nat \<Rightarrow> (nat \<Rightarrow> 'pe pump_obs) \<Rightarrow> pump_state \<Rightarrow> ws_frame list" where
  "poll_frames is_overflow display limit 0 obs ps = []"
| "poll_frames is_overflow display limit (Suc fuel) obs ps =
     (case round_frame (obs 0) of Some f \<Rightarrow> [f] | None \<Rightarrow> [])
     @ (case pump_round is_overflow display limit (obs 0) ps of
          (ps', _, Next True) \<Rightarrow> poll_frames is_overflow display limit fuel (\<lambda>k. obs (Suc k)) ps'
        | _ \<Rightarrow> [])"

fun delivered_of :: "effect list \<Rightarrow> bytes list" where
  "delivered_of [] = []"
| "delivered_of (Delivered m # es) = m # delivered_of es"
| "delivered_of (_ # es) = delivered_of es"

lemma delivered_append [simp]: "delivered_of (es @ es') = delivered_of es @ delivered_of es'"
  by (induction es rule: delivered_of.induct) auto

lemma pump_output_delivers [simp]: "delivered_of (fst (pump_output ob)) = []"
  by (auto simp: pump_output_def split: poll.splits option.splits bool.splits)

definition reader_ready :: "'pe pump_obs \<Rightarrow> bool" where
  "reader_ready ob \<longleftrightarrow> ob_sent ob \<and> ob_input ob \<noteq> Ready False"

lemma pump_receive_frame:
  fixes is_overflow :: "'pe \<Rightarrow> bool"
  assumes "ob_recv ob = Ready (Received f)" "ps_input_open ps" "ob_sent ob"
    and "pump_receive is_overflow display limit ob ps = (ps', es, out)"
  shows "(out = Next True \<and> ps_input_open ps' \<and>
       (\<forall>fs. fst (deliver limit (ps_assembly ps) (f # fs) :: bytes list \<times> assembly \<times> 'pe frame_error option)
           = delivered_of es @ fst (deliver limit (ps_assembly ps') fs :: bytes list \<times> assembly \<times> 'pe frame_error option)))
     \<or> (\<exists>r. out = Finished r \<and> delivered_of es = []
          \<and> fst (deliver limit (ps_assembly ps) [f] :: bytes list \<times> assembly \<times> 'pe frame_error option) = [])"
proof (cases "is_ping_pong f \<or> (\<exists>r. f = Close r)")
  case True
  with assms show ?thesis by (cases f) (auto simp: pump_receive_def)
next
  case False
  then have f: "\<not> is_ping_pong f" "\<forall>r. f \<noteq> Close r" by auto
  obtain a r where acc: "accept limit (ps_assembly ps) f = (a, r :: 'pe frame_error + bytes option)" by force
  have rcv: "pump_receive is_overflow display limit ob ps =
     (case r of
        Inr (Some m) \<Rightarrow> (ps\<lparr>ps_assembly := a\<rparr>, [Delivered m], Next True)
      | Inr None \<Rightarrow> (ps\<lparr>ps_assembly := a\<rparr>, [], Next True)
      | Inl error \<Rightarrow>
          (case report_error is_overflow display limit error of (reason, e) \<Rightarrow>
             (ps\<lparr>ps_assembly := a\<rparr>, [e], Finished (Some (Some reason)))))"
    using f assms(1-3) acc by (cases f) (auto simp: pump_receive_def split: sum.splits option.splits)
  show ?thesis
    using assms(2,4) acc
    by (auto simp: rcv deliver_message [OF f] report_error_def Let_def split: sum.splits option.splits prod.splits)
qed

lemma pump_receive_quiet:
  assumes "\<forall>f. ob_recv ob \<noteq> Ready (Received f)" "pump_receive is_overflow display limit ob ps = (ps', es, out)"
  shows "delivered_of es = [] \<and> ps' = ps"
  using assms
  by (auto simp: pump_receive_def report_error_def Let_def split: poll.splits recv.splits)

text \<open>A round either reads nothing and delivers nothing, or hands its one frame to the input half.\<close>

lemma pump_round_cases:
  assumes "ps_input_open ps" "reader_ready ob" "pump_round is_overflow display limit ob ps = (ps', es, out)"
  shows "(round_frame ob = None \<and> delivered_of es = [] \<and> ps' = ps)
     \<or> (\<exists>f es0 out'. round_frame ob = Some f \<and> ob_recv ob = Ready (Received f)
          \<and> pump_receive is_overflow display limit ob ps = (ps', es0, out') \<and> delivered_of es = delivered_of es0
          \<and> (out' = Next True \<longrightarrow> out = Next True) \<and> (\<forall>r. out' = Finished r \<longrightarrow> out = Finished r))"
proof (cases "ob_disconnected ob")
  case True
  with assms(3) show ?thesis by (auto simp: pump_round_def round_frame_def)
next
  case conn: False
  obtain es1 out1 where o: "pump_output ob = (es1, out1)" by force
  have d1: "delivered_of es1 = []" using pump_output_delivers [of ob] o by simp
  show ?thesis
  proof (cases out1)
    case (Finished r)
    with assms(3) conn o d1 show ?thesis by (auto simp: pump_round_def round_frame_def)
  next
    case (Next p)
    obtain ps2 es2 out2 where i: "pump_input is_overflow display limit ob ps = (ps2, es2, out2)"
      by (metis prod_cases3)
    have r: "ps' = ps2" "delivered_of es = delivered_of es2"
      "out2 = Next True \<longrightarrow> out = Next True" "\<forall>r. out2 = Finished r \<longrightarrow> out = Finished r"
      using assms(3) conn o Next i d1 by (auto simp: pump_round_def split: outcome.splits)
    show ?thesis
    proof (cases "ob_flush_again ob = Ready True \<and> ob_input ob = Ready True")
      case True
      with assms(1) i have rcv: "pump_receive is_overflow display limit ob ps = (ps2, es2, out2)"
        by (simp add: pump_input_def)
      show ?thesis
      proof (cases "\<exists>f. ob_recv ob = Ready (Received f)")
        case True
        with rcv r conn o Next \<open>ob_flush_again ob = Ready True \<and> ob_input ob = Ready True\<close> show ?thesis
          by (auto simp: round_frame_def)
      next
        case False
        with pump_receive_quiet [OF _ rcv] r show ?thesis
          by (auto simp: round_frame_def split: poll.splits recv.splits)
      qed
    next
      case False
      with assms(1,2) i r show ?thesis
        by (auto simp: pump_input_def reader_ready_def round_frame_def split: if_splits poll.splits bool.splits)
    qed
  qed
qed

lemma pump_poll_delivers:
  fixes is_overflow :: "'pe \<Rightarrow> bool"
  assumes "ps_input_open ps" "\<forall>k. reader_ready (obs k)"
    and "pump_poll is_overflow display limit fuel obs ps = (ps', es, res)"
  shows "delivered_of es =
     fst (deliver limit (ps_assembly ps) (poll_frames is_overflow display limit fuel obs ps)
       :: bytes list \<times> assembly \<times> 'pe frame_error option)"
  using assms
proof (induction fuel arbitrary: obs ps es)
  case (Suc fuel)
  obtain ps1 es1 out where rd: "pump_round is_overflow display limit (obs 0) ps = (ps1, es1, out)"
    by (metis prod_cases3)
  note rc = pump_round_cases [OF Suc.prems(1) spec [OF Suc.prems(2)] rd]
  have step: "\<exists>es2. pump_poll is_overflow display limit fuel (\<lambda>k. obs (Suc k)) ps1 = (ps', es2, res) \<and> es = es1 @ es2"
    if "out = Next True"
    using Suc.prems(3) rd that by (auto split: prod.splits)
  have stop: "es = es1" if "out \<noteq> Next True"
    using Suc.prems(3) rd that by (cases out) (auto split: bool.splits)
  have IH: "delivered_of es2 = fst (deliver limit (ps_assembly ps1)
        (poll_frames is_overflow display limit fuel (\<lambda>k. obs (Suc k)) ps1) :: bytes list \<times> assembly \<times> 'pe frame_error option)"
    if "ps_input_open ps1" "pump_poll is_overflow display limit fuel (\<lambda>k. obs (Suc k)) ps1 = (ps', es2, res)" for es2
    using Suc.IH [OF that(1) _ that(2)] Suc.prems(2) by simp
  from rc show ?case
  proof (elim disjE exE conjE)
    assume n: "round_frame (obs 0) = None" "delivered_of es1 = []" "ps1 = ps"
    show ?thesis
    proof (cases "out = Next True")
      case True
      with step IH n Suc.prems(1) rd show ?thesis by auto
    next
      case False
      with stop n rd show ?thesis by (cases out) (auto split: bool.splits)
    qed
  next
    fix f es0 out'
    assume f: "round_frame (obs 0) = Some f" "ob_recv (obs 0) = Ready (Received f)"
      "pump_receive is_overflow display limit (obs 0) ps = (ps1, es0, out')" "delivered_of es1 = delivered_of es0"
      "out' = Next True \<longrightarrow> out = Next True" "\<forall>r. out' = Finished r \<longrightarrow> out = Finished r"
    have "ob_sent (obs 0)" using Suc.prems(2) by (simp add: reader_ready_def)
    from pump_receive_frame [OF f(2) Suc.prems(1) this f(3)] show ?thesis
    proof (elim disjE exE conjE)
      assume g: "out' = Next True" "ps_input_open ps1"
        "\<forall>fs. fst (deliver limit (ps_assembly ps) (f # fs) :: bytes list \<times> assembly \<times> 'pe frame_error option)
           = delivered_of es0 @ fst (deliver limit (ps_assembly ps1) fs :: bytes list \<times> assembly \<times> 'pe frame_error option)"
      with step IH f rd show ?thesis by auto
    next
      fix r
      assume "out' = Finished r" "delivered_of es0 = []"
        "fst (deliver limit (ps_assembly ps) [f] :: bytes list \<times> assembly \<times> 'pe frame_error option) = []"
      with stop f rd show ?thesis by auto
    qed
  qed
qed simp

lemma pump_output_effects:
  "Wrote_Binary b \<in> set (fst (pump_output ob)) \<Longrightarrow> ob_flush ob = Ready True"
  "e \<in> set (fst (pump_output ob)) \<Longrightarrow> \<exists>b. e = Wrote_Binary b"
  by (auto simp: pump_output_def split: poll.splits option.splits bool.splits if_splits)

lemma pump_receive_effects:
  assumes "e \<in> set es" "pump_receive is_overflow display limit ob ps = (ps', es, out)" "assembly_ok limit (ps_assembly ps)"
  shows "length es = 1 \<and> (\<forall>b. e \<noteq> Wrote_Binary b)
    \<and> (\<forall>m. e = Delivered m \<longrightarrow> ps_input_open ps \<and> ob_sent ob \<and> length m \<le> limit)"
  using assms
  by (auto simp: pump_receive_def report_error_def Let_def dest: accept_bounded [OF assms(3)]
      split: poll.splits recv.splits ws_frame.splits prod.splits sum.splits option.splits if_splits)

lemma pump_input_effects:
  assumes "e \<in> set es" "pump_input is_overflow display limit ob ps = (ps', es, out)" "assembly_ok limit (ps_assembly ps)"
  shows "length es = 1 \<and> (\<forall>b. e \<noteq> Wrote_Binary b) \<and> ob_flush_again ob = Ready True
    \<and> (\<forall>m. e = Delivered m \<longrightarrow> ps_input_open ps \<and> ob_input ob = Ready True \<and> ob_sent ob \<and> length m \<le> limit)"
  using assms pump_receive_effects [OF assms(1)]
  by (fastforce simp: pump_input_def split: if_splits poll.splits bool.splits)

section \<open>Properties\<close>

text \<open>C33: the handshake is accepted exactly on the conditions of RFC 6455. An upgrade is accepted if and only
  if it is a GET over HTTP/1.1 with the upgrade and connection tokens, exactly one supported version and
  exactly one key that decodes to 16 bytes, and the offered subprotocols over all fields, empty list
  elements ignored, are distinct tokens and not empty when a field is present; the result is these offers
  in order.\<close>

theorem handshake_accepted_iff:
  "verify_handshake to_str as_bytes decode16 req = Inr protocols \<longleftrightarrow>
     wr_method req = ''GET'' \<and> wr_version req = Http_11
     \<and> has_token to_str req ''upgrade'' ''websocket'' \<and> has_token to_str req ''connection'' ''upgrade''
     \<and> (\<exists>v. wr_headers req ''sec-websocket-version'' = [v] \<and> as_bytes v \<in> {''13'', ''8'', ''7''})
     \<and> (\<exists>k. wr_headers req ''sec-websocket-key'' = [k] \<and> decode16 (as_bytes k) = Some 16)
     \<and> list_all (\<lambda>f. to_str f \<noteq> None) (wr_headers req ''sec-websocket-protocol'')
     \<and> protocols = offers_of to_str (wr_headers req ''sec-websocket-protocol'')
     \<and> list_all is_token protocols \<and> distinct protocols
     \<and> (wr_headers req ''sec-websocket-protocol'' = [] \<or> protocols \<noteq> [])"
  by (rule handshake_accepted)

text \<open>A browser's upgrade request that offers two subprotocols.\<close>

definition demo_upgrade :: "string ws_request" where
  "demo_upgrade = \<lparr>wr_method = ''GET'', wr_version = Http_11,
     wr_headers = (\<lambda>n. if n = ''upgrade'' then [''websocket'']
        else if n = ''connection'' then [''keep-alive, Upgrade'']
        else if n = ''sec-websocket-version'' then [''13'']
        else if n = ''sec-websocket-key'' then [''key'']
        else if n = ''sec-websocket-protocol'' then [''a, b''] else [])\<rparr>"

theorem handshake_accepted_iff_witness:
  "verify_handshake Some (\<lambda>v. v) (\<lambda>_. Some 16) demo_upgrade = Inr [''a'', ''b'']"
  by (rule handshake_accepted_iff [THEN iffD2])
    (simp add: demo_upgrade_def offers_of_def has_token_def str_trim_def trim_matches_def is_ws_def
      eq_ignore_ascii_case_def to_ascii_lowercase_def is_ascii_upper_def is_ows_def is_token_def is_token_char_def
      is_ascii_alphabetic_def is_ascii_lower_def is_ascii_digit_def char_of_def bit_simps)

text \<open>Only an offered subprotocol is ever echoed. When the upgrade response carries a subprotocol, it is
  the configured one, a legal token, and one the client offered.\<close>

theorem echoed_subprotocol_offered:
  assumes "ws_start to_str as_bytes decode16 hv_from_str state take_io encode_ok req = Inr (Some v, n)"
  shows "\<exists>protocol. ws_subprotocol (configured state) = Some protocol \<and> hv_from_str protocol = Some v
     \<and> is_token protocol \<and> protocol \<in> set (offers_of to_str (wr_headers req ''sec-websocket-protocol''))"
proof -
  from assms obtain offered where off: "verify_handshake to_str as_bytes decode16 req = Inr offered"
    and sel: "selected_subprotocol hv_from_str (configured state) offered = Some v"
    by (auto simp: ws_start_def res_bind_Inr_iff split: if_splits)
  then show ?thesis
    by (auto simp: handshake_accepted selected_subprotocol_def list_all_iff split: option.splits if_splits)
qed

theorem echoed_subprotocol_offered_witness:
  "''b'' \<in> set (offers_of Some (wr_headers demo_upgrade ''sec-websocket-protocol''))"
proof -
  have "ws_start Some (\<lambda>v. v) (\<lambda>_. Some 16) Some (Some (with_ws_subprotocol config_new ''b'')) True True demo_upgrade
      = Inr (Some ''b'', ws_channel_buffer config_new)"
    by (simp add: ws_start_def verify_handshake_def demo_upgrade_def has_token_def str_trim_def trim_matches_def is_ws_def
        eq_ignore_ascii_case_def to_ascii_lowercase_def is_ascii_upper_def is_ows_def is_token_def is_token_char_def
        is_ascii_alphabetic_def is_ascii_lower_def is_ascii_digit_def configured_def with_ws_subprotocol_def
        selected_subprotocol_def config_new_def char_of_def bit_simps)
  from echoed_subprotocol_offered [OF this] show ?thesis
    by (simp add: configured_def with_ws_subprotocol_def)
qed

text \<open>C32: the connection task delivers the messages of the frames it reads, in order. While the application
  keeps reading its input, one poll of the task hands it exactly the messages that reassembling the frames
  read by that poll yields, none lost, duplicated or reordered, and reading stops at the first error or
  close frame.\<close>

theorem pump_delivers_in_order:
  fixes is_overflow :: "'pe \<Rightarrow> bool"
  assumes "ps_input_open ps" and "\<forall>k. reader_ready (obs k)"
    and "pump_poll is_overflow display limit PUMP_ROUNDS obs ps = (ps', es, res)"
  shows "delivered_of es =
     fst (deliver limit (ps_assembly ps) (poll_frames is_overflow display limit PUMP_ROUNDS obs ps)
       :: bytes list \<times> assembly \<times> 'pe frame_error option)"
  using assms by (rule pump_poll_delivers)

definition demo_obs :: "nat \<Rightarrow> unit pump_obs" where
  "demo_obs k = \<lparr>ob_disconnected = False, ob_flush = Ready True, ob_output = Pending, ob_encode = True,
     ob_flush_again = Ready True, ob_input = Ready True,
     ob_recv = (if k = 0 then Ready (Received (Binary [7])) else Pending), ob_sent = True\<rparr>"

theorem pump_delivers_in_order_witness:
  "[[7]] = fst (deliver 10 None (poll_frames (\<lambda>_. False) (\<lambda>_. []) 10 PUMP_ROUNDS demo_obs pump_start)
       :: bytes list \<times> assembly \<times> unit frame_error option)"
proof -
  have "\<forall>k. reader_ready (demo_obs k)" by (simp add: reader_ready_def demo_obs_def)
  moreover have "pump_poll (\<lambda>_. False) (\<lambda>_. []) 10 PUMP_ROUNDS demo_obs pump_start
      = (pump_start, [Delivered [7]], Asleep)"
    by (simp add: PUMP_ROUNDS_def numeral_eq_Suc pump_round_def pump_output_def pump_input_def pump_receive_def
        demo_obs_def pump_start_def)
  ultimately show ?thesis
    using pump_delivers_in_order [of pump_start demo_obs "\<lambda>_. False" "\<lambda>_. []" 10] by (simp add: pump_start_def)
qed

text \<open>Flow control of the connection task. In one round it writes at most one application message, and
  only after the transport has flushed; it hands over at most one message, and only if the input channel
  announced room and the transport could flush again, so nothing is decoded that could not be delivered;
  and no message above the limit is handed over.\<close>

theorem pump_round_flow_control:
  assumes "assembly_ok limit (ps_assembly ps)" and "pump_round is_overflow display limit ob ps = (ps', es, out)"
  shows "length es \<le> 2
     \<and> (\<forall>b. Wrote_Binary b \<in> set es \<longrightarrow> ob_flush ob = Ready True)
     \<and> (\<forall>b. Wrote_Pong b \<in> set es \<longrightarrow> ob_flush_again ob = Ready True)
     \<and> (\<forall>m. Delivered m \<in> set es \<longrightarrow>
          ps_input_open ps \<and> ob_input ob = Ready True \<and> ob_flush_again ob = Ready True \<and> length m \<le> limit)"
proof (cases "ob_disconnected ob")
  case True
  with assms(2) show ?thesis by (simp add: pump_round_def)
next
  case False
  obtain es1 out1 ps2 es2 out2 where o: "pump_output ob = (es1, out1)"
    and i: "pump_input is_overflow display limit ob ps = (ps2, es2, out2)"
    by (metis prod_cases3 surj_pair)
  have es: "es = es1 \<or> es = es1 @ es2"
    using assms(2) False o i by (auto simp: pump_round_def split: outcome.splits)
  have l: "length es1 \<le> 1"
    using o by (auto simp: pump_output_def split: poll.splits option.splits bool.splits if_splits)
  have l2: "length es2 \<le> 1"
    using pump_input_effects [OF _ i assms(1)] by (cases es2) auto
  show ?thesis
    using es l l2 o pump_output_effects [of _ ob] pump_input_effects [OF _ i assms(1)] by fastforce
qed

theorem pump_round_flow_control_witness:
  "length [Delivered [7]] \<le> 2 \<and> ob_input (demo_obs 0) = Ready True"
proof -
  have r: "pump_round (\<lambda>_. False) (\<lambda>_. []) 10 (demo_obs 0) pump_start = (pump_start, [Delivered [7]], Next True)"
    by (simp add: pump_round_def pump_output_def pump_input_def pump_receive_def demo_obs_def pump_start_def)
  have "assembly_ok 10 (ps_assembly pump_start)" by (simp add: assembly_ok_def pump_start_def)
  from pump_round_flow_control [OF this r] show ?thesis by simp
qed

end
