(* ===== verification/Dispatch.thy ===== *)
theory Dispatch
  imports Response Registry Payload Ws_Connection
begin

text \<open>
  Dispatch of server functions (\<^verbatim>\<open>src/server_fn/handlers.rs\<close>): the same-origin policy for
  redirects of the server-function layer, the post-processing of the function's response, and the two
  routes that lead to it.

  A request is what the dispatcher reads of it: path, method, header values, connection scheme and host.
  The server function itself, its library and the URI parser are third-party: the run of a service is its
  result, \<open>parse_uri\<close> yields scheme, authority and path-and-query.
\<close>

section \<open>Same-origin locations\<close>

record uri =
  uri_scheme :: "string option"
  uri_authority :: "string option"
  uri_path_and_query :: "string option"

definition leading_slash_local :: "string \<Rightarrow> bool" where
  "leading_slash_local v =
     (case v of
        [] \<Rightarrow> False
      | c # r \<Rightarrow> c = CHR ''/'' \<and>
          (case r of [] \<Rightarrow> True | d # _ \<Rightarrow> \<not> (byte_of d = 47 \<or> byte_of d = 92)))"

definition same_origin_location ::
  "('hv \<Rightarrow> string option) \<Rightarrow> (string \<Rightarrow> 'hv option) \<Rightarrow> (string \<Rightarrow> uri option) \<Rightarrow> string \<Rightarrow> string \<Rightarrow> 'hv \<Rightarrow> 'hv option" where
  "same_origin_location to_str hv_from_str parse_uri conn_scheme conn_host v =
     Option.bind (to_str v) (\<lambda>value.
       if leading_slash_local value then hv_from_str value
       else Option.bind (parse_uri value) (\<lambda>u.
         Option.bind (uri_scheme u) (\<lambda>scheme.
         Option.bind (uri_authority u) (\<lambda>authority.
           if \<not> eq_ignore_ascii_case scheme conn_scheme \<or> \<not> eq_ignore_ascii_case authority conn_host then None
           else hv_from_str (case uri_path_and_query u of Some pq \<Rightarrow> pq | None \<Rightarrow> ''/'')))))"

definition location_matches_referrer :: "('hv \<Rightarrow> string option) \<Rightarrow> 'hv \<Rightarrow> 'hv \<Rightarrow> bool" where
  "location_matches_referrer to_str location referrer =
     (case to_str location of
        None \<Rightarrow> False
      | Some l \<Rightarrow> (case to_str referrer of
                     None \<Rightarrow> False
                   | Some r \<Rightarrow> l = r \<or> strip_suffix ''?'' l = Some r))"

section \<open>Post-processing\<close>

text \<open>\<open>error_header\<close> is the header by which the server-function library marks an error response.\<close>

definition reset_status_after_redirect_strip ::
  "('hm, 'hv) header_ops \<Rightarrow> string \<Rightarrow> ('hm, 'b) http_response \<Rightarrow> ('hm, 'b) http_response" where
  "reset_status_after_redirect_strip h error_header res =
     (if is_redirection (rs_status res)
      then res\<lparr>rs_status := (if h_get h (rs_headers res) error_header \<noteq> None then 500 else 200)\<rparr>
      else res)"

definition strip_location ::
  "('hm, 'hv) header_ops \<Rightarrow> string \<Rightarrow> ('hm, 'b) http_response \<Rightarrow> ('hm, 'b) http_response" where
  "strip_location h error_header res =
     reset_status_after_redirect_strip h error_header
       (res\<lparr>rs_headers := h_remove h (rs_headers res) ''location''\<rparr>)"

definition found_at ::
  "('hm, 'hv) header_ops \<Rightarrow> 'hv \<Rightarrow> ('hm, 'b) http_response \<Rightarrow> ('hm, 'b) http_response" where
  "found_at h location res = res\<lparr>rs_status := FOUND, rs_headers := h_insert h (rs_headers res) ''location'' location\<rparr>"

record 'hv sf_request =
  q_path :: string
  q_method :: string
  q_content_length :: "'hv option"
  q_accept :: "'hv option"
  q_referer :: "'hv option"
  q_scheme :: string
  q_host :: string

text \<open>The third-party functions the dispatcher calls.\<close>

record ('hm, 'hv) libs =
  l_headers :: "('hm, 'hv) header_ops"
  l_to_str :: "'hv \<Rightarrow> string option"
  l_from_str :: "string \<Rightarrow> 'hv option"
  l_parse_uri :: "string \<Rightarrow> uri option"
  l_parse_mime :: "string \<Rightarrow> media option"
  l_error_header :: string

definition same_origin :: "('hm, 'hv) libs \<Rightarrow> 'hv sf_request \<Rightarrow> 'hv \<Rightarrow> 'hv option" where
  "same_origin l req v =
     same_origin_location (l_to_str l) (l_from_str l) (l_parse_uri l) (q_scheme req) (q_host req) v"

text \<open>The form-redirect repair for a client that accepts HTML.\<close>

definition fix_form_redirect ::
  "('hm, 'hv) libs \<Rightarrow> 'hv sf_request \<Rightarrow> ('hm, 'b) http_response \<Rightarrow> ('hm, 'b) http_response" where
  "fix_form_redirect l req res =
     (let h = l_headers l;
          referrer = Option.bind (q_referer req) (same_origin l req);
          location = h_get h (rs_headers res) ''location'';
          location_is_referrer =
            (case (q_referer req, location) of
               (Some raw, Some loc) \<Rightarrow> location_matches_referrer (l_to_str l) loc raw
             | _ \<Rightarrow> False)
      in if accepts_html (l_to_str l) (l_parse_mime l) (q_accept req)
         then if location_is_referrer
              then (case referrer of
                      Some r \<Rightarrow> found_at h r res
                    | None \<Rightarrow> strip_location h (l_error_header l) res)
              else if is_success (rs_status res) \<and> location = None
              then (case referrer of Some r \<Rightarrow> found_at h r res | None \<Rightarrow> res)
              else res
         else res)"

text \<open>The same-origin invariant: a location of the server-function layer that leaves the origin is removed.\<close>

definition enforce_same_origin ::
  "('hm, 'hv) libs \<Rightarrow> 'hv sf_request \<Rightarrow> ('hm, 'b) http_response \<Rightarrow> ('hm, 'b) http_response" where
  "enforce_same_origin l req res =
     (case h_get (l_headers l) (rs_headers res) ''location'' of
        Some location \<Rightarrow>
          if same_origin l req location = None then strip_location (l_headers l) (l_error_header l) res else res
      | None \<Rightarrow> res)"

text \<open>The outcome of running the service: the connection scope was cancelled, or a response, with the
  overrides captured meanwhile, the payload marker and a recorded handshake failure.\<close>

datatype ('hm, 'b) run =
    Cancelled
  | Ran "('hm, 'b) http_response" "'hm response_parts" bool "handshake_error option"

text \<open>\<open>dispatch_server_fn\<close> after the request has been registered with its scope (\<open>scoped\<close> says whether that
  succeeded; \<open>ok_empty\<close> and \<open>internal_error\<close> are the empty responses of the library, \<open>oversize\<close> and
  \<open>handshake_failed\<close> those of the adapter).\<close>

definition dispatch_server_fn ::
  "('hm, 'hv) libs \<Rightarrow> bool \<Rightarrow> ('hm, 'b) http_response \<Rightarrow> ('hm, 'b) http_response \<Rightarrow>
   (nat \<Rightarrow> ('hm, 'b) http_response) \<Rightarrow> (handshake_error \<Rightarrow> ('hm, 'b) http_response) \<Rightarrow>
   server_fn_config option \<Rightarrow> 'hv sf_request \<Rightarrow> ('hm, 'b) run \<Rightarrow> ('hm, 'b) http_response" where
  "dispatch_server_fn l scoped internal_error ok_empty oversize handshake_failed state req outcome =
     (if \<not> scoped then internal_error
      else case outcome of
             Cancelled \<Rightarrow> ok_empty
           | Ran res options too_large handshake \<Rightarrow>
               (case (if too_large then Some (oversize (payload_limit (configured state)))
                      else map_option handshake_failed handshake) of
                  Some failure \<Rightarrow> fst (finalize_error_response (l_headers l) failure options)
                | None \<Rightarrow>
                    fst (extend_response (l_headers l)
                          (enforce_same_origin l req (fix_form_redirect l req res)) options)))"

section \<open>Routes\<close>

definition oversize_body :: "nat \<Rightarrow> string" where
  "oversize_body limit = limit_message limit"

text \<open>\<open>handle_specific_server_fn_with_context\<close>: whether the preflight rejects the request.\<close>

datatype routed =
    Oversized nat
  | Dispatched
  | Bad_Request
  | Method_Not_Allowed string

definition specific_route :: "('hm, 'hv) libs \<Rightarrow> server_fn_config option \<Rightarrow> 'hv sf_request \<Rightarrow> routed" where
  "specific_route l state req =
     (let limit = payload_limit (configured state)
      in if content_length_exceeds (l_to_str l) (q_content_length req) limit then Oversized limit else Dispatched)"

fun join_with :: "string \<Rightarrow> string list \<Rightarrow> string" where
  "join_with sep [] = []"
| "join_with sep [s] = s"
| "join_with sep (s # ss) = s @ sep @ join_with sep ss"

text \<open>\<open>handle_server_fns_with_context\<close>: the decision, and the chunks of the body left unread when no
  function is dispatched.\<close>

definition catchall_route ::
  "('hm, 'hv) libs \<Rightarrow> server_fn_config option \<Rightarrow> 'f registry \<Rightarrow> 'hv sf_request \<Rightarrow> chunk list \<Rightarrow>
   routed \<times> chunk list" where
  "catchall_route l state reg req payload =
     (let limit = payload_limit (configured state)
      in if content_length_exceeds (l_to_str l) (q_content_length req) limit then (Oversized limit, payload)
         else case lookup_server_fn reg (q_path req) (q_method req) of
                Some f \<Rightarrow> (Dispatched, payload)
              | None \<Rightarrow>
                  let unread = drain_payload limit 0 payload;
                      allowed = server_fn_methods reg (q_path req)
                  in if allowed = [] then (Bad_Request, unread)
                     else (Method_Not_Allowed (join_with '', '' allowed), unread))"

section \<open>Responses of the server-function layer\<close>

text \<open>\<^verbatim>\<open>src/server_fn/response.rs\<close>: the error response, the content type and the redirect of the
  function's own response; an illegal header value leaves the response unchanged.\<close>

definition error_response ::
  "('hm, 'hv) libs \<Rightarrow> string \<Rightarrow> 'hv \<Rightarrow> 'b \<Rightarrow> ('hm, 'b) http_response" where
  "error_response l error_header path err =
     \<lparr>rs_status = 500, rs_headers = h_insert (l_headers l) (h_empty (l_headers l)) error_header path, rs_body = err\<rparr>"

definition res_content_type ::
  "('hm, 'hv) libs \<Rightarrow> ('hm, 'b) http_response \<Rightarrow> string \<Rightarrow> ('hm, 'b) http_response" where
  "res_content_type l res content_type =
     (case l_from_str l content_type of
        Some v \<Rightarrow> res\<lparr>rs_headers := h_insert (l_headers l) (rs_headers res) ''content-type'' v\<rparr>
      | None \<Rightarrow> res)"

definition res_redirect ::
  "('hm, 'hv) libs \<Rightarrow> ('hm, 'b) http_response \<Rightarrow> string \<Rightarrow> ('hm, 'b) http_response" where
  "res_redirect l res path =
     (case l_from_str l path of
        Some v \<Rightarrow> found_at (l_headers l) v res
      | None \<Rightarrow> res)"

section \<open>Lemmas\<close>

text \<open>The documented policy for a location of this layer: a path on this origin, or an absolute URI with the
  scheme and authority of the connection.\<close>

definition local_target :: "('hm, 'hv) libs \<Rightarrow> 'hv sf_request \<Rightarrow> 'hv \<Rightarrow> bool" where
  "local_target l req v \<longleftrightarrow>
     (\<exists>s. l_to_str l v = Some s \<and>
        (leading_slash_local s
         \<or> (\<exists>u scheme authority. l_parse_uri l s = Some u \<and> uri_scheme u = Some scheme
              \<and> uri_authority u = Some authority \<and> eq_ignore_ascii_case scheme (q_scheme req)
              \<and> eq_ignore_ascii_case authority (q_host req))))"

lemma same_origin_target: "same_origin l req v = Some r \<Longrightarrow> local_target l req v"
  by (auto simp: same_origin_def same_origin_location_def local_target_def Option.bind_eq_Some_conv
      split: if_splits)

lemma strip_location_get:
  assumes "header_laws (l_headers l)"
  shows "h_get_all (l_headers l) (rs_headers (strip_location (l_headers l) eh res)) k =
     (if k = ''location'' then [] else h_get_all (l_headers l) (rs_headers res) k)"
  by (simp add: strip_location_def reset_status_after_redirect_strip_def header_lawsD [OF assms])

lemma strip_location_status:
  assumes "header_laws (l_headers l)" "l_error_header l \<noteq> ''location''"
  shows "rs_status (strip_location (l_headers l) (l_error_header l) res) =
     (if is_redirection (rs_status res)
      then if h_get_all (l_headers l) (rs_headers res) (l_error_header l) \<noteq> [] then 500 else 200
      else rs_status res)"
  using assms
  by (auto simp: strip_location_def reset_status_after_redirect_strip_def h_get_def header_lawsD(4) split: list.splits)

lemma enforce_location:
  assumes "header_laws (l_headers l)"
    and "h_get (l_headers l) (rs_headers (enforce_same_origin l req res)) ''location'' = Some v"
  shows "local_target l req v"
proof (cases "h_get (l_headers l) (rs_headers res) ''location''")
  case None
  with assms(2) show ?thesis by (simp add: enforce_same_origin_def)
next
  case (Some loc)
  show ?thesis
  proof (cases "same_origin l req loc")
    case None
    with Some assms(2) show ?thesis
      by (simp add: enforce_same_origin_def h_get_def strip_location_get [OF assms(1)])
  next
    case (Some r)
    with \<open>h_get _ _ _ = Some loc\<close> assms(2) same_origin_target [OF Some] show ?thesis
      by (simp add: enforce_same_origin_def)
  qed
qed

definition marked_error :: "('hm, 'hv) libs \<Rightarrow> ('hm, 'b) http_response \<Rightarrow> bool" where
  "marked_error l res \<longleftrightarrow>
     h_get_all (l_headers l) (rs_headers res) (l_error_header l) \<noteq> [] \<and> \<not> is_success (rs_status res)"

lemma found_at_marked:
  assumes "header_laws (l_headers l)" "l_error_header l \<noteq> ''location''" "marked_error l res"
  shows "marked_error l (found_at (l_headers l) r res)"
  using assms(2,3) by (simp add: marked_error_def found_at_def FOUND_def is_success_def header_lawsD(2) [OF assms(1)])

lemma strip_location_marked:
  assumes "header_laws (l_headers l)" "l_error_header l \<noteq> ''location''" "marked_error l res"
  shows "marked_error l (strip_location (l_headers l) (l_error_header l) res)"
  using assms(2,3)
  by (simp add: marked_error_def strip_location_get [OF assms(1)] strip_location_status [OF assms(1,2)]
      is_success_def is_redirection_def)

lemma fix_form_redirect_marked:
  assumes "header_laws (l_headers l)" "l_error_header l \<noteq> ''location''" "marked_error l res"
  shows "marked_error l (fix_form_redirect l req res)"
  using assms found_at_marked [OF assms] strip_location_marked [OF assms]
  by (auto simp: fix_form_redirect_def Let_def split: option.splits)

lemma enforce_marked:
  assumes "header_laws (l_headers l)" "l_error_header l \<noteq> ''location''" "marked_error l res"
  shows "marked_error l (enforce_same_origin l req res)"
  using assms strip_location_marked [OF assms] by (auto simp: enforce_same_origin_def split: option.splits)

section \<open>Properties\<close>


definition demo_libs :: "((string \<times> string) list, string) libs" where
  "demo_libs = \<lparr>l_headers = list_headers, l_to_str = Some, l_from_str = Some, l_parse_uri = (\<lambda>_. None),
     l_parse_mime = (\<lambda>_. None), l_error_header = ''serverfnerror''\<rparr>"

definition demo_request :: "string sf_request" where
  "demo_request = \<lparr>q_path = ''/api/f'', q_method = ''POST'', q_content_length = None, q_accept = None,
     q_referer = None, q_scheme = ''https'', q_host = ''example.org''\<rparr>"

definition demo_res :: "nat \<Rightarrow> (string \<times> string) list \<Rightarrow> ((string \<times> string) list, unit) http_response" where
  "demo_res s hs = \<lparr>rs_status = s, rs_headers = hs, rs_body = ()\<rparr>"

lemma demo_dispatch:
  "dispatch_server_fn demo_libs True internal ok_empty oversize failed state demo_request
     (Ran (demo_res 302 [(''location'', ''/next'')]) (parts_default list_headers) False None)
   = demo_res 302 [(''location'', ''/next'')]"
  by (simp add: dispatch_server_fn_def demo_libs_def demo_request_def demo_res_def extend_response_def
      extend_response_parts_def parts_default_def fix_form_redirect_def accepts_html_def enforce_same_origin_def
      h_get_def list_headers_def same_origin_def same_origin_location_def leading_slash_local_def)


text \<open>A failed server function is never reported as a success. If the function's response carries the
  library's error mark and is not a success, then neither repairing the form redirect nor removing a
  cross-origin location turns it into one: the response that reaches the client still carries the mark
  and, unless the application itself chose a status, is not a 2xx.\<close>

theorem error_never_promoted:
  assumes "header_laws (l_headers l)" and "l_error_header l \<noteq> ''location''"
    and "h_get_all (l_headers l) (rs_headers res) (l_error_header l) \<noteq> []" and "\<not> is_success (rs_status res)"
    and "rp_status options = None"
  shows "\<not> is_success (rs_status (dispatch_server_fn l True internal ok_empty oversize failed state req
           (Ran res options False None)))
     \<and> h_get_all (l_headers l) (rs_headers (dispatch_server_fn l True internal ok_empty oversize failed state req
           (Ran res options False None))) (l_error_header l) \<noteq> []"
proof -
  have "marked_error l (enforce_same_origin l req (fix_form_redirect l req res))"
    using assms(3,4) by (intro enforce_marked fix_form_redirect_marked assms(1,2)) (simp add: marked_error_def)
  with assms(5) show ?thesis
    by (simp add: marked_error_def dispatch_server_fn_def extend_response_def extend_get [OF assms(1)] merged_def
        split: header_merge.splits)
      (simp add: extend_response_parts_def Let_def)
qed

theorem error_never_promoted_witness:
  "\<not> is_success (rs_status (dispatch_server_fn demo_libs True (demo_res 500 []) (demo_res 200 [])
      (\<lambda>_. demo_res 413 []) (\<lambda>_. demo_res 400 []) None demo_request
      (Ran (demo_res 302 [(''serverfnerror'', ''x''), (''location'', ''//evil'')]) (parts_default list_headers) False None)))"
proof -
  have "header_laws (l_headers demo_libs)" "l_error_header demo_libs \<noteq> ''location''"
    "h_get_all (l_headers demo_libs) (rs_headers (demo_res 302 [(''serverfnerror'', ''x''), (''location'', ''//evil'')]))
       (l_error_header demo_libs) \<noteq> []"
    "\<not> is_success (rs_status (demo_res 302 [(''serverfnerror'', ''x''), (''location'', ''//evil'')]))"
    "rp_status (parts_default list_headers) = None"
    by (simp_all add: demo_libs_def list_headers_laws demo_res_def is_success_def parts_default_def)
       (simp add: list_headers_def)
  from error_never_promoted [OF this] show ?thesis by blast
qed

text \<open>The catch-all route. A request whose declared length is too large or malformed is refused before
  its body is read; a registered path and method is dispatched with the body untouched; otherwise a body
  within the limit is read to its end, and the answer is 405 with exactly the methods registered for the
  path, each once, or 400 when there is none.\<close>

theorem catchall_route_decision:
  assumes "registry_ok reg" and "payload_limit (configured state) < usize_max"
  shows "case catchall_route l state reg req (map Inr blocks) of
      (Oversized n, rest) \<Rightarrow> content_length_exceeds (l_to_str l) (q_content_length req) n \<and> rest = map Inr blocks
    | (Dispatched, rest) \<Rightarrow> lookup_server_fn reg (q_path req) (q_method req) \<noteq> None \<and> rest = map Inr blocks
    | (Bad_Request, rest) \<Rightarrow>
        (\<forall>m. lookup_server_fn reg (q_path req) m = None)
        \<and> (length (concat blocks) \<le> payload_limit (configured state) \<longrightarrow> rest = [])
    | (Method_Not_Allowed allow, rest) \<Rightarrow>
        (\<exists>ms. allow = join_with '', '' ms \<and> distinct ms
           \<and> (\<forall>m. m \<in> set ms \<longleftrightarrow> lookup_server_fn reg (q_path req) m \<noteq> None) \<and> q_method req \<notin> set ms)
        \<and> (length (concat blocks) \<le> payload_limit (configured state) \<longrightarrow> rest = [])"
proof -
  let ?l = "payload_limit (configured state)"
  have drained: "drain_payload ?l 0 (map Inr blocks) = []" if "length (concat blocks) \<le> ?l"
    using counter.feed_all_accepts [of 0 0 ?l blocks] assms(2) that by (intro drain_feed) auto
  have ms: "m \<in> set (server_fn_methods reg (q_path req)) \<longleftrightarrow> lookup_server_fn reg (q_path req) m \<noteq> None" for m
    by (rule reg.methods_lookup [OF assms(1)])
  then have emp: "server_fn_methods reg (q_path req) = [] \<longleftrightarrow> (\<forall>m. lookup_server_fn reg (q_path req) m = None)"
    by (metis empty_iff empty_set last_in_set)
  have dis: "distinct (server_fn_methods reg (q_path req))" by (rule reg.methods_distinct [OF assms(1)])
  show ?thesis
  proof (cases "content_length_exceeds (l_to_str l) (q_content_length req) ?l \<or>
      lookup_server_fn reg (q_path req) (q_method req) \<noteq> None")
    case True
    then show ?thesis by (auto simp: catchall_route_def Let_def)
  next
    case False
    then show ?thesis
      using drained emp dis ms by (auto simp: catchall_route_def Let_def)
  qed
qed

theorem catchall_route_decision_witness:
  "\<exists>rest. catchall_route demo_libs None (register (\<lambda>_. None) ''/api/f'' ''GET'' ()) demo_request (map Inr [[1, 2]])
      = (Method_Not_Allowed ''GET'', rest :: chunk list) \<and> rest = []"
proof -
  let ?reg = "register (\<lambda>_. None) ''/api/f'' ''GET'' ()"
  have "registry_ok ?reg" by (rule reg.insert_valid [OF registry_ok_empty])
  moreover have "payload_limit (configured None) < usize_max"
    by (simp add: configured_def config_new_def DEFAULT_PAYLOAD_LIMIT_def usize_max_def)
  moreover have "fst (catchall_route demo_libs None ?reg demo_request (map Inr [[1, 2]])) = Method_Not_Allowed ''GET''"
    by (simp add: catchall_route_def content_length_exceeds_def demo_request_def register_def entry_of_def
        lookup_server_fn_def server_fn_methods_def Let_def)
  moreover obtain a r where ar: "catchall_route demo_libs None ?reg demo_request (map Inr [[1, 2]]) = (a, r)"
    by force
  ultimately show ?thesis
    using catchall_route_decision [of ?reg None demo_libs demo_request "[[1, 2]]"]
    unfolding ar by (simp add: configured_def config_new_def DEFAULT_PAYLOAD_LIMIT_def)
qed

end
