(* ===== verification/Body_Stream.thy ===== *)
theory Body_Stream
  imports Response
begin

text \<open>
  Containment of body errors (\<^verbatim>\<open>src/stream.rs\<close>): the wrapper put around every streamed response
  body. The body itself is a third-party producer, given by its size and its poll function; the socket is
  known by whether it has been terminated.
\<close>

datatype http_version = HTTP_09 | HTTP_10 | HTTP_11 | HTTP_2 | HTTP_3

text \<open>One poll of a body: not ready, the end, a chunk or an error.\<close>

datatype ('c, 'e) body_poll = Pending | End | Chunk 'c | Failed 'e

record ('b, 'c, 'e, 's) body_ops =
  b_size :: "'b \<Rightarrow> 's"
  b_poll :: "'b \<Rightarrow> ('c, 'e) body_poll \<times> 'b"

text \<open>\<open>io\<close> is whether the wrapper holds the socket of the connection.\<close>

record 'b fallible_body =
  fb_body :: 'b
  fb_io :: bool
  fb_head_only :: bool

definition contain_for_protocol ::
  "http_version \<Rightarrow> bool \<Rightarrow> ('hm, 'b) http_response \<Rightarrow> bool \<Rightarrow> ('hm, 'b fallible_body) http_response" where
  "contain_for_protocol version io response head_only =
     \<lparr>rs_status = rs_status response, rs_headers = rs_headers response,
      rs_body = \<lparr>fb_body = rs_body response, fb_io = (if version = HTTP_10 \<or> version = HTTP_11 then io else False),
                 fb_head_only = head_only\<rparr>\<rparr>"

definition terminate_on_body_error ::
  "http_version \<Rightarrow> bool \<Rightarrow> string \<Rightarrow> ('hm, 'b) http_response \<Rightarrow> ('hm, 'b fallible_body) http_response" where
  "terminate_on_body_error version io meth response =
     contain_for_protocol version io response (meth = ''HEAD'')"

definition fallible_size :: "('b, 'c, 'e, 's) body_ops \<Rightarrow> 'b fallible_body \<Rightarrow> 's" where
  "fallible_size ops fb = b_size ops (fb_body fb)"

text \<open>\<open>poll_next_chunk\<close>, with the socket's state before and after.\<close>

definition poll_next_chunk ::
  "('b, 'c, 'e, 's) body_ops \<Rightarrow> 'b fallible_body \<Rightarrow> bool \<Rightarrow> ('c, 'e) body_poll \<times> 'b fallible_body \<times> bool" where
  "poll_next_chunk ops fb terminated =
     (if fb_head_only fb then (End, fb, terminated)
      else case b_poll ops (fb_body fb) of
             (result, b) \<Rightarrow>
               (result, fb\<lparr>fb_body := b\<rparr>,
                terminated \<or> (case result of Failed _ \<Rightarrow> fb_io fb | _ \<Rightarrow> False)))"

text \<open>The results of a number of polls, the body and the socket afterwards.\<close>

fun polls ::
  "('b, 'c, 'e, 's) body_ops \<Rightarrow> nat \<Rightarrow> 'b fallible_body \<Rightarrow> bool \<Rightarrow>
   ('c, 'e) body_poll list \<times> 'b fallible_body \<times> bool" where
  "polls ops 0 fb t = ([], fb, t)"
| "polls ops (Suc n) fb t =
     (case poll_next_chunk ops fb t of (r, fb', t') \<Rightarrow>
        (case polls ops n fb' t' of (rs, fb'', t'') \<Rightarrow> (r # rs, fb'', t'')))"

fun raw_polls :: "('b, 'c, 'e, 's) body_ops \<Rightarrow> nat \<Rightarrow> 'b \<Rightarrow> ('c, 'e) body_poll list \<times> 'b" where
  "raw_polls ops 0 b = ([], b)"
| "raw_polls ops (Suc n) b =
     (case b_poll ops b of (r, b') \<Rightarrow> (case raw_polls ops n b' of (rs, b'') \<Rightarrow> (r # rs, b'')))"

fun is_failed :: "('c, 'e) body_poll \<Rightarrow> bool" where
  "is_failed (Failed e) \<longleftrightarrow> True"
| "is_failed _ \<longleftrightarrow> False"

section \<open>Lemmas\<close>

lemma polls_head:
  "fb_head_only fb \<Longrightarrow> polls ops n fb t = (replicate n End, fb, t)"
  by (induction n) (simp_all add: poll_next_chunk_def)

lemma polls_streaming:
  "\<not> fb_head_only fb \<Longrightarrow> polls ops n fb t =
     (fst (raw_polls ops n (fb_body fb)), fb\<lparr>fb_body := snd (raw_polls ops n (fb_body fb))\<rparr>,
      t \<or> (fb_io fb \<and> list_ex is_failed (fst (raw_polls ops n (fb_body fb)))))"
proof (induction n arbitrary: fb t)
  case (Suc n)
  obtain r b where p: "b_poll ops (fb_body fb) = (r, b)" by fastforce
  from Suc.prems have "\<not> fb_head_only (fb\<lparr>fb_body := b\<rparr>)" by simp
  from Suc.IH [OF this] Suc.prems p show ?case
    by (cases r) (auto simp: poll_next_chunk_def split: prod.splits)
qed simp

section \<open>Properties\<close>

text \<open>C39: containment of body errors. Wrapping a response changes neither its status, its headers nor the
  declared size of its body. Under any number of polls, a response to \<open>HEAD\<close> ends at once, never polls its
  producer and leaves the socket alone; any other response yields exactly what its producer yields, and the
  socket is terminated precisely when the connection is HTTP/1, the request has a socket and one of the polls
  failed: an HTTP/2 stream error is left to the protocol.\<close>

theorem body_error_contained:
  "case terminate_on_body_error version io meth response of res \<Rightarrow>
     rs_status res = rs_status response \<and> rs_headers res = rs_headers response
     \<and> fallible_size ops (rs_body res) = b_size ops (rs_body response)
     \<and> (case polls ops n (rs_body res) False of (results, fb, terminated) \<Rightarrow>
          if meth = ''HEAD''
          then results = replicate n End \<and> fb_body fb = rs_body response \<and> \<not> terminated
          else (results, fb_body fb) = raw_polls ops n (rs_body response)
            \<and> (terminated \<longleftrightarrow> (version = HTTP_10 \<or> version = HTTP_11) \<and> io \<and> list_ex is_failed results))"
  by (cases "meth = ''HEAD''")
    (simp_all add: terminate_on_body_error_def contain_for_protocol_def fallible_size_def polls_head polls_streaming)

end
