(* ===== verification/Files.thy ===== *)
theory Files
  imports Body_Stream Fs_Boundary
begin

text \<open>
  Serving files below the site root (\<^verbatim>\<open>src/files.rs\<close>): validation of the request path,
  content-coding negotiation between a file and its precompressed siblings, and the response with its
  preconditions and ranges.

  Arguments stand for what other software decides: \<open>pct\<close> is percent-decoding to UTF-8 text, \<open>canon\<close>
  and \<open>is_file\<close> are the operating system's path resolution and file test, \<open>open_at\<close> opens a regular file
  through the root's directory capability, and the record \<open>file_lib\<close> holds the operations of
  \<open>ntex_files::NamedFile\<close> and its header parsers. Paths are those of a Unix system.
\<close>

section \<open>Request paths\<close>

definition WELL_KNOWN_SEGMENT :: string where
  "WELL_KNOWN_SEGMENT = ''.well-known''"

definition is_blocked_dot_segment :: "string \<Rightarrow> bool" where
  "is_blocked_dot_segment segment \<longleftrightarrow> take 1 segment = ''.'' \<and> segment \<noteq> WELL_KNOWN_SEGMENT"

text \<open>\<open>Path::components\<close> of a string: repeated separators vanish, and so does \<open>.\<close> but at the very start.\<close>

definition component_of :: "string \<Rightarrow> component" where
  "component_of s = (if s = ''.'' then CurDir else if s = ''..'' then ParentDir else Normal s)"

definition path_components :: "string \<Rightarrow> component list" where
  "path_components s =
     (let parts = filter (\<lambda>p. p \<noteq> []) (split_on (CHR ''/'') s)
      in if take 1 s = ''/'' then RootDir # map component_of (filter (\<lambda>p. p \<noteq> ''.'') parts)
         else case parts of
                [] \<Rightarrow> []
              | p # ps \<Rightarrow> component_of p # map component_of (filter (\<lambda>q. q \<noteq> ''.'') ps))"

text \<open>\<open>PathBuf::push\<close>: an absolute path replaces what was there.\<close>

definition path_push :: "component list \<Rightarrow> string \<Rightarrow> component list" where
  "path_push rel s =
     (let cs = path_components s
      in if take 1 s = ''/'' \<or> rel = [] then cs else rel @ filter (\<lambda>c. c \<noteq> CurDir) cs)"

fun push_segments :: "(string \<Rightarrow> string option) \<Rightarrow> component list \<Rightarrow> string list \<Rightarrow> component list option" where
  "push_segments pct rel [] = Some rel"
| "push_segments pct rel (segment # rest) =
     (if segment = [] then push_segments pct rel rest
      else case pct segment of
             None \<Rightarrow> None
           | Some s \<Rightarrow>
               if s = ''.'' then push_segments pct rel rest
               else if is_blocked_dot_segment s \<or> CHR 0x00 \<in> set s then None
               else if CHR ''/'' \<in> set s \<or> CHR 0x5C \<in> set s then None
               else push_segments pct (path_push rel s) rest)"

fun acceptable_component :: "component \<Rightarrow> bool" where
  "acceptable_component (Normal part) \<longleftrightarrow> \<not> is_blocked_dot_segment part"
| "acceptable_component _ \<longleftrightarrow> False"

definition safe_subpath ::
  "(string \<Rightarrow> string option) \<Rightarrow> (component list \<Rightarrow> io_error + string list) \<Rightarrow> (string list \<Rightarrow> bool) \<Rightarrow>
   string list \<Rightarrow> string \<Rightarrow> string list option" where
  "safe_subpath pct canon is_file site raw_path =
     Option.bind (push_segments pct [] (split_on (CHR ''/'') raw_path)) (\<lambda>rel.
       if \<not> list_all acceptable_component rel then None
       else case canon (absolute site @ rel) of
              Inl _ \<Rightarrow> None
            | Inr target \<Rightarrow>
                if \<not> is_file target then None
                else if strip_prefix site target = None then None else Some target)"

section \<open>Content codings\<close>

record accepted_encodings =
  br :: "rat option"
  gzip :: "rat option"
  identity :: bool
  identity_q :: "rat option"

datatype precompressed = Br | Gzip

fun extension :: "precompressed \<Rightarrow> string" where
  "extension Br = ''br''"
| "extension Gzip = ''gz''"

fun header_value :: "precompressed \<Rightarrow> string" where
  "header_value Br = ''br''"
| "header_value Gzip = ''gzip''"

definition precompressed_preference :: "accepted_encodings \<Rightarrow> precompressed list" where
  "precompressed_preference encodings =
     (let weighted = (case br encodings of Some q \<Rightarrow> [(q, Br)] | None \<Rightarrow> [])
                   @ (case gzip encodings of Some q \<Rightarrow> [(q, Gzip)] | None \<Rightarrow> [])
      in map snd (sort_key (\<lambda>(q, _). - q) weighted))"

text \<open>The weight of one item: the last valid \<open>q\<close> parameter, 1 without one.\<close>

definition item_step :: "rat \<Rightarrow> string \<Rightarrow> rat" where
  "item_step q part =
     (case split_once (CHR ''='') part of
        None \<Rightarrow> q
      | Some (name, v) \<Rightarrow>
          if eq_ignore_ascii_case (str_trim name) ''q'' then
            (case parse_qvalue v of Some parsed \<Rightarrow> parsed | None \<Rightarrow> q)
          else q)"

record weights =
  br_q :: "rat option"
  gzip_q :: "rat option"
  wildcard_q :: "rat option"
  ident_q :: "rat option"

definition weights_item :: "weights \<Rightarrow> string \<Rightarrow> weights" where
  "weights_item w item =
     (case map str_trim (split_on (CHR '';'') item) of
        [] \<Rightarrow> w
      | token # parts \<Rightarrow>
          let q = foldl item_step 1 parts
          in if eq_ignore_ascii_case token ''br'' then w\<lparr>br_q := Some q\<rparr>
             else if eq_ignore_ascii_case token ''gzip'' then w\<lparr>gzip_q := Some q\<rparr>
             else if eq_ignore_ascii_case token ''identity'' then w\<lparr>ident_q := Some q\<rparr>
             else if token = ''*'' then w\<lparr>wildcard_q := Some q\<rparr>
             else w)"

definition weights_value :: "('hv \<Rightarrow> string option) \<Rightarrow> weights \<Rightarrow> 'hv \<Rightarrow> weights" where
  "weights_value to_str w v =
     (case to_str v of None \<Rightarrow> w | Some s \<Rightarrow> foldl weights_item w (split_on (CHR '','') s))"

definition opt_or :: "'a option \<Rightarrow> 'a option \<Rightarrow> 'a option" where
  "opt_or x y = (case x of None \<Rightarrow> y | Some a \<Rightarrow> Some a)"

definition opt_filter :: "('a \<Rightarrow> bool) \<Rightarrow> 'a option \<Rightarrow> 'a option" where
  "opt_filter P x = (case x of None \<Rightarrow> None | Some a \<Rightarrow> if P a then Some a else None)"

definition accepted_encodings_of :: "('hv \<Rightarrow> string option) \<Rightarrow> 'hv list \<Rightarrow> accepted_encodings" where
  "accepted_encodings_of to_str values =
     (let w = foldl (weights_value to_str) \<lparr>br_q = None, gzip_q = None, wildcard_q = None, ident_q = None\<rparr> values
      in \<lparr>br = opt_filter (\<lambda>q. 0 < q) (opt_or (br_q w) (wildcard_q w)),
          gzip = opt_filter (\<lambda>q. 0 < q) (opt_or (gzip_q w) (wildcard_q w)),
          identity = (case ident_q w of None \<Rightarrow> wildcard_q w \<noteq> Some 0 | Some q \<Rightarrow> 0 < q),
          identity_q = ident_q w\<rparr>)"

section \<open>Opening\<close>

text \<open>\<open>OnceLock\<close>: a value once stored stays. \<open>cached_site_root\<close> takes the value a racing worker stored
  between its own look and its store.\<close>

definition cached_site_root :: "'r option \<Rightarrow> (io_error + 'r) \<Rightarrow> 'r option \<Rightarrow> 'r option \<times> 'r option" where
  "cached_site_root cache opened racing =
     (case cache of
        Some r \<Rightarrow> (Some r, cache)
      | None \<Rightarrow>
          (case opened of
             Inl _ \<Rightarrow> (None, racing)
           | Inr r \<Rightarrow>
               let stored = (case racing of Some other \<Rightarrow> Some other | None \<Rightarrow> Some r)
               in (stored, stored)))"

definition compressed_path :: "string list \<Rightarrow> string \<Rightarrow> string list" where
  "compressed_path path ext =
     (if path = [] then [''.'' @ ext] else butlast path @ [last path @ ''.'' @ ext])"

text \<open>The operations of \<open>NamedFile\<close> and the parsers of its crate. A modification time is the seconds since
  the epoch, or \<open>None\<close> before it; \<open>clone_file\<close> is a \<open>NamedFile\<close> of the duplicated handle.\<close>

record ('f, 'n, 'm, 'hm, 'hv, 'b, 'd) file_lib =
  from_file :: "'f \<Rightarrow> string list \<Rightarrow> io_error + 'n"
  set_content_encoding :: "'n \<Rightarrow> precompressed \<Rightarrow> 'n"
  set_content_type :: "'n \<Rightarrow> 'm \<Rightarrow> 'n"
  mime_of_extension :: "string \<Rightarrow> 'm"
  use_etag :: "'n \<Rightarrow> bool \<Rightarrow> 'n"
  use_last_modified :: "'n \<Rightarrow> bool \<Rightarrow> 'n"
  modified :: "'n \<Rightarrow> io_error + nat option"
  file_len :: "'n \<Rightarrow> io_error + u64"
  clone_file :: "'n \<Rightarrow> io_error + 'n"
  into_response :: "'n \<Rightarrow> string \<Rightarrow> 'hm \<Rightarrow> ('hm, 'b) http_response"
  parse_ranges :: "string \<Rightarrow> u64 \<Rightarrow> (u64 \<times> u64) list option"
  parse_http_date :: "string \<Rightarrow> 'd option"
  parse_last_modified :: "'hv \<Rightarrow> 'd option"

text \<open>\<open>Path::extension\<close> of the last component: what follows its last dot, unless that dot comes first.\<close>

definition path_extension :: "string list \<Rightarrow> string option" where
  "path_extension p =
     (if p = [] then None
      else let name = last p; ext = rev (takeWhile (\<lambda>c. c \<noteq> CHR ''.'') (rev name))
           in if length ext + 1 < length name then Some ext else None)"

record 'n opened_static_file =
  os_file :: 'n
  os_content_encoding :: "string option"

definition variant_weight :: "accepted_encodings \<Rightarrow> precompressed \<Rightarrow> rat" where
  "variant_weight enc v = (case (case v of Br \<Rightarrow> br enc | Gzip \<Rightarrow> gzip enc) of Some q \<Rightarrow> q | None \<Rightarrow> 0)"

definition outranked :: "accepted_encodings \<Rightarrow> precompressed \<Rightarrow> bool" where
  "outranked enc v = (case identity_q enc of Some i \<Rightarrow> variant_weight enc v < i | None \<Rightarrow> False)"

text \<open>\<open>open_root\<close> is \<open>SiteRoot::open_file\<close> of the served root.\<close>

definition open_variant ::
  "('f, 'n, 'm, 'hm, 'hv, 'b, 'd) file_lib \<Rightarrow> (component list \<Rightarrow> io_error + 'f) \<Rightarrow> string list \<Rightarrow> precompressed \<Rightarrow>
   io_error + 'n" where
  "open_variant lib open_root safe v =
     res_bind (open_root (absolute (compressed_path safe (extension v)))) (\<lambda>f. from_file lib f safe)"

fun try_variants ::
  "('f, 'n, 'm, 'hm, 'hv, 'b, 'd) file_lib \<Rightarrow> (component list \<Rightarrow> io_error + 'f) \<Rightarrow> string list \<Rightarrow>
   accepted_encodings \<Rightarrow> precompressed list \<Rightarrow> 'n opened_static_file option" where
  "try_variants lib open_root safe enc [] = None"
| "try_variants lib open_root safe enc (v # vs) =
     (if outranked enc v then try_variants lib open_root safe enc vs
      else case open_variant lib open_root safe v of
             Inl _ \<Rightarrow> try_variants lib open_root safe enc vs
           | Inr file \<Rightarrow>
               let file1 = set_content_encoding lib file v;
                   file2 = (case path_extension safe of
                              Some ext \<Rightarrow> set_content_type lib file1 (mime_of_extension lib ext)
                            | None \<Rightarrow> file1)
               in Some \<lparr>os_file = file2, os_content_encoding = Some (header_value v)\<rparr>)"

definition open_static_file ::
  "('f, 'n, 'm, 'hm, 'hv, 'b, 'd) file_lib \<Rightarrow> (string \<Rightarrow> string option) \<Rightarrow> (component list \<Rightarrow> io_error + string list) \<Rightarrow>
   (string list \<Rightarrow> bool) \<Rightarrow> (string list \<Rightarrow> io_error + 'f) \<Rightarrow> string list \<Rightarrow> string \<Rightarrow> accepted_encodings \<Rightarrow>
   (unit + 'n opened_static_file) option" where
  "open_static_file lib pct canon is_file open_at site raw_path enc =
     Option.bind (safe_subpath pct canon is_file site raw_path) (\<lambda>safe.
       let open_root = open_file canon open_at site
       in case try_variants lib open_root safe enc (precompressed_preference enc) of
            Some o1 \<Rightarrow> Some (Inr o1)
          | None \<Rightarrow>
              if \<not> identity enc then Some (Inl ())
              else (case res_bind (open_root (absolute safe)) (\<lambda>f. from_file lib f safe) of
                      Inl _ \<Rightarrow> None
                    | Inr file \<Rightarrow> Some (Inr \<lparr>os_file = file, os_content_encoding = None\<rparr>)))"

section \<open>Negotiation headers\<close>

definition ensure_precompressed_headers ::
  "('hm, 'hv) header_ops \<Rightarrow> (string \<Rightarrow> 'hv) \<Rightarrow> ('hm, 'b) http_response \<Rightarrow> string \<Rightarrow> ('hm, 'b) http_response" where
  "ensure_precompressed_headers h hv res encoding =
     res\<lparr>rs_headers := h_insert h (rs_headers res) ''content-encoding'' (hv encoding)\<rparr>"

definition names_encoding :: "string \<Rightarrow> bool" where
  "names_encoding v =
     list_ex (\<lambda>p. str_trim p = ''*'' \<or> eq_ignore_ascii_case (str_trim p) ''accept-encoding'') (split_on (CHR '','') v)"

definition ensure_encoding_vary ::
  "('hm, 'hv) header_ops \<Rightarrow> ('hv \<Rightarrow> string option) \<Rightarrow> (string \<Rightarrow> 'hv) \<Rightarrow> ('hm, 'b) http_response \<Rightarrow>
   ('hm, 'b) http_response" where
  "ensure_encoding_vary h to_str hv res =
     (if list_ex (\<lambda>v. case to_str v of Some s \<Rightarrow> names_encoding s | None \<Rightarrow> False) (h_get_all h (rs_headers res) ''vary'')
      then res
      else res\<lparr>rs_headers := h_append h (rs_headers res) ''vary'' (hv ''Accept-Encoding'')\<rparr>)"

section \<open>Preconditions and ranges\<close>

text \<open>Header values: text of a value, its bytes, a value from bytes, a value from text the adapter formats;
  and \<open>add_header\<close>, by which the test-request builder sets a header.\<close>

record ('hm, 'hv, 'b) value_lib =
  hv_to_str :: "'hv \<Rightarrow> string option"
  hv_bytes :: "'hv \<Rightarrow> string"
  hv_from_bytes :: "string \<Rightarrow> 'hv option"
  hv_of :: "string \<Rightarrow> 'hv"
  add_header :: "'hm \<Rightarrow> string \<Rightarrow> 'hv \<Rightarrow> 'hm"
  empty_body :: 'b

definition finish ::
  "('hm, 'hv) header_ops \<Rightarrow> ('hm, 'hv, 'b) value_lib \<Rightarrow> nat \<Rightarrow> ('hm, 'b) http_response" where
  "finish h vl status = \<lparr>rs_status = status, rs_headers = h_empty h, rs_body = empty_body vl\<rparr>"

definition has_header :: "('hm, 'hv) header_ops \<Rightarrow> 'hm \<Rightarrow> string \<Rightarrow> bool" where
  "has_header h m name \<longleftrightarrow> h_get h m name \<noteq> None"

definition header_pairs :: "('hm, 'hv) header_ops \<Rightarrow> 'hm \<Rightarrow> (string \<times> 'hv) list" where
  "header_pairs h m = concat (map (\<lambda>k. map (\<lambda>v. (k, v)) (h_get_all h m k)) (h_keys h m))"

definition MAX_FORMATTABLE :: nat where
  "MAX_FORMATTABLE = 253402300800"

definition unsupported_modified :: "('f, 'n, 'm, 'hm, 'hv, 'b, 'd) file_lib \<Rightarrow> 'n \<Rightarrow> bool" where
  "unsupported_modified lib file =
     (case modified lib file of
        Inl _ \<Rightarrow> False
      | Inr None \<Rightarrow> True
      | Inr (Some secs) \<Rightarrow> MAX_FORMATTABLE \<le> secs)"

text \<open>The date conditions that survive: none unless the status is a success, \<open>If-Unmodified-Since\<close> only
  without \<open>If-Match\<close>, \<open>If-Modified-Since\<close> only for \<open>GET\<close> and \<open>HEAD\<close>.\<close>

definition keeps_date :: "('hm, 'hv) header_ops \<Rightarrow> 'hm \<Rightarrow> bool \<Rightarrow> nat \<Rightarrow> string \<Rightarrow> bool" where
  "keeps_date h headers head_or_get base_status name \<longleftrightarrow>
     \<not> (\<not> is_success base_status
        \<or> (name \<noteq> ''if-modified-since'' \<and> name \<noteq> ''if-unmodified-since'')
        \<or> (name = ''if-unmodified-since'' \<and> has_header h headers ''if-match'')
        \<or> (name = ''if-modified-since'' \<and> \<not> head_or_get))"

definition combine_values :: "string list \<Rightarrow> string" where
  "combine_values vs = foldl (\<lambda>combined v. (if combined \<noteq> [] then combined @ '', '' else combined) @ v) [] vs"

definition add_combined ::
  "('hm, 'hv) header_ops \<Rightarrow> ('hm, 'hv, 'b) value_lib \<Rightarrow> 'hm \<Rightarrow> string \<Rightarrow> 'hm option \<Rightarrow> 'hm option" where
  "add_combined h vl headers name request =
     Option.bind request (\<lambda>r.
       let combined = combine_values (map (hv_bytes vl) (h_get_all h headers name))
       in if combined = [] then Some r
          else map_option (\<lambda>v. add_header vl r name v) (hv_from_bytes vl combined))"

text \<open>The request projected for \<open>NamedFile\<close>, without a value when a combined entity-tag field is illegal.\<close>

definition projected_headers ::
  "('hm, 'hv) header_ops \<Rightarrow> ('hm, 'hv, 'b) value_lib \<Rightarrow> 'hm \<Rightarrow> bool \<Rightarrow> nat \<Rightarrow> 'hm option" where
  "projected_headers h vl headers head_or_get base_status =
     (let dates = foldl (\<lambda>r (name, v). if keeps_date h headers head_or_get base_status name then add_header vl r name v else r)
                    (h_empty h) (header_pairs h headers)
      in if is_success base_status
         then add_combined h vl headers ''if-none-match'' (add_combined h vl headers ''if-match'' (Some dates))
         else Some dates)"

definition bytes_unit :: "string option \<Rightarrow> bool" where
  "bytes_unit t =
     (case Option.bind t (split_once (CHR ''='')) of
        None \<Rightarrow> True | Some (unit, _) \<Rightarrow> eq_ignore_ascii_case unit ''bytes'')"

definition requested_range ::
  "('hm, 'hv) header_ops \<Rightarrow> ('hm, 'hv, 'b) value_lib \<Rightarrow> 'hm \<Rightarrow> string \<Rightarrow> nat \<Rightarrow> 'hv option" where
  "requested_range h vl headers meth base_status =
     opt_filter (\<lambda>v. bytes_unit (hv_to_str vl v))
       (opt_filter (\<lambda>_. meth = ''GET'' \<and> base_status = 200) (h_get h headers ''range''))"

definition if_range_matches ::
  "('f, 'n, 'm, 'hm, 'hv, 'b, 'd) file_lib \<Rightarrow> ('hm, 'hv) header_ops \<Rightarrow> ('hm, 'hv, 'b) value_lib \<Rightarrow> 'hm \<Rightarrow>
   ('hm, 'b) http_response \<Rightarrow> bool" where
  "if_range_matches lib h vl headers preview =
     (case h_get h headers ''if-range'' of
        None \<Rightarrow> True
      | Some v \<Rightarrow>
          (case hv_to_str vl v of
             None \<Rightarrow> False
           | Some condition \<Rightarrow>
               if take 1 condition = [CHR 0x22] \<or> take 2 condition = ''W/'' then
                 take 2 condition \<noteq> ''W/''
                 \<and> (case h_get h (rs_headers preview) ''etag'' of
                      Some etag \<Rightarrow> hv_bytes vl etag = condition | None \<Rightarrow> False)
               else case parse_http_date lib condition of
                      None \<Rightarrow> False
                    | Some since \<Rightarrow>
                        Option.bind (h_get h (rs_headers preview) ''last-modified'') (parse_last_modified lib) = Some since))"

definition normalize_range :: "string \<Rightarrow> string" where
  "normalize_range t = (case split_once (CHR ''='') t of Some (_, ranges) \<Rightarrow> ''bytes='' @ ranges | None \<Rightarrow> t)"

definition select_range ::
  "('f, 'n, 'm, 'hm, 'hv, 'b, 'd) file_lib \<Rightarrow> string \<Rightarrow> u64 \<Rightarrow> (u64 \<times> u64) option" where
  "select_range lib t filelen =
     (let parsed = (if filelen = 0 then None else parse_ranges lib (normalize_range t) filelen)
      in opt_filter (\<lambda>(start, len). 0 < len \<and> start < filelen \<and> len \<le> filelen - start)
           (case parsed of Some (r # _) \<Rightarrow> Some r | _ \<Rightarrow> None))"

definition show_range :: "u64 \<Rightarrow> u64 \<Rightarrow> string" where
  "show_range start len = ''bytes='' @ show_nat (unat start) @ ''-'' @ show_nat (unat (start + len - 1))"

text \<open>The branch for an honoured range: the response for the one selected range, or a refusal.\<close>

definition range_response ::
  "('f, 'n, 'm, 'hm, 'hv, 'b, 'd) file_lib \<Rightarrow> ('hm, 'hv) header_ops \<Rightarrow> ('hm, 'hv, 'b) value_lib \<Rightarrow> 'n \<Rightarrow> 'hm \<Rightarrow> 'hv \<Rightarrow>
   ('hm, 'b) http_response" where
  "range_response lib h vl file projected rng =
     (case file_len lib file of
        Inl _ \<Rightarrow> finish h vl 500
      | Inr filelen \<Rightarrow>
          (case hv_to_str vl rng of
             None \<Rightarrow> finish h vl 400
           | Some t \<Rightarrow>
               (case select_range lib t filelen of
                  None \<Rightarrow>
                    let r = finish h vl 416
                    in r\<lparr>rs_headers := h_insert h (rs_headers r) ''content-range''
                           (hv_of vl (''bytes */'' @ show_nat (unat filelen)))\<rparr>
                | Some (start, len) \<Rightarrow>
                    let copied = foldl (\<lambda>r (name, v). add_header vl r name v) (h_empty h) (header_pairs h projected);
                        ranged = add_header vl copied ''range'' (hv_of vl (show_range start len));
                        response = into_response lib file ''GET'' ranged
                    in if rs_status response = 200 then response\<lparr>rs_status := 206\<rparr> else response)))"

definition final_status :: "bool \<Rightarrow> nat \<Rightarrow> ('hm, 'b) http_response \<Rightarrow> ('hm, 'b) http_response" where
  "final_status head_or_get base_status response =
     (if rs_status response = 304 \<and> \<not> head_or_get then response\<lparr>rs_status := 412\<rparr>
      else if rs_status response = 200 then response\<lparr>rs_status := base_status\<rparr>
      else response)"

definition file_response ::
  "('f, 'n, 'm, 'hm, 'hv, 'b, 'd) file_lib \<Rightarrow> ('hm, 'hv) header_ops \<Rightarrow> ('hm, 'hv, 'b) value_lib \<Rightarrow> 'n \<Rightarrow> string \<Rightarrow>
   'hm \<Rightarrow> nat \<Rightarrow> ('hm, 'b) http_response" where
  "file_response lib h vl file0 meth headers base_status =
     (let head_or_get = (meth = ''GET'' \<or> meth = ''HEAD'');
          conditions = [''range'', ''if-none-match'', ''if-match'', ''if-modified-since'', ''if-unmodified-since'']
      in if is_redirection base_status \<and> list_ex (has_header h headers) conditions then finish h vl base_status
         else
           let old = unsupported_modified lib file0;
               file = (if old then use_last_modified lib (use_etag lib file0 False) False else file0)
           in if \<not> list_ex (has_header h headers) (''if-range'' # conditions) then
                let response = into_response lib file meth headers
                in if rs_status response = 200 then response\<lparr>rs_status := base_status\<rparr> else response
              else case projected_headers h vl headers head_or_get base_status of
                     None \<Rightarrow> finish h vl 400
                   | Some projected \<Rightarrow>
                       let plain = final_status head_or_get base_status (into_response lib file meth projected)
                       in (case requested_range h vl headers meth base_status of
                             None \<Rightarrow> plain
                           | Some rng \<Rightarrow>
                               (case clone_file lib file of
                                  Inl _ \<Rightarrow> finish h vl 500
                                | Inr c \<Rightarrow>
                                    let clone = use_last_modified lib (use_etag lib c (\<not> old)) (\<not> old);
                                        preview = into_response lib clone meth projected
                                    in if rs_status preview = 304 \<or> rs_status preview = 412
                                       then into_response lib file meth projected
                                       else if if_range_matches lib h vl headers preview
                                       then range_response lib h vl file projected rng
                                       else plain)))"

section \<open>Routes\<close>

definition opened_response ::
  "('f, 'n, 'm, 'hm, 'hv, 'b, 'd) file_lib \<Rightarrow> ('hm, 'hv) header_ops \<Rightarrow> ('hm, 'hv, 'b) value_lib \<Rightarrow> string \<Rightarrow> 'hm \<Rightarrow>
   unit + 'n opened_static_file \<Rightarrow> ('hm, 'b) http_response" where
  "opened_response lib h vl meth headers opened =
     ensure_encoding_vary h (hv_to_str vl) (hv_of vl)
       (case opened of
          Inl _ \<Rightarrow> finish h vl 406
        | Inr f \<Rightarrow>
            let res = file_response lib h vl (os_file f) meth headers 200
            in case os_content_encoding f of
                 Some e \<Rightarrow> ensure_precompressed_headers h (hv_of vl) res e
               | None \<Rightarrow> res)"

text \<open>A response sent as it is, or with its body contained.\<close>

datatype ('hm, 'b) served = Bare "('hm, 'b) http_response" | Contained "('hm, 'b fallible_body) http_response"

text \<open>The path below the package directory: \<open>uri\<close> is the request path.\<close>

definition pkg_raw_path :: "string \<Rightarrow> string \<Rightarrow> string" where
  "pkg_raw_path site_pkg_dir uri =
     (let prefix = CHR ''/'' # dropWhile (\<lambda>c. c = CHR ''/'') site_pkg_dir
      in case strip_prefix prefix uri of Some rest \<Rightarrow> rest | None \<Rightarrow> ''/'')"

definition site_pkg_response ::
  "('f, 'n, 'm, 'hm, 'hv, 'b, 'd) file_lib \<Rightarrow> ('hm, 'hv) header_ops \<Rightarrow> ('hm, 'hv, 'b) value_lib \<Rightarrow> http_version \<Rightarrow> bool \<Rightarrow>
   string \<Rightarrow> 'hm \<Rightarrow> (unit + 'n opened_static_file) option \<Rightarrow> ('hm, 'b) served" where
  "site_pkg_response lib h vl version io meth headers opened =
     (case opened of
        None \<Rightarrow> Bare (finish h vl 404)
      | Some (Inl u) \<Rightarrow> Bare (opened_response lib h vl meth headers (Inl u))
      | Some (Inr f) \<Rightarrow>
          Contained (terminate_on_body_error version io meth (opened_response lib h vl meth headers (Inr f))))"

text \<open>\<open>file_and_error_handler_with_context\<close> once the file has been looked for: \<open>scoped\<close> is the response of a
  refused request scope, \<open>additional_context\<close> what the callback does to the response options, \<open>from_app\<close> the
  rendered shell for the options it starts from.\<close>

definition file_and_error_response ::
  "('f, 'n, 'm, 'hm, 'hv, 'b, 'd) file_lib \<Rightarrow> ('hm, 'hv) header_ops \<Rightarrow> ('hm, 'hv, 'b) value_lib \<Rightarrow> http_version \<Rightarrow> bool \<Rightarrow>
   string \<Rightarrow> 'hm \<Rightarrow> ('hm, 'b) http_response option \<Rightarrow> ('hm response_parts \<Rightarrow> 'hm response_parts) \<Rightarrow>
   ('hm response_parts \<Rightarrow> ('hm, 'b) http_response) \<Rightarrow> (unit + 'n opened_static_file) option \<Rightarrow> ('hm, 'b) served" where
  "file_and_error_response lib h vl version io meth headers refused additional_context from_app opened =
     (case refused of
        Some response \<Rightarrow> Bare response
      | None \<Rightarrow>
          (case opened of
             Some f \<Rightarrow>
               let options = additional_context (parts_default h);
                   res = opened_response lib h vl meth headers f
               in Contained (terminate_on_body_error version io meth (fst (extend_response h res options)))
           | None \<Rightarrow>
               let res = from_app (additional_context (set_status (parts_default h) 404))
               in Bare (if rs_status res = 200 then res\<lparr>rs_status := 404\<rparr> else res)))"

section \<open>Lemmas\<close>

lemma path_push_plain:
  assumes "CHR ''/'' \<notin> set s" and "s \<noteq> []" and "s \<noteq> ''.''" and "s \<noteq> ''..''"
  shows "path_push rel s = rel @ [Normal s]"
proof -
  from assms(1,2) have "take 1 s \<noteq> ''/''" by (cases s) auto
  with assms show ?thesis
    by (simp add: path_push_def path_components_def split_on_none component_of_def Let_def)
qed

lemma path_push_empty [simp]: "path_push rel [] = rel"
  by (simp add: path_push_def path_components_def)

definition visible_segment :: "string \<Rightarrow> bool" where
  "visible_segment s \<longleftrightarrow> s \<noteq> [] \<and> \<not> is_blocked_dot_segment s
     \<and> CHR 0x00 \<notin> set s \<and> CHR ''/'' \<notin> set s \<and> CHR 0x5C \<notin> set s"

text \<open>The decoded names a raw path stands for.\<close>

definition decoded_names :: "(string \<Rightarrow> string option) \<Rightarrow> string list \<Rightarrow> string list" where
  "decoded_names pct segments =
     filter (\<lambda>s. s \<noteq> [] \<and> s \<noteq> ''.'') (map (\<lambda>p. the (pct p)) (filter (\<lambda>p. p \<noteq> []) segments))"

lemma push_segments_Some:
  "push_segments pct rel segments = Some rel' \<Longrightarrow>
     rel' = rel @ map Normal (decoded_names pct segments) \<and> list_all visible_segment (decoded_names pct segments)"
proof (induction pct rel segments rule: push_segments.induct)
  case (2 pct rel segment rest)
  show ?case
  proof (cases "segment = []")
    case True
    with 2 show ?thesis by (simp add: decoded_names_def)
  next
    case ne: False
    with "2.prems" obtain s where s: "pct segment = Some s" by (auto split: option.splits)
    show ?thesis
    proof (cases "s = ''.''")
      case True
      with "2.IH"(2) "2.prems" ne s show ?thesis by (simp add: decoded_names_def)
    next
      case False
      with "2.prems" ne s have ok: "\<not> (is_blocked_dot_segment s \<or> CHR 0x00 \<in> set s)"
        "\<not> (CHR ''/'' \<in> set s \<or> CHR 0x5C \<in> set s)"
        and rec: "push_segments pct (path_push rel s) rest = Some rel'"
        by (auto split: if_splits)
      from "2.IH"(3) [OF ne s False ok rec] have ih:
        "rel' = path_push rel s @ map Normal (decoded_names pct rest) \<and> list_all visible_segment (decoded_names pct rest)" .
      show ?thesis
      proof (cases "s = []")
        case True
        with ih ne s show ?thesis by (simp add: decoded_names_def)
      next
        case nil: False
        have "s \<noteq> ''..''" using ok(1) by (auto simp: is_blocked_dot_segment_def WELL_KNOWN_SEGMENT_def)
        with path_push_plain ok nil False have "path_push rel s = rel @ [Normal s]" by blast
        moreover have "visible_segment s" using ok nil by (simp add: visible_segment_def)
        ultimately show ?thesis using ih ne s nil False by (simp add: decoded_names_def)
      qed
    qed
  qed
qed (simp add: decoded_names_def)

lemma safe_subpath_Some:
  assumes "safe_subpath pct canon is_file site raw_path = Some target"
  shows "\<exists>inner. target = site @ inner \<and> is_file target
     \<and> canon (absolute site @ map Normal (decoded_names pct (split_on (CHR ''/'') raw_path))) = Inr target
     \<and> list_all visible_segment (decoded_names pct (split_on (CHR ''/'') raw_path))"
proof -
  from assms obtain rel where "push_segments pct [] (split_on (CHR ''/'') raw_path) = Some rel"
    and r: "canon (absolute site @ rel) = Inr target" "is_file target" "strip_prefix site target \<noteq> None"
    by (auto simp: safe_subpath_def bind_eq_Some_conv split: if_splits sum.splits)
  from push_segments_Some [OF this(1)] r show ?thesis
    by (auto simp: strip_prefix_Some)
qed

definition eligible ::
  "('f, 'n, 'm, 'hm, 'hv, 'b, 'd) file_lib \<Rightarrow> (component list \<Rightarrow> io_error + 'f) \<Rightarrow> string list \<Rightarrow> accepted_encodings \<Rightarrow>
   precompressed \<Rightarrow> bool" where
  "eligible lib open_root safe enc v \<longleftrightarrow>
     (case v of Br \<Rightarrow> br enc | Gzip \<Rightarrow> gzip enc) \<noteq> None \<and> \<not> outranked enc v
     \<and> ok (open_variant lib open_root safe v)"

text \<open>Brotli is preferred to gzip at equal weight.\<close>

definition at_least :: "accepted_encodings \<Rightarrow> precompressed \<Rightarrow> precompressed \<Rightarrow> bool" where
  "at_least enc v v' \<longleftrightarrow>
     variant_weight enc v' < variant_weight enc v \<or> (variant_weight enc v' = variant_weight enc v \<and> (v = Br \<or> v' = Gzip))"

lemma try_variants_None:
  "try_variants lib open_root safe enc vs = None \<longleftrightarrow>
     (\<forall>v \<in> set vs. outranked enc v \<or> isl (open_variant lib open_root safe v))"
  by (induction vs) (auto simp: Let_def split: sum.splits)

lemma preference_members:
  "set (precompressed_preference enc) = {v. (case v of Br \<Rightarrow> br enc | Gzip \<Rightarrow> gzip enc) \<noteq> None}"
proof (rule set_eqI)
  fix v
  show "v \<in> set (precompressed_preference enc) \<longleftrightarrow> v \<in> {v. (case v of Br \<Rightarrow> br enc | Gzip \<Rightarrow> gzip enc) \<noteq> None}"
    by (cases v; cases "br enc"; cases "gzip enc") (auto simp: precompressed_preference_def)
qed

lemma preference_sorted: "sorted_wrt (at_least enc) (precompressed_preference enc)"
  by (auto simp: precompressed_preference_def at_least_def variant_weight_def split: option.splits)

lemma try_variants_Some:
  "try_variants lib open_root safe enc vs = Some f \<Longrightarrow>
     \<exists>v pre post. vs = pre @ v # post \<and> os_content_encoding f = Some (header_value v) \<and> \<not> outranked enc v
       \<and> ok (open_variant lib open_root safe v)
       \<and> (\<forall>v' \<in> set pre. outranked enc v' \<or> isl (open_variant lib open_root safe v'))"
proof (induction vs)
  case (Cons v vs)
  show ?case
  proof (cases "\<not> outranked enc v \<and> ok (open_variant lib open_root safe v)")
    case True
    with Cons.prems show ?thesis
      by - (rule exI [of _ v], rule exI [of _ "[]"], rule exI [of _ vs], auto simp: Let_def split: sum.splits)
  next
    case False
    with Cons.prems have "try_variants lib open_root safe enc vs = Some f"
      by (auto split: if_splits sum.splits)
    from Cons.IH [OF this] obtain v0 pre post where "vs = pre @ v0 # post"
      "os_content_encoding f = Some (header_value v0)" "\<not> outranked enc v0" "ok (open_variant lib open_root safe v0)"
      "\<forall>v' \<in> set pre. outranked enc v' \<or> isl (open_variant lib open_root safe v')" by blast
    with False show ?thesis
      by - (rule exI [of _ v0], rule exI [of _ "v # pre"], rule exI [of _ post], auto)
  qed
qed simp

lemma chosen_variant_best:
  assumes "try_variants lib open_root safe enc (precompressed_preference enc) = Some f"
  shows "\<exists>v. os_content_encoding f = Some (header_value v) \<and> eligible lib open_root safe enc v
     \<and> (\<forall>v'. eligible lib open_root safe enc v' \<longrightarrow> v' = v \<or> at_least enc v v')"
proof -
  from try_variants_Some [OF assms] obtain v pre post where p: "precompressed_preference enc = pre @ v # post"
    and c: "os_content_encoding f = Some (header_value v)" "\<not> outranked enc v" "ok (open_variant lib open_root safe v)"
    and b: "\<forall>v' \<in> set pre. outranked enc v' \<or> isl (open_variant lib open_root safe v')" by blast
  have "v \<in> set (precompressed_preference enc)" using p by simp
  with c have "eligible lib open_root safe enc v" by (auto simp: eligible_def preference_members)
  moreover have "v' = v \<or> at_least enc v v'" if "eligible lib open_root safe enc v'" for v'
  proof -
    from that have "v' \<in> set (precompressed_preference enc)" by (auto simp: eligible_def preference_members)
    with p b that have "v' \<in> set (v # post)" by (auto simp: eligible_def)
    with preference_sorted [of enc] p show ?thesis by (auto simp: sorted_wrt_append)
  qed
  ultimately show ?thesis using c(1) by blast
qed

lemma no_variant:
  "try_variants lib open_root safe enc (precompressed_preference enc) = None \<longleftrightarrow>
     (\<forall>v. \<not> eligible lib open_root safe enc v)"
  unfolding try_variants_None preference_members eligible_def by blast

text \<open>What the test-request builder promises of a header it sets.\<close>

definition builder_laws :: "('hm, 'hv) header_ops \<Rightarrow> ('hm, 'hv, 'b) value_lib \<Rightarrow> bool" where
  "builder_laws h vl \<longleftrightarrow>
     (\<forall>m k v k'. k' \<noteq> k \<longrightarrow> h_get_all h (add_header vl m k v) k' = h_get_all h m k')
     \<and> (\<forall>m k v. h_get_all h m k = [] \<longrightarrow> h_get_all h (add_header vl m k v) k = [v])"

text \<open>A request is contained when it asks for no range, or with \<open>GET\<close> for one nonempty interval of bytes
  inside the file, and has no \<open>If-Range\<close>.\<close>

definition contained_request ::
  "('f, 'n, 'm, 'hm, 'hv, 'b, 'd) file_lib \<Rightarrow> ('hm, 'hv) header_ops \<Rightarrow> ('hm, 'hv, 'b) value_lib \<Rightarrow> 'n \<Rightarrow> string \<Rightarrow> 'hm \<Rightarrow> bool" where
  "contained_request lib h vl file meth m \<longleftrightarrow>
     h_get_all h m ''if-range'' = []
     \<and> (h_get_all h m ''range'' = []
        \<or> (meth = ''GET'' \<and>
           (\<exists>filelen start stop. file_len lib file = Inr filelen \<and> start \<le> stop \<and> stop < unat filelen
              \<and> h_get_all h m ''range'' = [hv_of vl (''bytes='' @ show_nat start @ ''-'' @ show_nat stop)])))"

lemma fold_add_other:
  assumes "builder_laws h vl" "\<forall>(n, v) \<in> set ps. P n \<longrightarrow> n \<noteq> k"
  shows "h_get_all h (foldl (\<lambda>r (n, v). if P n then add_header vl r n v else r) m ps) k = h_get_all h m k"
  using assms(2)
proof (induction ps arbitrary: m)
  case (Cons p ps)
  then show ?case using assms(1) by (cases p) (auto simp: builder_laws_def)
qed simp

lemma add_combined_other:
  assumes "builder_laws h vl" "k \<noteq> name" "add_combined h vl headers name (Some r) = Some r'"
  shows "h_get_all h r' k = h_get_all h r k"
  using assms by (auto simp: add_combined_def builder_laws_def Let_def split: if_splits)

lemma projected_no_range:
  assumes "header_laws h" "builder_laws h vl"
    and "projected_headers h vl headers hg base = Some m" and "k = ''range'' \<or> k = ''if-range''"
  shows "h_get_all h m k = []"
proof -
  let ?d = "foldl (\<lambda>r (name, v). if keeps_date h headers hg base name then add_header vl r name v else r)
      (h_empty h) (header_pairs h headers)"
  have d: "h_get_all h ?d k = []"
    using fold_add_other [OF assms(2), of "header_pairs h headers" "keeps_date h headers hg base" k "h_empty h"]
      assms(4) by (auto simp: keeps_date_def header_lawsD(1) [OF assms(1)])
  show ?thesis
  proof (cases "is_success base")
    case True
    with assms(3) obtain r1 where r: "add_combined h vl headers ''if-match'' (Some ?d) = Some r1"
      "add_combined h vl headers ''if-none-match'' (Some r1) = Some m"
      by (auto simp: projected_headers_def Let_def add_combined_def bind_eq_Some_conv)
    from add_combined_other [OF assms(2) _ r(1), of k] add_combined_other [OF assms(2) _ r(2), of k] d assms(4)
    show ?thesis by auto
  next
    case False
    with assms(3) d show ?thesis by (simp add: projected_headers_def Let_def)
  qed
qed

lemma header_pairs_names: "header_laws h \<Longrightarrow> (n, v) \<in> set (header_pairs h m) \<Longrightarrow> h_get_all h m n \<noteq> []"
  by (auto simp: header_pairs_def)

lemma select_range_bounds:
  assumes "select_range lib t filelen = Some (start, len)"
  shows "unat start \<le> unat (start + len - 1)" and "unat (start + len - 1) < unat filelen"
proof -
  from assms have b: "0 < len" "start < filelen" "len \<le> filelen - start"
    by (auto simp: select_range_def opt_filter_def Let_def split: option.splits list.splits if_splits)
  have u: "unat start + unat len \<le> unat filelen" "0 < unat len"
    using b by (auto simp: word_le_nat_alt word_less_nat_alt unat_sub)
  moreover have "unat filelen < 2 ^ 64" using unsigned_less [of filelen] by simp
  ultimately have "unat (start + len) = unat start + unat len" by (simp add: unat_word_ariths)
  moreover from this u have "1 \<le> start + len" by (simp add: word_le_nat_alt)
  ultimately have "unat (start + len - 1) = unat start + unat len - 1" by (simp add: unat_sub)
  with u show "unat start \<le> unat (start + len - 1)" "unat (start + len - 1) < unat filelen" by simp_all
qed

lemma range_request_contained:
  assumes "header_laws h" "builder_laws h vl" "projected_headers h vl headers hg base = Some m"
    and "file_len lib file = Inr filelen" and "select_range lib t filelen = Some (start, len)"
  shows "contained_request lib h vl file ''GET''
     (add_header vl (foldl (\<lambda>r (name, v). add_header vl r name v) (h_empty h) (header_pairs h m)) ''range''
       (hv_of vl (show_range start len)))"
proof -
  let ?c = "foldl (\<lambda>r (name, v). add_header vl r name v) (h_empty h) (header_pairs h m)"
  have c: "h_get_all h ?c k = []" if "k = ''range'' \<or> k = ''if-range''" for k
    using fold_add_other [OF assms(2), of "header_pairs h m" "\<lambda>_. True" k "h_empty h"]
      projected_no_range [OF assms(1-3) that] header_pairs_names [OF assms(1)]
    by (auto simp: header_lawsD(1) [OF assms(1)])
  have "h_get_all h (add_header vl ?c ''range'' v) ''range'' = [v]"
    and "h_get_all h (add_header vl ?c ''range'' v) ''if-range'' = []" for v
    using assms(2) c by (simp_all add: builder_laws_def)
  with select_range_bounds [OF assms(5)] assms(4) show ?thesis
    by (auto simp: contained_request_def show_range_def)
qed

text \<open>A small site: one file \<open>/srv/a.js\<close> and its gzip sibling, whose handles are their paths.\<close>

definition demo_files :: "(string list, string list, string, (string \<times> string) list, string, unit, unit) file_lib" where
  "demo_files = \<lparr>from_file = (\<lambda>f p. Inr f), set_content_encoding = (\<lambda>n _. n), set_content_type = (\<lambda>n _. n),
     mime_of_extension = (\<lambda>e. e), use_etag = (\<lambda>n _. n), use_last_modified = (\<lambda>n _. n), modified = (\<lambda>_. Inr (Some 0)),
     file_len = (\<lambda>_. Inr 4), clone_file = Inr,
     into_response = (\<lambda>n mt m. \<lparr>rs_status = 200, rs_headers = m, rs_body = ()\<rparr>),
     parse_ranges = (\<lambda>_ _. Some [(1, 2)]), parse_http_date = (\<lambda>_. None), parse_last_modified = (\<lambda>_. None)\<rparr>"

definition demo_values :: "((string \<times> string) list, string, unit) value_lib" where
  "demo_values = \<lparr>hv_to_str = Some, hv_bytes = (\<lambda>v. v), hv_from_bytes = Some, hv_of = (\<lambda>s. s),
     add_header = h_append list_headers, empty_body = ()\<rparr>"

definition demo_canon :: "component list \<Rightarrow> io_error + string list" where
  "demo_canon p = Inr (map component_name (filter is_plain p))"

definition demo_open_at :: "string list \<Rightarrow> io_error + string list" where
  "demo_open_at p = (if p \<in> {[''a.js''], [''a.js.gz'']} then Inr p else Inl (io_err NotFound []))"

lemma demo_safe:
  "safe_subpath Some demo_canon (\<lambda>_. True) [''srv''] ''/a.js'' = Some [''srv'', ''a.js'']"
  by (simp add: safe_subpath_def is_blocked_dot_segment_def path_push_plain absolute_def demo_canon_def)

lemma demo_builder: "builder_laws list_headers demo_values"
  using header_lawsD(3) [OF list_headers_laws] by (simp add: builder_laws_def demo_values_def)

section \<open>Properties\<close>



text \<open>C38: content-coding negotiation is exact. For a path that passes validation, an encoded answer carries
  the coding of an available sibling the client accepts with a positive weight not below an explicit identity
  weight, and no other such sibling has a larger weight, nor the same weight and a smaller expected transfer;
  the plain file is opened only when no sibling qualifies and identity is acceptable; and the request is refused
  exactly when no sibling qualifies and identity is excluded.\<close>

theorem negotiation_exact:
  assumes "safe_subpath pct canon is_file site raw_path = Some safe"
    and "enc = accepted_encodings_of to_str vals" and "open_root = open_file canon open_at site"
  shows "case open_static_file lib pct canon is_file open_at site raw_path enc of
      None \<Rightarrow> identity enc \<and> (\<forall>v. \<not> eligible lib open_root safe enc v)
    | Some (Inl _) \<Rightarrow> \<not> identity enc \<and> (\<forall>v. \<not> eligible lib open_root safe enc v)
    | Some (Inr f) \<Rightarrow>
        (case os_content_encoding f of
           None \<Rightarrow> identity enc \<and> (\<forall>v. \<not> eligible lib open_root safe enc v)
         | Some e \<Rightarrow> \<exists>v. e = header_value v \<and> eligible lib open_root safe enc v \<and> 0 < variant_weight enc v
             \<and> (\<forall>i. identity_q enc = Some i \<longrightarrow> i \<le> variant_weight enc v)
             \<and> (\<forall>v'. eligible lib open_root safe enc v' \<longrightarrow> v' = v \<or> at_least enc v v'))"
proof (cases "try_variants lib open_root safe enc (precompressed_preference enc)")
  case None
  then have "\<forall>v. \<not> eligible lib open_root safe enc v" by (simp add: no_variant)
  with None assms(1,3) show ?thesis
    by (auto simp: open_static_file_def Let_def split: sum.splits)
next
  case (Some f)
  from chosen_variant_best [OF Some] obtain v where v: "os_content_encoding f = Some (header_value v)"
    "eligible lib open_root safe enc v" "\<forall>v'. eligible lib open_root safe enc v' \<longrightarrow> v' = v \<or> at_least enc v v'"
    by blast
  have "0 < variant_weight enc v" "\<forall>i. identity_q enc = Some i \<longrightarrow> i \<le> variant_weight enc v"
    using v(2) assms(2)
    by (auto simp: eligible_def variant_weight_def outranked_def accepted_encodings_of_def Let_def opt_filter_def
        split: precompressed.splits option.splits if_splits)
  with v Some assms(1,3) show ?thesis
    by (auto simp: open_static_file_def Let_def)
qed

theorem negotiation_exact_witness:
  "\<exists>f. open_static_file demo_files Some demo_canon (\<lambda>_. True) demo_open_at [''srv''] ''/a.js''
       (accepted_encodings_of Some [''gzip'']) = Some (Inr f)
     \<and> (\<exists>v. os_content_encoding f = Some (header_value v) \<and> 0 < variant_weight (accepted_encodings_of Some [''gzip'']) v)"
proof -
  have enc: "accepted_encodings_of Some [''gzip''] = \<lparr>br = None, gzip = Some 1, identity = True, identity_q = None\<rparr>"
    by (simp add: accepted_encodings_of_def weights_value_def weights_item_def str_trim_def trim_matches_def is_ws_def
        eq_ignore_ascii_case_def to_ascii_lowercase_def is_ascii_upper_def opt_or_def opt_filter_def)
  have "open_static_file demo_files Some demo_canon (\<lambda>_. True) demo_open_at [''srv''] ''/a.js''
      (accepted_encodings_of Some [''gzip'']) =
      Some (Inr \<lparr>os_file = [''a.js.gz''], os_content_encoding = Some ''gzip''\<rparr>)"
    by (simp add: open_static_file_def demo_safe enc precompressed_preference_def outranked_def open_variant_def
        compressed_path_def open_file_def absolute_def demo_open_at_def demo_files_def path_extension_def)
  with negotiation_exact [OF demo_safe refl refl, where to_str = Some and vals = "[''gzip'']" and lib = demo_files
      and open_at = demo_open_at]
  show ?thesis by auto
qed

text \<open>C21: \<open>NamedFile\<close> only ever sees contained requests. Whatever range and condition headers a client sends,
  \<open>file_response\<close> hands the file library requests without \<open>If-Range\<close> that ask for no range at all or, with
  \<open>GET\<close>, for one nonempty interval within the file, so that no end position wraps around or exceeds the
  file: two libraries that agree on such requests produce the same response. The empty, suffix and multiple
  ranges on which the library misbehaves never reach it.\<close>

theorem file_library_contained:
  assumes "header_laws h" and "builder_laws h vl"
    and "\<forall>n mt m. contained_request lib h vl n mt m \<longrightarrow> other n mt m = into_response lib n mt m"
  shows "file_response (lib\<lparr>into_response := other\<rparr>) h vl file meth headers base_status =
     file_response lib h vl file meth headers base_status"
proof -
  let ?lib = "lib\<lparr>into_response := other\<rparr>"
  have same: "unsupported_modified ?lib = unsupported_modified lib" "select_range ?lib = select_range lib"
    by (simp_all add: unsupported_modified_def select_range_def fun_eq_iff)
  have ifr: "if_range_matches ?lib h vl headers p = if_range_matches lib h vl headers p" for p
    by (simp add: if_range_matches_def cong: option.case_cong)
  have plain: "other n mt m = into_response lib n mt m"
    if "h_get_all h m ''range'' = []" "h_get_all h m ''if-range'' = []" for n mt m
    using assms(3) that by (simp add: contained_request_def)
  define c where "c \<longleftrightarrow> list_ex (has_header h headers)
    [''if-range'', ''range'', ''if-none-match'', ''if-match'', ''if-modified-since'', ''if-unmodified-since'']"
  have bare: "other n mt headers = into_response lib n mt headers" if "\<not> c" for n mt
    using that by (intro plain) (auto simp: c_def has_header_def h_get_def split: list.splits)
  have proj: "other n mt m = into_response lib n mt m"
    if "projected_headers h vl headers hg base_status = Some m" for n mt hg m
    using projected_no_range [OF assms(1,2) that] by (intro plain) auto
  have ranged: "range_response ?lib h vl n m v = range_response lib h vl n m v"
    if "projected_headers h vl headers hg base_status = Some m" for n hg m v
  proof -
    have "other n ''GET'' (add_header vl (foldl (\<lambda>r (name, v). add_header vl r name v) (h_empty h) (header_pairs h m))
           ''range'' (hv_of vl (show_range start len)))
        = into_response lib n ''GET'' (add_header vl (foldl (\<lambda>r (name, v). add_header vl r name v) (h_empty h)
             (header_pairs h m)) ''range'' (hv_of vl (show_range start len)))"
      if "file_len lib n = Inr filelen" "select_range lib t filelen = Some (start, len)" for filelen t start len
      using assms(3) range_request_contained [OF assms(1,2) \<open>projected_headers _ _ _ _ _ = _\<close> that] by blast
    then show ?thesis
      by (auto simp: range_response_def Let_def same(2) split: sum.splits option.splits)
  qed
  show ?thesis
  proof (cases "c")
    case False
    show ?thesis
      unfolding file_response_def Let_def same c_def [symmetric] using False
      by (simp add: bare [OF False] cong: if_cong split del: if_split)
  next
    case True
    show ?thesis
    proof (cases "projected_headers h vl headers (meth = ''GET'' \<or> meth = ''HEAD'') base_status")
      case None
      show ?thesis unfolding file_response_def Let_def same c_def [symmetric] None using True
        by (simp cong: if_cong split del: if_split)
    next
      case (Some m)
      show ?thesis
        unfolding file_response_def Let_def same c_def [symmetric] Some option.case using True
        by (simp add: proj [OF Some] ranged [OF Some] ifr cong: if_cong option.case_cong sum.case_cong split del: if_split)
    qed
  qed
qed

theorem file_library_contained_witness:
  "file_response (demo_files\<lparr>into_response := \<lambda>n mt m. if h_get_all list_headers m ''if-range'' = []
       then into_response demo_files n mt m else finish list_headers demo_values 500\<rparr>) list_headers demo_values
     [''a.js''] ''GET'' [(''range'', ''bytes=-0''), (''if-range'', ''x'')] 200 =
   file_response demo_files list_headers demo_values [''a.js''] ''GET'' [(''range'', ''bytes=-0''), (''if-range'', ''x'')] 200"
  by (rule file_library_contained [OF list_headers_laws demo_builder]) (simp add: contained_request_def)

end
