(* ===== verification/Snapshot.thy ===== *)
theory Snapshot
  imports Files "HOL-Library.Countable"
begin

text \<open>
  Durable response snapshots (\<^verbatim>\<open>src/static_routes.rs\<close>): the metadata stored beside a published page, the
  check that pairs it with the page, and the process-local memory of verified pairs.

  The JSON codec, the hash, and the constructors of header names, header values and status codes are arguments
  (the record \<open>snapshot_lib\<close>); \<open>snapshot_laws\<close> states what the code relies on: decoding inverts encoding, hashing
  by pieces hashes the whole, and what a header map yields can be rebuilt. An opened file is what the code
  observes of it: its identity and its bytes, each of which the system may refuse.
\<close>

section \<open>Opened files\<close>

record file_identity =
  id_device :: u64
  id_inode :: u64
  id_length :: u64
  id_changed :: "int \<times> int"
  id_modified :: "int \<times> int"

record opened_file =
  of_identity :: "io_error + file_identity"
  of_bytes :: "io_error + bytes"

section \<open>Stored responses\<close>

type_synonym stored_response = "nat \<times> string \<times> nat option \<times> (string \<times> bytes) list"

record ('hv, 'h) snapshot_lib =
  json_encode :: "stored_response \<Rightarrow> bytes"
  json_decode :: "bytes \<Rightarrow> io_error + stored_response"
  sha_new :: 'h
  sha_update :: "'h \<Rightarrow> bytes \<Rightarrow> 'h"
  sha_hex :: "'h \<Rightarrow> string"
  status_from_u16 :: "nat \<Rightarrow> nat option"
  name_from_bytes :: "string \<Rightarrow> string option"
  value_from_bytes :: "bytes \<Rightarrow> 'hv option"
  value_bytes :: "'hv \<Rightarrow> bytes"

definition sha256_hex :: "('hv, 'h) snapshot_lib \<Rightarrow> bytes \<Rightarrow> string" where
  "sha256_hex lib b = sha_hex lib (sha_update lib (sha_new lib) b)"

text \<open>\<open>body_digest\<close>: the file is read into a buffer of 16384 bytes until a read yields nothing.\<close>

function digest_loop :: "('hv, 'h) snapshot_lib \<Rightarrow> 'h \<Rightarrow> bytes \<Rightarrow> 'h" where
  "digest_loop lib d b =
     (if b = [] then d else digest_loop lib (sha_update lib d (take 16384 b)) (drop 16384 b))"
  by auto
termination by (relation "measure (\<lambda>(_, _, b). length b)") auto

declare digest_loop.simps [simp del]

definition body_digest :: "('hv, 'h) snapshot_lib \<Rightarrow> opened_file \<Rightarrow> io_error + string" where
  "body_digest lib f = res_bind (of_bytes f) (\<lambda>b. Inr (sha_hex lib (digest_loop lib (sha_new lib) b)))"

text \<open>The metadata of a page: \<open>write_static_route_managed\<close> captures status and headers as they are.\<close>

definition stored_of ::
  "('hv, 'h) snapshot_lib \<Rightarrow> ('hm, 'hv) header_ops \<Rightarrow> 'hm response_parts \<Rightarrow> bytes \<Rightarrow> stored_response" where
  "stored_of lib h parts html =
     (1, sha256_hex lib html, rp_status parts,
      map (\<lambda>(name, v). (name, value_bytes lib v)) (header_pairs h (rp_headers parts)))"

definition metadata_bytes :: "('hv, 'h) snapshot_lib \<Rightarrow> ('hm, 'hv) header_ops \<Rightarrow> 'hm response_parts \<Rightarrow> bytes \<Rightarrow> bytes" where
  "metadata_bytes lib h parts html = json_encode lib (stored_of lib h parts html)"

definition io_other :: io_error where
  "io_other = io_err OtherKind []"

fun append_stored ::
  "('hv, 'h) snapshot_lib \<Rightarrow> ('hm, 'hv) header_ops \<Rightarrow> 'hm \<Rightarrow> (string \<times> bytes) list \<Rightarrow> io_error + 'hm" where
  "append_stored lib h m [] = Inr m"
| "append_stored lib h m ((name, b) # rest) =
     (case name_from_bytes lib name of
        None \<Rightarrow> Inl io_other
      | Some n \<Rightarrow>
          (case value_from_bytes lib b of
             None \<Rightarrow> Inl io_other
           | Some v \<Rightarrow> append_stored lib h (h_append h m n v) rest))"

text \<open>Decoding and checking of a pair, without the memory.\<close>

definition verify_pair ::
  "('hv, 'h) snapshot_lib \<Rightarrow> ('hm, 'hv) header_ops \<Rightarrow> opened_file \<Rightarrow> opened_file \<Rightarrow> io_error + 'hm response_parts" where
  "verify_pair lib h file metadata =
     res_bind (res_bind (of_bytes metadata) (json_decode lib)) (\<lambda>(version, digest, status, headers).
       let inconsistent = Inl (io_err InvalidData ''inconsistent static representation'')
       in if version \<noteq> 1 then inconsistent
          else res_bind (body_digest lib file) (\<lambda>actual.
            if digest \<noteq> actual then inconsistent
            else res_bind (case status of
                             None \<Rightarrow> Inr None
                           | Some s \<Rightarrow> ok_or (map_option Some (status_from_u16 lib s)) io_other) (\<lambda>st.
                 res_bind (append_stored lib h (h_empty h) headers) (\<lambda>hm.
                   Inr \<lparr>rp_status = st, rp_headers = hm\<rparr>))))"

section \<open>The memory of verified pairs\<close>

record 'hm verified_entry =
  ve_html :: file_identity
  ve_metadata :: file_identity
  ve_parts :: "'hm response_parts"

type_synonym 'hm verified = "(string list \<times> 'hm verified_entry) list"

definition CAPACITY :: nat where
  "CAPACITY = 4096"

definition verified_lookup ::
  "'hm verified \<Rightarrow> string list \<Rightarrow> file_identity \<Rightarrow> file_identity \<Rightarrow> 'hm response_parts option" where
  "verified_lookup memory canonical html metadata =
     map_option ve_parts
       (opt_filter (\<lambda>e. ve_html e = html \<and> ve_metadata e = metadata) (map_of memory canonical))"

text \<open>The memory has one entry per path; a full memory is cleared before a new path enters.\<close>

definition verified_remember ::
  "'hm verified \<Rightarrow> string list \<Rightarrow> file_identity \<Rightarrow> file_identity \<Rightarrow> 'hm response_parts \<Rightarrow> 'hm verified" where
  "verified_remember memory canonical html metadata parts =
     (let kept = (if CAPACITY \<le> length memory \<and> map_of memory canonical = None then [] else memory)
      in (canonical, \<lparr>ve_html = html, ve_metadata = metadata, ve_parts = parts\<rparr>)
         # filter (\<lambda>(k, _). k \<noteq> canonical) kept)"

definition parse_static_snapshot ::
  "('hv, 'h) snapshot_lib \<Rightarrow> ('hm, 'hv) header_ops \<Rightarrow> 'hm verified \<Rightarrow> string list \<Rightarrow> opened_file \<times> opened_file option \<Rightarrow>
   'hm verified \<times> (io_error + (opened_file \<times> 'hm response_parts option))" where
  "parse_static_snapshot lib h memory canonical pinned =
     (case pinned of
        (file, None) \<Rightarrow> (memory, Inr (file, None))
      | (file, Some metadata) \<Rightarrow>
          (case (of_identity file, of_identity metadata) of
             (Inl e, _) \<Rightarrow> (memory, Inl e)
           | (Inr i, Inl e) \<Rightarrow> (memory, Inl e)
           | (Inr i, Inr j) \<Rightarrow>
               (case verified_lookup memory canonical i j of
                  Some parts \<Rightarrow> (memory, Inr (file, Some parts))
                | None \<Rightarrow>
                    (case verify_pair lib h file metadata of
                       Inl e \<Rightarrow> (memory, Inl e)
                     | Inr parts \<Rightarrow> (verified_remember memory canonical i j parts, Inr (file, Some parts))))))"

section \<open>What the code relies on\<close>

definition snapshot_laws :: "('hv, 'h) snapshot_lib \<Rightarrow> ('hm, 'hv) header_ops \<Rightarrow> bool" where
  "snapshot_laws lib h \<longleftrightarrow>
     (\<forall>x. json_decode lib (json_encode lib x) = Inr x)
     \<and> (\<forall>d. sha_update lib d [] = d) \<and> (\<forall>d a b. sha_update lib (sha_update lib d a) b = sha_update lib d (a @ b))
     \<and> (\<forall>s. 100 \<le> s \<and> s < 1000 \<longrightarrow> status_from_u16 lib s = Some s)
     \<and> (\<forall>m k. h_get_all h m k \<noteq> [] \<longrightarrow> name_from_bytes lib k = Some k)
     \<and> (\<forall>v. value_from_bytes lib (value_bytes lib v) = Some v)"

text \<open>An identity pins the bytes: what the memory assumes of the files it is shown.\<close>

definition pinned_files :: "opened_file set \<Rightarrow> bool" where
  "pinned_files F \<longleftrightarrow> (\<forall>f g i. f \<in> F \<longrightarrow> g \<in> F \<longrightarrow> of_identity f = Inr i \<longrightarrow> of_identity g = Inr i \<longrightarrow> of_bytes f = of_bytes g)"

section \<open>Lemmas\<close>

lemma digest_loop_update:
  assumes "snapshot_laws lib h"
  shows "digest_loop lib d b = sha_update lib d b"
  using assms
proof (induction lib d b rule: digest_loop.induct)
  case (1 lib d b)
  show ?case
  proof (cases "b = []")
    case True
    with 1(2) show ?thesis by (simp add: digest_loop.simps snapshot_laws_def)
  next
    case False
    have "digest_loop lib d b = sha_update lib (sha_update lib d (take 16384 b)) (drop 16384 b)"
      using 1(1) [OF False 1(2)] False by (simp add: digest_loop.simps [of lib d b])
    also have "\<dots> = sha_update lib d (take 16384 b @ drop 16384 b)"
      using 1(2) unfolding snapshot_laws_def by metis
    finally show ?thesis by (simp only: append_take_drop_id)
  qed
qed

lemma body_digest_eq:
  "snapshot_laws lib h \<Longrightarrow> of_bytes f = Inr b \<Longrightarrow> body_digest lib f = Inr (sha256_hex lib b)"
  by (simp add: body_digest_def sha256_hex_def digest_loop_update)

lemma append_stored_pairs:
  assumes "header_laws h" "snapshot_laws lib h"
    and "\<forall>(n, v) \<in> set ps. name_from_bytes lib n = Some n"
  shows "\<exists>m'. append_stored lib h m (map (\<lambda>(n, v). (n, value_bytes lib v)) ps) = Inr m'
    \<and> (\<forall>k. h_get_all h m' k = h_get_all h m k @ map snd (filter (\<lambda>(n, v). n = k) ps))"
  using assms(3)
proof (induction ps arbitrary: m)
  case (Cons p ps)
  obtain n v where p: "p = (n, v)" by force
  have v: "value_from_bytes lib (value_bytes lib v) = Some v" using assms(2) by (simp add: snapshot_laws_def)
  from Cons obtain m' where "append_stored lib h (h_append h m n v) (map (\<lambda>(n, v). (n, value_bytes lib v)) ps) = Inr m'"
    "\<forall>k. h_get_all h m' k = h_get_all h (h_append h m n v) k @ map snd (filter (\<lambda>(n, v). n = k) ps)"
    by fastforce
  with Cons.prems p v show ?case by (auto simp: header_lawsD(3) [OF assms(1)])
qed simp

lemma concat_pairs_select:
  "distinct ks \<Longrightarrow> map snd (filter (\<lambda>(n, v). n = k) (concat (map (\<lambda>x. map (\<lambda>v. (x, v)) (f x)) ks))) =
     (if k \<in> set ks then f k else [])"
proof (induction ks)
  case (Cons x ks)
  have "map snd (filter (\<lambda>(n, v). n = k) (map (\<lambda>v. (x, v)) (f x))) = (if x = k then f x else [])"
    by (simp add: filter_map comp_def)
  with Cons show ?case by auto
qed simp

lemma header_pairs_select:
  assumes "header_laws h"
  shows "map snd (filter (\<lambda>(n, v). n = k) (header_pairs h m)) = h_get_all h m k"
  using header_lawsD(5,6) [OF assms]
  by (simp add: header_pairs_def concat_pairs_select)

lemma verify_pair_bytes:
  "of_bytes f = of_bytes f' \<Longrightarrow> of_bytes m = of_bytes m' \<Longrightarrow> verify_pair lib h f m = verify_pair lib h f' m'"
proof -
  assume b: "of_bytes f = of_bytes f'" "of_bytes m = of_bytes m'"
  then have "body_digest lib f = body_digest lib f'" by (simp add: body_digest_def)
  with b show ?thesis unfolding verify_pair_def by (simp only:)
qed

text \<open>Every remembered pair verifies to what is remembered, and the memory is bounded.\<close>

definition memory_ok ::
  "('hv, 'h) snapshot_lib \<Rightarrow> ('hm, 'hv) header_ops \<Rightarrow> opened_file set \<Rightarrow> 'hm verified \<Rightarrow> bool" where
  "memory_ok lib h F memory \<longleftrightarrow>
     (\<forall>p e f m. map_of memory p = Some e \<longrightarrow> f \<in> F \<longrightarrow> m \<in> F \<longrightarrow> of_identity f = Inr (ve_html e) \<longrightarrow>
        of_identity m = Inr (ve_metadata e) \<longrightarrow> verify_pair lib h f m = Inr (ve_parts e))
     \<and> distinct (map fst memory) \<and> length memory \<le> CAPACITY"

lemma filter_key_length:
  assumes "distinct (map fst xs)"
  shows "length (filter (\<lambda>(k, _). k \<noteq> c) xs) = length xs - (if map_of xs c = None then 0 else 1)"
  using assms
proof (induction xs)
  case (Cons x xs)
  obtain k v where x: "x = (k, v)" by force
  have "filter (\<lambda>(k, _). k \<noteq> c) xs = xs" if "c \<notin> fst ` set xs" using that by (force simp: filter_id_conv)
  moreover have "map_of xs c \<noteq> None \<Longrightarrow> xs \<noteq> []" by auto
  ultimately show ?case using Cons x by (auto simp: map_of_eq_None_iff Suc_diff_le) force
qed simp

lemma map_of_filter_key: "p \<noteq> c \<Longrightarrow> map_of (filter (\<lambda>(k, _). k \<noteq> c) xs) p = map_of xs p"
  by (induction xs) auto

lemma memory_ok_remember:
  assumes "memory_ok lib h F memory" "pinned_files F" "f \<in> F" "m \<in> F" "of_identity f = Inr i" "of_identity m = Inr j"
    and "verify_pair lib h f m = Inr parts"
  shows "memory_ok lib h F (verified_remember memory c i j parts)"
proof -
  let ?kept = "if CAPACITY \<le> length memory \<and> map_of memory c = None then [] else memory"
  let ?rest = "filter (\<lambda>(k, _). k \<noteq> c) ?kept"
  have kept: "memory_ok lib h F ?kept" using assms(1) by (simp add: memory_ok_def)
  then have d: "distinct (map fst ?kept)" by (simp add: memory_ok_def)
  have "length ?rest < CAPACITY"
    using filter_key_length [OF d, of c] kept
    by (auto simp: memory_ok_def CAPACITY_def split: if_splits)
  moreover have "distinct (c # map fst ?rest)"
    using d by (auto simp: distinct_map_filter)
  moreover have "verify_pair lib h f' m' = Inr parts" if "f' \<in> F" "m' \<in> F" "of_identity f' = Inr i" "of_identity m' = Inr j" for f' m'
    using assms(2-7) that verify_pair_bytes [of f f' m m' lib h] unfolding pinned_files_def by metis
  moreover have "map_of ?rest p = map_of ?kept p" if "p \<noteq> c" for p using that by (rule map_of_filter_key)
  ultimately show ?thesis
    using kept unfolding memory_ok_def verified_remember_def Let_def by auto
qed

text \<open>The result of a read without the memory, and a sequence of reads that share one.\<close>

definition checked_snapshot ::
  "('hv, 'h) snapshot_lib \<Rightarrow> ('hm, 'hv) header_ops \<Rightarrow> opened_file \<times> opened_file option \<Rightarrow>
   io_error + (opened_file \<times> 'hm response_parts option)" where
  "checked_snapshot lib h pinned =
     (case pinned of
        (file, None) \<Rightarrow> Inr (file, None)
      | (file, Some metadata) \<Rightarrow>
          res_bind (of_identity file) (\<lambda>_. res_bind (of_identity metadata) (\<lambda>_.
            res_bind (verify_pair lib h file metadata) (\<lambda>parts. Inr (file, Some parts)))))"

fun read_snapshots ::
  "('hv, 'h) snapshot_lib \<Rightarrow> ('hm, 'hv) header_ops \<Rightarrow> 'hm verified \<Rightarrow> (string list \<times> opened_file \<times> opened_file option) list \<Rightarrow>
   'hm verified \<times> (io_error + (opened_file \<times> 'hm response_parts option)) list" where
  "read_snapshots lib h memory [] = (memory, [])"
| "read_snapshots lib h memory ((canonical, pinned) # rest) =
     (case parse_static_snapshot lib h memory canonical pinned of (memory', r) \<Rightarrow>
        (case read_snapshots lib h memory' rest of (memory'', rs) \<Rightarrow> (memory'', r # rs)))"

definition pinned_in :: "opened_file set \<Rightarrow> opened_file \<times> opened_file option \<Rightarrow> bool" where
  "pinned_in F pinned \<longleftrightarrow> fst pinned \<in> F \<and> (case snd pinned of Some m \<Rightarrow> m \<in> F | None \<Rightarrow> True)"

lemma parse_snapshot_checked:
  assumes "memory_ok lib h F memory" "pinned_files F" "pinned_in F pinned"
  shows "memory_ok lib h F (fst (parse_static_snapshot lib h memory c pinned))
    \<and> snd (parse_static_snapshot lib h memory c pinned) = checked_snapshot lib h pinned"
proof -
  obtain f mo where p: "pinned = (f, mo)" by force
  show ?thesis
  proof (cases mo)
    case None
    with assms(1) p show ?thesis by (simp add: parse_static_snapshot_def checked_snapshot_def)
  next
    case (Some m)
    with assms(3) p have F: "f \<in> F" "m \<in> F" by (auto simp: pinned_in_def)
    show ?thesis
    proof (cases "\<exists>i j. of_identity f = Inr i \<and> of_identity m = Inr j")
      case False
      with assms(1) p Some show ?thesis
        by (auto simp: parse_static_snapshot_def checked_snapshot_def split: sum.splits)
    next
      case True
      then obtain i j where id: "of_identity f = Inr i" "of_identity m = Inr j" by blast
      show ?thesis
      proof (cases "verified_lookup memory c i j")
        case None
        with assms(1) p Some id memory_ok_remember [OF assms(1,2) F id] show ?thesis
          by (auto simp: parse_static_snapshot_def checked_snapshot_def split: sum.splits)
      next
        case hit: (Some parts)
        then obtain e where "map_of memory c = Some e" "ve_html e = i" "ve_metadata e = j" "ve_parts e = parts"
          by (auto simp: verified_lookup_def opt_filter_def split: option.splits if_splits)
        with assms(1) F id have "verify_pair lib h f m = Inr parts" by (auto simp: memory_ok_def)
        with assms(1) p Some id hit show ?thesis by (simp add: parse_static_snapshot_def checked_snapshot_def)
      qed
    qed
  qed
qed

lemma read_snapshots_checked:
  assumes "memory_ok lib h F memory" "pinned_files F" "\<forall>(c, pinned) \<in> set reads. pinned_in F pinned"
  shows "memory_ok lib h F (fst (read_snapshots lib h memory reads))
    \<and> snd (read_snapshots lib h memory reads) = map (\<lambda>(c, pinned). checked_snapshot lib h pinned) reads"
  using assms(1,3)
proof (induction reads arbitrary: memory)
  case (Cons x reads)
  obtain c pinned where x: "x = (c, pinned)" by (cases x)
  obtain memory' r where p: "parse_static_snapshot lib h memory c pinned = (memory', r)" by force
  from parse_snapshot_checked [OF Cons.prems(1) assms(2), of pinned c] Cons.prems(2) x p
  have "memory_ok lib h F memory'" "r = checked_snapshot lib h pinned" by auto
  with Cons.IH [of memory'] Cons.prems(2) x p show ?case by (auto split: prod.splits)
qed simp

text \<open>A library that satisfies the laws: it numbers stored responses, and hashes by keeping everything.\<close>

definition demo_snapshots :: "(string, bytes) snapshot_lib" where
  "demo_snapshots = \<lparr>json_encode = (\<lambda>x. replicate (to_nat x) 0), json_decode = (\<lambda>b. Inr (from_nat (length b))),
     sha_new = [], sha_update = (@), sha_hex = map (\<lambda>w. char_of (unat w)), status_from_u16 = Some,
     name_from_bytes = Some, value_from_bytes = (\<lambda>b. Some (map (\<lambda>w. char_of (unat w)) b)),
     value_bytes = map (\<lambda>c. of_nat (of_char c))\<rparr>"

lemma byte_of_char: "char_of (unat (of_nat (of_char c) :: u8)) = c"
proof -
  have "of_char c < (256 :: nat)" using of_char_mod_256 [of c] by (metis mod_less_divisor zero_less_numeral)
  then show ?thesis by (simp add: unat_of_nat)
qed

lemma demo_snapshot_laws: "snapshot_laws demo_snapshots list_headers"
  by (simp add: snapshot_laws_def demo_snapshots_def comp_def byte_of_char)

definition demo_html :: opened_file where
  "demo_html = \<lparr>of_identity = Inr \<lparr>id_device = 1, id_inode = 2, id_length = 1, id_changed = (0, 0), id_modified = (0, 0)\<rparr>,
     of_bytes = Inr [104]\<rparr>"

definition demo_parts :: "(string \<times> string) list response_parts" where
  "demo_parts = \<lparr>rp_status = Some 201, rp_headers = [(''x-a'', ''1''), (''x-a'', ''2'')]\<rparr>"

definition demo_metadata :: opened_file where
  "demo_metadata = \<lparr>of_identity = Inr \<lparr>id_device = 1, id_inode = 3, id_length = 9, id_changed = (0, 0), id_modified = (0, 0)\<rparr>,
     of_bytes = Inr (metadata_bytes demo_snapshots list_headers demo_parts [104])\<rparr>"

lemma snapshot_check:
  assumes "header_laws h" and "snapshot_laws lib h"
    and "case rp_status parts of Some s \<Rightarrow> 100 \<le> s \<and> s < 1000 | None \<Rightarrow> True"
    and "of_bytes metadata = Inr (metadata_bytes lib h parts html)" and "of_bytes file = Inr body"
  shows "if sha256_hex lib body = sha256_hex lib html
    then \<exists>parts'. verify_pair lib h file metadata = Inr parts' \<and> rp_status parts' = rp_status parts
      \<and> (\<forall>k. h_get_all h (rp_headers parts') k = h_get_all h (rp_headers parts) k)
    else \<exists>e. verify_pair lib h file metadata = Inl e \<and> io_error_kind e = InvalidData"
proof -
  have dec: "res_bind (of_bytes metadata) (json_decode lib) = Inr (stored_of lib h parts html)"
    using assms(2,4) unfolding metadata_bytes_def snapshot_laws_def by (metis res_bind.simps(2))
  have st: "(case rp_status parts of None \<Rightarrow> Inr None | Some s \<Rightarrow> ok_or (map_option Some (status_from_u16 lib s)) io_other)
      = Inr (rp_status parts)"
    using assms(2,3) by (auto simp: snapshot_laws_def split: option.splits)
  have "\<forall>(n, v) \<in> set (header_pairs h (rp_headers parts)). name_from_bytes lib n = Some n"
    using header_pairs_names [OF assms(1)] assms(2) unfolding snapshot_laws_def by fast
  from append_stored_pairs [OF assms(1,2) this, of "h_empty h"] obtain m'
    where "append_stored lib h (h_empty h) (map (\<lambda>(n, v). (n, value_bytes lib v)) (header_pairs h (rp_headers parts))) = Inr m'"
      and "\<forall>k. h_get_all h m' k = h_get_all h (rp_headers parts) k"
    by (auto simp: header_lawsD(1) [OF assms(1)] header_pairs_select [OF assms(1)])
  then show ?thesis
    unfolding verify_pair_def dec body_digest_eq [OF assms(2,5)]
    by (simp add: stored_of_def st io_err_def)
qed

lemma verified_page:
  assumes "header_laws h" and "snapshot_laws lib h"
    and "case rp_status parts of Some s \<Rightarrow> 100 \<le> s \<and> s < 1000 | None \<Rightarrow> True"
    and "of_bytes metadata = Inr (metadata_bytes lib h parts html)" and "of_bytes file = Inr html"
  shows "\<exists>parts'. verify_pair lib h file metadata = Inr parts' \<and> rp_status parts' = rp_status parts
      \<and> (\<forall>k. h_get_all h (rp_headers parts') k = h_get_all h (rp_headers parts) k)"
  using snapshot_check [OF assms] by simp

section \<open>Properties\<close>

text \<open>A published page is read back as it was published. For a codec and a hash that behave as documented,
  verifying the HTML of a page against the metadata written for it returns the captured status and, for every
  name, exactly the captured header values in order; and HTML with any other digest is refused as
  inconsistent, so metadata is never served with a page it was not written for.\<close>

theorem published_page_roundtrip:
  assumes "header_laws h" and "snapshot_laws lib h"
    and "case rp_status parts of Some s \<Rightarrow> 100 \<le> s \<and> s < 1000 | None \<Rightarrow> True"
    and "of_bytes metadata = Inr (metadata_bytes lib h parts html)" and "of_bytes file = Inr body"
  shows "if sha256_hex lib body = sha256_hex lib html
    then \<exists>parts'. verify_pair lib h file metadata = Inr parts' \<and> rp_status parts' = rp_status parts
      \<and> (\<forall>k. h_get_all h (rp_headers parts') k = h_get_all h (rp_headers parts) k)
    else \<exists>e. verify_pair lib h file metadata = Inl e \<and> io_error_kind e = InvalidData"
  by (rule snapshot_check [OF assms])

theorem published_page_roundtrip_witness:
  "\<exists>parts'. verify_pair demo_snapshots list_headers demo_html demo_metadata = Inr parts' \<and> rp_status parts' = Some 201
    \<and> h_get_all list_headers (rp_headers parts') ''x-a'' = [''1'', ''2'']"
proof -
  have "of_bytes demo_metadata = Inr (metadata_bytes demo_snapshots list_headers demo_parts [104])"
    "of_bytes demo_html = Inr [104]" by (simp_all add: demo_metadata_def demo_html_def)
  from published_page_roundtrip [OF list_headers_laws demo_snapshot_laws _ this] show ?thesis
    by (fastforce simp: demo_parts_def list_headers_def)
qed

text \<open>C29: the memory of verified pairs is invisible. If file identities pin the bytes, then however many pages
  are read through one memory, in whatever order and with whatever replacements between the reads, every result,
  success or error, is the one that decoding and hashing anew would give, and the memory never holds more
  than its capacity.\<close>

theorem verified_memory_transparent:
  assumes "pinned_files F" and "\<forall>(c, pinned) \<in> set reads. pinned_in F pinned"
  shows "snd (read_snapshots lib h [] reads) = map (\<lambda>(c, pinned). checked_snapshot lib h pinned) reads
    \<and> length (fst (read_snapshots lib h [] reads)) \<le> CAPACITY"
  using read_snapshots_checked [OF _ assms, of lib h "[]"] by (simp add: memory_ok_def)

theorem verified_memory_transparent_witness:
  "snd (read_snapshots demo_snapshots list_headers [] (replicate 2 ([''p''], demo_html, Some demo_metadata))) =
     replicate 2 (checked_snapshot demo_snapshots list_headers (demo_html, Some demo_metadata))"
proof -
  have "pinned_files {demo_html, demo_metadata}" by (auto simp: pinned_files_def demo_html_def demo_metadata_def)
  from verified_memory_transparent [OF this, of "replicate 2 ([''p''], demo_html, Some demo_metadata)" demo_snapshots list_headers] show ?thesis
    by (simp add: pinned_in_def)
qed

end
