(* ===== verification/Publication.thy ===== *)
theory Publication
  imports Snapshot
begin

text \<open>
  Publication of a page and its metadata, and reading of the pair (\<open>write_static_route_managed\<close> and
  \<open>read_paired_static_file\<close> of \<^verbatim>\<open>src/static_routes.rs\<close>), as interleaved steps of any number of writers and
  readers of one page.

  A page is named by its contents: metadata written for page \<open>n\<close> verifies exactly with the HTML of page \<open>n\<close>
  (that the check does so is shown for snapshots). Opening, renaming and removing are single steps; the
  advisory lock on \<^verbatim>\<open>.leptos-static-publish.lock\<close> is shared by readers and exclusive for writers, and the
  system releases it when its holder ends. A writer may fail at any step, which drops its guards, or be killed,
  which leaves its temporary files.
\<close>

section \<open>The directory of a page\<close>

text \<open>A writer first holds the lock of its entry (\<open>Entered\<close>); \<open>Staged\<close> has the temporary HTML and \<open>Prepared\<close> also
  the temporary metadata; \<open>Waiting\<close> has created the publication lock and \<open>Locked\<close> holds it; at \<open>Described\<close> the
  metadata and at \<open>Replaced\<close> also the HTML has been renamed into place.\<close>

datatype writer_stage = Idle | Entered nat | Staged nat | Prepared nat | Waiting nat | Locked nat | Described nat
  | Replaced nat

datatype snapshot = Missing | Legacy_Page nat | Page nat | Inconsistent

text \<open>A reader at \<open>Resolved\<close> knows the canonical path of the page.\<close>

datatype reader_stage = Arrived | Resolved | Sharing | Holding | Lockless | Pinned_Html nat | Recheck snapshot | Done snapshot

record page_dir =
  pd_lock_entry :: bool
  pd_entry_lock :: "nat option"
  pd_exclusive :: "nat option"
  pd_shared :: "nat set"
  pd_html :: "nat option"
  pd_metadata :: "nat option"
  pd_temps :: "(nat \<times> bool) set"
  pd_writers :: "nat \<Rightarrow> writer_stage"
  pd_readers :: "nat \<Rightarrow> reader_stage"
  pd_failed :: bool
  pd_killed :: "nat set"
  pd_published :: "nat set"

definition dir_init :: "nat option \<Rightarrow> page_dir" where
  "dir_init html = \<lparr>pd_lock_entry = False, pd_entry_lock = None, pd_exclusive = None, pd_shared = {}, pd_html = html,
     pd_metadata = None, pd_temps = {}, pd_writers = (\<lambda>_. Idle), pd_readers = (\<lambda>_. Arrived), pd_failed = False,
     pd_killed = {}, pd_published = set_option html\<rparr>"

text \<open>What pinned handles amount to: the HTML is opened first, and metadata that is absent marks a page of an
  older publisher.\<close>

fun pair_of :: "nat option \<Rightarrow> nat option \<Rightarrow> snapshot" where
  "pair_of None _ = Missing"
| "pair_of (Some h) None = Legacy_Page h"
| "pair_of (Some h) (Some m) = (if h = m then Page h else Inconsistent)"

section \<open>Steps of a writer\<close>

definition set_writer :: "page_dir \<Rightarrow> nat \<Rightarrow> writer_stage \<Rightarrow> page_dir" where
  "set_writer s w x = s\<lparr>pd_writers := (pd_writers s)(w := x)\<rparr>"

definition release :: "page_dir \<Rightarrow> nat \<Rightarrow> page_dir" where
  "release s w = s\<lparr>pd_entry_lock := (if pd_entry_lock s = Some w then None else pd_entry_lock s),
     pd_exclusive := (if pd_exclusive s = Some w then None else pd_exclusive s)\<rparr>"

text \<open>\<open>TempFileGuard\<close>: dropped unpublished, it removes its file.\<close>

definition drop_temps :: "page_dir \<Rightarrow> nat \<Rightarrow> page_dir" where
  "drop_temps s w = s\<lparr>pd_temps := pd_temps s - {(w, True), (w, False)}\<rparr>"

text \<open>\<open>publish_file\<close>: the temporary file is renamed over the entry.\<close>

definition publish_metadata :: "page_dir \<Rightarrow> nat \<Rightarrow> nat \<Rightarrow> page_dir" where
  "publish_metadata s w n = s\<lparr>pd_metadata := Some n, pd_temps := pd_temps s - {(w, False)}\<rparr>"

definition publish_html :: "page_dir \<Rightarrow> nat \<Rightarrow> nat \<Rightarrow> page_dir" where
  "publish_html s w n = s\<lparr>pd_html := Some n, pd_temps := pd_temps s - {(w, True)}, pd_published := insert n (pd_published s)\<rparr>"

fun torn :: "writer_stage \<Rightarrow> bool" where
  "torn (Described n) \<longleftrightarrow> True"
| "torn _ \<longleftrightarrow> False"

inductive write_step :: "page_dir \<Rightarrow> page_dir \<Rightarrow> bool" where
  entered: "pd_writers s w = Idle \<Longrightarrow> w \<notin> pd_killed s \<Longrightarrow> pd_entry_lock s = None \<Longrightarrow>
     write_step s ((set_writer s w (Entered n))\<lparr>pd_entry_lock := Some w\<rparr>)"
| html_staged: "pd_writers s w = Entered n \<Longrightarrow>
     write_step s ((set_writer s w (Staged n))\<lparr>pd_temps := insert (w, True) (pd_temps s)\<rparr>)"
| metadata_staged: "pd_writers s w = Staged n \<Longrightarrow>
     write_step s ((set_writer s w (Prepared n))\<lparr>pd_temps := insert (w, False) (pd_temps s)\<rparr>)"
| lock_created: "pd_writers s w = Prepared n \<Longrightarrow>
     write_step s ((set_writer s w (Waiting n))\<lparr>pd_lock_entry := True\<rparr>)"
| lock_acquired: "pd_writers s w = Waiting n \<Longrightarrow> pd_exclusive s = None \<Longrightarrow> pd_shared s = {} \<Longrightarrow>
     write_step s ((set_writer s w (Locked n))\<lparr>pd_exclusive := Some w\<rparr>)"
| metadata_published: "pd_writers s w = Locked n \<Longrightarrow>
     write_step s (set_writer (publish_metadata s w n) w (Described n))"
| html_published: "pd_writers s w = Described n \<Longrightarrow>
     write_step s (set_writer (publish_html s w n) w (Replaced n))"
| committed: "pd_writers s w = Replaced n \<Longrightarrow>
     write_step s (set_writer (release s w) w Idle)"
| failed: "pd_writers s w \<noteq> Idle \<Longrightarrow>
     write_step s ((set_writer (drop_temps (release s w) w) w Idle)\<lparr>pd_failed := pd_failed s \<or> torn (pd_writers s w)\<rparr>)"
| killed: "pd_writers s w \<noteq> Idle \<Longrightarrow>
     write_step s ((set_writer (release s w) w Idle)
       \<lparr>pd_failed := pd_failed s \<or> torn (pd_writers s w), pd_killed := insert w (pd_killed s)\<rparr>)"

section \<open>Steps of a reader\<close>

definition set_reader :: "page_dir \<Rightarrow> nat \<Rightarrow> reader_stage \<Rightarrow> page_dir" where
  "set_reader s r x = s\<lparr>pd_readers := (pd_readers s)(r := x)\<rparr>"

text \<open>The outcome of opening the HTML without the lock: an absent page may still be published meanwhile.\<close>

fun after_html :: "nat option \<Rightarrow> reader_stage" where
  "after_html None = Recheck Missing"
| "after_html (Some h) = Pinned_Html h"

text \<open>The outcome of opening the metadata without the lock: an absent one settles a page of an older publisher.\<close>

fun after_metadata :: "nat \<Rightarrow> nat option \<Rightarrow> reader_stage" where
  "after_metadata h None = Done (Legacy_Page h)"
| "after_metadata h (Some m) = Recheck (pair_of (Some h) (Some m))"

inductive read_step :: "page_dir \<Rightarrow> page_dir \<Rightarrow> bool" where
  absent: "pd_readers s r = Arrived \<Longrightarrow> pd_html s = None \<Longrightarrow> read_step s (set_reader s r (Done Missing))"
| resolved: "pd_readers s r = Arrived \<Longrightarrow> pd_html s \<noteq> None \<Longrightarrow> read_step s (set_reader s r Resolved)"
| lock_found: "pd_readers s r = Resolved \<Longrightarrow> pd_lock_entry s \<Longrightarrow> read_step s (set_reader s r Sharing)"
| lock_missing: "pd_readers s r = Resolved \<Longrightarrow> \<not> pd_lock_entry s \<Longrightarrow> read_step s (set_reader s r Lockless)"
| share_acquired: "pd_readers s r = Sharing \<Longrightarrow> pd_exclusive s = None \<Longrightarrow>
     read_step s ((set_reader s r Holding)\<lparr>pd_shared := insert r (pd_shared s)\<rparr>)"
| pinned_locked: "pd_readers s r = Holding \<Longrightarrow>
     read_step s ((set_reader s r (Done (pair_of (pd_html s) (pd_metadata s))))\<lparr>pd_shared := pd_shared s - {r}\<rparr>)"
| pinned_html: "pd_readers s r = Lockless \<Longrightarrow> read_step s (set_reader s r (after_html (pd_html s)))"
| pinned_metadata: "pd_readers s r = Pinned_Html h \<Longrightarrow> read_step s (set_reader s r (after_metadata h (pd_metadata s)))"
| still_lockless: "pd_readers s r = Recheck x \<Longrightarrow> \<not> pd_lock_entry s \<Longrightarrow> read_step s (set_reader s r (Done x))"
| lock_appeared: "pd_readers s r = Recheck x \<Longrightarrow> pd_lock_entry s \<Longrightarrow> read_step s (set_reader s r Sharing)"
| left: "pd_readers s r = Done x \<Longrightarrow> read_step s (set_reader s r Arrived)"

inductive dir_reachable :: "nat option \<Rightarrow> page_dir \<Rightarrow> bool" for html where
  dir_start: "dir_reachable html (dir_init html)"
| dir_write: "dir_reachable html s \<Longrightarrow> write_step s t \<Longrightarrow> dir_reachable html t"
| dir_read: "dir_reachable html s \<Longrightarrow> read_step s t \<Longrightarrow> dir_reachable html t"

section \<open>Invariants\<close>

fun holds_lock :: "writer_stage \<Rightarrow> bool" where
  "holds_lock (Locked _) \<longleftrightarrow> True"
| "holds_lock (Described _) \<longleftrightarrow> True"
| "holds_lock (Replaced _) \<longleftrightarrow> True"
| "holds_lock _ \<longleftrightarrow> False"

fun past_lock_entry :: "writer_stage \<Rightarrow> bool" where
  "past_lock_entry Idle \<longleftrightarrow> False"
| "past_lock_entry (Entered _) \<longleftrightarrow> False"
| "past_lock_entry (Staged _) \<longleftrightarrow> False"
| "past_lock_entry (Prepared _) \<longleftrightarrow> False"
| "past_lock_entry _ \<longleftrightarrow> True"

text \<open>The stage of the active writer, the one that holds the lock of the entry.\<close>

definition active :: "page_dir \<Rightarrow> writer_stage" where
  "active s = (case pd_entry_lock s of Some w \<Rightarrow> pd_writers s w | None \<Rightarrow> Idle)"

fun paired :: "page_dir \<Rightarrow> writer_stage \<Rightarrow> bool" where
  "paired s (Described n) \<longleftrightarrow> pd_metadata s = Some n"
| "paired s _ \<longleftrightarrow> pd_metadata s = None \<or> pd_metadata s = pd_html s \<or> pd_failed s"

text \<open>The entries of the directory: \<open>html\<close> is the page of an older publisher.\<close>

definition entries_ok :: "nat option \<Rightarrow> page_dir \<Rightarrow> bool" where
  "entries_ok html s \<longleftrightarrow>
     (pd_metadata s = None \<longrightarrow> pd_html s = html)
     \<and> (pd_metadata s \<noteq> None \<longrightarrow> pd_lock_entry s)
     \<and> (html \<noteq> None \<longrightarrow> pd_html s \<noteq> None)
     \<and> set_option (pd_html s) \<subseteq> pd_published s
     \<and> paired s (active s)"

definition locks_ok :: "page_dir \<Rightarrow> bool" where
  "locks_ok s \<longleftrightarrow>
     (\<forall>w. pd_writers s w \<noteq> Idle \<longleftrightarrow> pd_entry_lock s = Some w)
     \<and> (\<forall>w. holds_lock (pd_writers s w) \<longleftrightarrow> pd_exclusive s = Some w)
     \<and> (\<forall>w. past_lock_entry (pd_writers s w) \<longrightarrow> pd_lock_entry s)
     \<and> (\<forall>r. r \<in> pd_shared s \<longleftrightarrow> pd_readers s r = Holding)
     \<and> (pd_exclusive s \<noteq> None \<longrightarrow> pd_shared s = {})"

text \<open>What a result says of the directory: \<open>Inconsistent\<close> needs a publication that broke between its two renames.\<close>

fun result_ok :: "nat option \<Rightarrow> page_dir \<Rightarrow> snapshot \<Rightarrow> bool" where
  "result_ok html s Missing \<longleftrightarrow> html = None"
| "result_ok html s (Legacy_Page n) \<longleftrightarrow> html = Some n"
| "result_ok html s (Page n) \<longleftrightarrow> n \<in> pd_published s"
| "result_ok html s Inconsistent \<longleftrightarrow> pd_failed s"

text \<open>A reader's stage: what has been pinned without the lock, and what was returned.\<close>

fun reader_ok :: "nat option \<Rightarrow> page_dir \<Rightarrow> reader_stage \<Rightarrow> bool" where
  "reader_ok html s (Pinned_Html h) \<longleftrightarrow> pd_metadata s \<noteq> None \<or> html = Some h"
| "reader_ok html s (Recheck x) \<longleftrightarrow> pd_lock_entry s \<or> x = Missing \<and> html = None"
| "reader_ok html s (Done x) \<longleftrightarrow> result_ok html s x"
| "reader_ok html s _ \<longleftrightarrow> True"

text \<open>The temporary files of a writer that has not been killed are those of its stage (\<open>True\<close> for the HTML).\<close>

fun own_temp :: "writer_stage \<Rightarrow> bool \<Rightarrow> bool" where
  "own_temp (Staged _) html \<longleftrightarrow> html"
| "own_temp (Prepared _) html \<longleftrightarrow> True"
| "own_temp (Waiting _) html \<longleftrightarrow> True"
| "own_temp (Locked _) html \<longleftrightarrow> True"
| "own_temp (Described _) html \<longleftrightarrow> html"
| "own_temp _ html \<longleftrightarrow> False"

definition temp_ok :: "page_dir \<Rightarrow> nat \<Rightarrow> bool \<Rightarrow> bool" where
  "temp_ok s w b \<longleftrightarrow>
     (w \<in> pd_killed s \<longrightarrow> pd_writers s w = Idle) \<and> (w \<in> pd_killed s \<or> ((w, b) \<in> pd_temps s) = own_temp (pd_writers s w) b)"

definition dir_ok :: "nat option \<Rightarrow> page_dir \<Rightarrow> bool" where
  "dir_ok html s \<longleftrightarrow> entries_ok html s \<and> locks_ok s \<and> (\<forall>r. reader_ok html s (pd_readers s r)) \<and> (\<forall>w b. temp_ok s w b)"

lemmas dir_defs = set_writer_def release_def drop_temps_def publish_metadata_def publish_html_def set_reader_def

section \<open>Preservation\<close>

lemma result_ok_mono:
  "result_ok html s x \<Longrightarrow> pd_published s \<subseteq> pd_published t \<Longrightarrow> (pd_failed s \<longrightarrow> pd_failed t) \<Longrightarrow> result_ok html t x"
  by (cases x) auto

lemma reader_ok_mono:
  assumes "reader_ok html s x" "pd_published s \<subseteq> pd_published t" "pd_failed s \<longrightarrow> pd_failed t"
    "pd_lock_entry s \<longrightarrow> pd_lock_entry t" "pd_metadata s \<noteq> None \<longrightarrow> pd_metadata t \<noteq> None"
  shows "reader_ok html t x"
  using assms by (cases x) (auto intro: result_ok_mono)

lemma write_step_grows:
  assumes "write_step s t"
  shows "pd_readers t = pd_readers s \<and> pd_published s \<subseteq> pd_published t \<and> (pd_failed s \<longrightarrow> pd_failed t)
    \<and> (pd_lock_entry s \<longrightarrow> pd_lock_entry t) \<and> (pd_metadata s \<noteq> None \<longrightarrow> pd_metadata t \<noteq> None)"
  using assms by cases (auto simp: dir_defs)

lemma holds_lock_past: "holds_lock x \<Longrightarrow> past_lock_entry x"
  by (cases x) auto

lemma torn_iff: "torn x \<longleftrightarrow> (\<exists>n. x = Described n)"
  by (cases x) auto

text \<open>At most one writer is active, and its stage determines both locks.\<close>

lemma sole_writer:
  assumes "locks_ok s" "pd_entry_lock s = None \<or> pd_entry_lock s = Some w"
  shows "(pd_writers s)(w := x) = (\<lambda>_. Idle)(w := x)"
    and "pd_exclusive s = (if holds_lock (pd_writers s w) then Some w else None)"
proof -
  have idle: "pd_writers s v = Idle" if "v \<noteq> w" for v using assms that by (auto simp: locks_ok_def)
  then show "(pd_writers s)(w := x) = (\<lambda>_. Idle)(w := x)" by (simp add: fun_eq_iff)
  show "pd_exclusive s = (if holds_lock (pd_writers s w) then Some w else None)"
  proof (cases "pd_exclusive s")
    case None
    then show ?thesis using assms(1) by (auto simp: locks_ok_def)
  next
    case (Some v)
    then have "holds_lock (pd_writers s v)" using assms(1) by (simp add: locks_ok_def)
    with idle Some show ?thesis by (cases "v = w") auto
  qed
qed

lemma sole_locks:
  assumes "pd_writers t = (\<lambda>_. Idle)(w := x)" "pd_entry_lock t = (if x = Idle then None else Some w)"
    and "pd_exclusive t = (if holds_lock x then Some w else None)" "past_lock_entry x \<longrightarrow> pd_lock_entry t"
    and "\<forall>r. r \<in> pd_shared t \<longleftrightarrow> pd_readers t r = Holding" "holds_lock x \<longrightarrow> pd_shared t = {}"
  shows "locks_ok t"
  using assms by (cases "x = Idle") (auto simp: locks_ok_def)

lemma write_step_locks:
  assumes "write_step s t" "locks_ok s"
  shows "locks_ok t"
proof -
  have sh: "\<forall>r. r \<in> pd_shared s \<longleftrightarrow> pd_readers s r = Holding" "pd_exclusive s \<noteq> None \<longrightarrow> pd_shared s = {}"
    using assms(2) by (simp_all add: locks_ok_def)
  have own: "pd_entry_lock s = Some w" "past_lock_entry (pd_writers s w) \<longrightarrow> pd_lock_entry s" if "pd_writers s w \<noteq> Idle" for w
    using assms(2) that by (auto simp: locks_ok_def)
  note sole = sole_writer [OF assms(2)]
  from assms(1) show ?thesis
  proof cases
    case (entered w n)
    with sole [of w] sh show ?thesis by (intro sole_locks [of t w "Entered n"]) (simp_all add: dir_defs)
  next
    case (html_staged w n)
    with sole [of w] own [of w] sh show ?thesis by (intro sole_locks [of t w "Staged n"]) (simp_all add: dir_defs)
  next
    case (metadata_staged w n)
    with sole [of w] own [of w] sh show ?thesis by (intro sole_locks [of t w "Prepared n"]) (simp_all add: dir_defs)
  next
    case (lock_created w n)
    with sole [of w] own [of w] sh show ?thesis by (intro sole_locks [of t w "Waiting n"]) (simp_all add: dir_defs)
  next
    case (lock_acquired w n)
    with sole [of w] own [of w] sh show ?thesis by (intro sole_locks [of t w "Locked n"]) (simp_all add: dir_defs)
  next
    case (metadata_published w n)
    with sole [of w] own [of w] sh show ?thesis by (intro sole_locks [of t w "Described n"]) (simp_all add: dir_defs)
  next
    case (html_published w n)
    with sole [of w] own [of w] sh show ?thesis by (intro sole_locks [of t w "Replaced n"]) (simp_all add: dir_defs)
  next
    case (committed w n)
    with sole [of w] own [of w] sh show ?thesis by (intro sole_locks [of t w Idle]) (simp_all add: dir_defs)
  next
    case (failed w)
    with sole [of w] own [of w] sh show ?thesis by (intro sole_locks [of t w Idle]) (simp_all add: dir_defs)
  next
    case (killed w)
    with sole [of w] own [of w] sh show ?thesis by (intro sole_locks [of t w Idle]) (simp_all add: dir_defs)
  qed
qed

lemma active_stage:
  assumes "locks_ok s" "pd_writers s w \<noteq> Idle"
  shows "pd_entry_lock s = Some w" "active s = pd_writers s w" "past_lock_entry (pd_writers s w) \<longrightarrow> pd_lock_entry s"
  using assms by (auto simp: locks_ok_def active_def)

lemma paired_settled: "\<not> torn x \<Longrightarrow> paired s x \<longleftrightarrow> pd_metadata s = None \<or> pd_metadata s = pd_html s \<or> pd_failed s"
  by (cases x) auto

lemma paired_cong:
  "pd_metadata t = pd_metadata s \<Longrightarrow> pd_html t = pd_html s \<Longrightarrow> pd_failed t = pd_failed s \<Longrightarrow> paired t x = paired s x"
  by (cases x) auto

lemma entries_settled:
  assumes "entries_ok html s" "\<not> torn (active s)" "\<not> torn (active t)"
    and "pd_html t = pd_html s" "pd_metadata t = pd_metadata s" "pd_failed t = pd_failed s" "pd_published t = pd_published s"
    and "pd_lock_entry s \<longrightarrow> pd_lock_entry t"
  shows "entries_ok html t"
  using assms by (simp add: entries_ok_def paired_settled)

lemma write_step_entries:
  assumes "write_step s t" "entries_ok html s" "locks_ok s"
  shows "entries_ok html t"
  using assms(1)
proof cases
  case (entered w n)
  then show ?thesis by (intro entries_settled [OF assms(2)]) (simp_all add: dir_defs active_def)
next
  case (html_staged w n)
  with active_stage [OF assms(3), of w] show ?thesis
    by (intro entries_settled [OF assms(2)]) (simp_all add: dir_defs active_def)
next
  case (metadata_staged w n)
  with active_stage [OF assms(3), of w] show ?thesis
    by (intro entries_settled [OF assms(2)]) (simp_all add: dir_defs active_def)
next
  case (lock_created w n)
  with active_stage [OF assms(3), of w] show ?thesis
    by (intro entries_settled [OF assms(2)]) (simp_all add: dir_defs active_def)
next
  case (lock_acquired w n)
  with active_stage [OF assms(3), of w] show ?thesis
    by (intro entries_settled [OF assms(2)]) (simp_all add: dir_defs active_def)
next
  case (committed w n)
  with active_stage [OF assms(3), of w] show ?thesis
    by (intro entries_settled [OF assms(2)]) (simp_all add: dir_defs active_def)
next
  case (metadata_published w n)
  with assms(2) active_stage [OF assms(3), of w] show ?thesis by (simp add: entries_ok_def dir_defs active_def)
next
  case (html_published w n)
  with assms(2) active_stage [OF assms(3), of w] show ?thesis by (simp add: entries_ok_def dir_defs active_def)
next
  case (failed w)
  with assms(2) active_stage [OF assms(3), of w] paired_settled [of "pd_writers s w" s] show ?thesis
    by (cases "torn (pd_writers s w)") (simp_all add: entries_ok_def dir_defs active_def)
next
  case (killed w)
  with assms(2) active_stage [OF assms(3), of w] paired_settled [of "pd_writers s w" s] show ?thesis
    by (cases "torn (pd_writers s w)") (simp_all add: entries_ok_def dir_defs active_def)
qed

lemma write_step_temps:
  assumes "write_step s t" "temp_ok s v b"
  shows "temp_ok t v b"
  using assms(1)
proof cases
  case (entered w n)
  with assms(2) show ?thesis by (cases "v = w") (simp_all add: temp_ok_def dir_defs)
next
  case (html_staged w n)
  with assms(2) show ?thesis by (cases "v = w"; cases b) (simp_all add: temp_ok_def dir_defs)
next
  case (metadata_staged w n)
  with assms(2) show ?thesis by (cases "v = w"; cases b) (simp_all add: temp_ok_def dir_defs)
next
  case (metadata_published w n)
  with assms(2) show ?thesis by (cases "v = w"; cases b) (simp_all add: temp_ok_def dir_defs)
next
  case (html_published w n)
  with assms(2) show ?thesis by (cases "v = w"; cases b) (simp_all add: temp_ok_def dir_defs)
next
  case (failed w)
  with assms(2) show ?thesis by (cases "v = w"; cases b) (simp_all add: temp_ok_def dir_defs)
next
  case (killed w)
  with assms(2) show ?thesis by (cases "v = w") (simp_all add: temp_ok_def dir_defs)
next
  case (lock_created w n)
  with assms(2) show ?thesis by (cases "v = w") (auto simp: temp_ok_def dir_defs)
next
  case (lock_acquired w n)
  with assms(2) show ?thesis by (cases "v = w") (auto simp: temp_ok_def dir_defs)
next
  case (committed w n)
  with assms(2) show ?thesis by (cases "v = w") (auto simp: temp_ok_def dir_defs)
qed

lemma write_step_ok:
  assumes "write_step s t" "dir_ok html s"
  shows "dir_ok html t"
proof -
  have "reader_ok html t (pd_readers t r)" for r
    using write_step_grows [OF assms(1)] assms(2) reader_ok_mono [of html s "pd_readers s r" t] by (simp add: dir_ok_def)
  with assms show ?thesis
    by (simp add: dir_ok_def write_step_entries write_step_locks write_step_temps)
qed

lemma after_not_holding [simp]: "after_html x \<noteq> Holding" "after_metadata h y \<noteq> Holding"
  by (cases x; simp) (cases y; simp)

lemma read_step_shared:
  assumes "read_step s t" "\<forall>r. r \<in> pd_shared s \<longleftrightarrow> pd_readers s r = Holding"
  shows "(\<forall>r. r \<in> pd_shared t \<longleftrightarrow> pd_readers t r = Holding) \<and> pd_exclusive t = pd_exclusive s
    \<and> (pd_exclusive s \<noteq> None \<longrightarrow> pd_shared s = {} \<longrightarrow> pd_shared t = {})"
  using assms by cases (simp_all add: set_reader_def)

lemma read_step_keeps:
  assumes "read_step s t"
  shows "pd_html t = pd_html s \<and> pd_metadata t = pd_metadata s \<and> pd_lock_entry t = pd_lock_entry s
    \<and> pd_writers t = pd_writers s \<and> pd_failed t = pd_failed s \<and> pd_published t = pd_published s
    \<and> pd_temps t = pd_temps s \<and> pd_killed t = pd_killed s \<and> pd_entry_lock t = pd_entry_lock s"
  using assms by cases (auto simp: set_reader_def)

lemma read_step_locks:
  assumes "read_step s t" "locks_ok s"
  shows "locks_ok t"
  using assms read_step_keeps [OF assms(1)] read_step_shared [OF assms(1)] by (simp add: locks_ok_def)

lemma holding_pair_ok:
  assumes "dir_ok html s" "pd_readers s r = Holding"
  shows "result_ok html s (pair_of (pd_html s) (pd_metadata s))"
proof -
  have e: "entries_ok html s" and l: "locks_ok s" using assms(1) by (simp_all add: dir_ok_def)
  from l assms(2) have "pd_exclusive s = None" unfolding locks_ok_def by blast
  with l have "\<not> holds_lock (pd_writers s w)" for w by (simp add: locks_ok_def)
  then have "\<not> torn (active s)" unfolding active_def torn_iff
    by (cases "pd_entry_lock s") (simp, metis holds_lock.simps(2) option.simps(5))
  with e have "pd_metadata s = None \<or> pd_metadata s = pd_html s \<or> pd_failed s"
    by (simp add: entries_ok_def paired_settled)
  with e show ?thesis
    by (cases "pd_html s"; cases "pd_metadata s"; cases html) (auto simp: entries_ok_def)
qed

lemma read_step_ok:
  assumes "read_step s t" "dir_ok html s"
  shows "dir_ok html t"
proof -
  have act: "active t = active s"
    using read_step_keeps [OF assms(1)] by (cases "pd_entry_lock s") (simp_all add: active_def)
  have rest: "entries_ok html t" "locks_ok t" "\<forall>w b. temp_ok t w b"
    using assms read_step_keeps [OF assms(1)] read_step_locks [OF assms(1)] paired_cong [of t s] act
    by (simp_all add: dir_ok_def entries_ok_def temp_ok_def)
  have mono: "reader_ok html t x" if "reader_ok html s x" for x
    using that read_step_keeps [OF assms(1)] by (auto intro: reader_ok_mono)
  have e: "entries_ok html s" and old: "\<forall>r. reader_ok html s (pd_readers s r)" using assms(2) by (simp_all add: dir_ok_def)
  have step: ?thesis if "pd_readers t = (pd_readers s)(r := x)" "reader_ok html s x" for r x
    using rest mono old that by (simp add: dir_ok_def)
  show ?thesis
    using assms(1)
  proof cases
    case (pinned_locked r)
    with holding_pair_ok [OF assms(2), of r] show ?thesis
      by (intro step [of r "Done (pair_of (pd_html s) (pd_metadata s))"]) (simp_all add: set_reader_def)
  next
    case (pinned_html r)
    moreover from e have "reader_ok html s (after_html (pd_html s))" by (cases "pd_html s") (auto simp: entries_ok_def)
    ultimately show ?thesis by (intro step) (simp_all add: set_reader_def)
  next
    case (pinned_metadata r h)
    from old pinned_metadata(2) have "reader_ok html s (Pinned_Html h)" by metis
    with e have "reader_ok html s (after_metadata h (pd_metadata s))" by (cases "pd_metadata s") (auto simp: entries_ok_def)
    with pinned_metadata show ?thesis by (intro step) (simp_all add: set_reader_def)
  next
    case (still_lockless r x)
    from old still_lockless(2) have "reader_ok html s (Recheck x)" by metis
    with still_lockless show ?thesis by (intro step [of r "Done x"]) (simp_all add: set_reader_def)
  next
    case (absent r)
    with e have "html = None" by (auto simp: entries_ok_def)
    with absent show ?thesis by (intro step [of r "Done Missing"]) (simp_all add: set_reader_def)
  next
    case (resolved r)
    then show ?thesis by (intro step [of r Resolved]) (simp_all add: set_reader_def)
  next
    case (lock_found r)
    then show ?thesis by (intro step [of r Sharing]) (simp_all add: set_reader_def)
  next
    case (lock_missing r)
    then show ?thesis by (intro step [of r Lockless]) (simp_all add: set_reader_def)
  next
    case (share_acquired r)
    then show ?thesis by (intro step [of r Holding]) (simp_all add: set_reader_def)
  next
    case (lock_appeared r x)
    then show ?thesis by (intro step [of r Sharing]) (simp_all add: set_reader_def)
  next
    case (left r x)
    then show ?thesis by (intro step [of r Arrived]) (simp_all add: set_reader_def)
  qed
qed

lemma reachable_dir_ok: "dir_reachable html s \<Longrightarrow> dir_ok html s"
proof (induction rule: dir_reachable.induct)
  case dir_start
  show ?case by (cases html) (auto simp: dir_ok_def dir_init_def entries_ok_def locks_ok_def temp_ok_def active_def)
qed (auto intro: write_step_ok read_step_ok)

text \<open>A run: writer 0 publishes page \<open>n\<close> beside no older page, and reader 1 then reads it.\<close>

lemma published_run:
  obtains s where "dir_reachable None s" "pd_readers s 1 = Done (Page n)" "pd_temps s = {}" "pd_writers s 0 = Idle"
proof -
  define s0 where "s0 = dir_init None"
  define s1 where "s1 = (set_writer s0 0 (Entered n))\<lparr>pd_entry_lock := Some 0\<rparr>"
  define s2 where "s2 = (set_writer s1 0 (Staged n))\<lparr>pd_temps := insert (0, True) (pd_temps s1)\<rparr>"
  define s3 where "s3 = (set_writer s2 0 (Prepared n))\<lparr>pd_temps := insert (0, False) (pd_temps s2)\<rparr>"
  define s4 where "s4 = (set_writer s3 0 (Waiting n))\<lparr>pd_lock_entry := True\<rparr>"
  define s5 where "s5 = (set_writer s4 0 (Locked n))\<lparr>pd_exclusive := Some 0\<rparr>"
  define s6 where "s6 = set_writer (publish_metadata s5 0 n) 0 (Described n)"
  define s7 where "s7 = set_writer (publish_html s6 0 n) 0 (Replaced n)"
  define s8 where "s8 = set_writer (release s7 0) 0 Idle"
  define s9 where "s9 = set_reader s8 1 Resolved"
  define s10 where "s10 = set_reader s9 1 Sharing"
  define s11 where "s11 = (set_reader s10 1 Holding)\<lparr>pd_shared := insert 1 (pd_shared s10)\<rparr>"
  define s12 where "s12 = (set_reader s11 1 (Done (pair_of (pd_html s11) (pd_metadata s11))))\<lparr>pd_shared := pd_shared s11 - {1}\<rparr>"
  note early = s0_def s1_def s2_def s3_def s4_def s5_def s6_def s7_def dir_init_def dir_defs
  have "write_step s0 s1" unfolding s1_def by (rule entered) (simp_all add: early)
  moreover have "write_step s1 s2" unfolding s2_def by (rule html_staged) (simp add: early)
  moreover have "write_step s2 s3" unfolding s3_def by (rule metadata_staged) (simp add: early)
  moreover have "write_step s3 s4" unfolding s4_def by (rule lock_created) (simp add: early)
  moreover have "write_step s4 s5" unfolding s5_def by (rule lock_acquired) (simp_all add: early)
  moreover have "write_step s5 s6" unfolding s6_def by (rule metadata_published) (simp add: early)
  moreover have "write_step s6 s7" unfolding s7_def by (rule html_published) (simp add: early)
  moreover have "write_step s7 s8" unfolding s8_def by (rule committed [where n = n]) (simp add: early)
  moreover have "read_step s8 s9" unfolding s9_def by (rule resolved) (simp_all add: early s8_def)
  moreover have "read_step s9 s10" unfolding s10_def by (rule lock_found) (simp_all add: early s8_def s9_def)
  moreover have "read_step s10 s11" unfolding s11_def by (rule share_acquired) (simp_all add: early s8_def s9_def s10_def)
  moreover have "read_step s11 s12" unfolding s12_def by (rule pinned_locked) (simp add: s11_def set_reader_def)
  moreover have "dir_reachable None s0" unfolding s0_def by (rule dir_start)
  ultimately have "dir_reachable None s12" by (meson dir_write dir_read)
  moreover have "pd_readers s12 1 = Done (Page n)" "pd_temps s12 = {}" "pd_writers s12 0 = Idle"
    by (simp_all add: early s8_def s9_def s10_def s11_def s12_def)
  ultimately show ?thesis using that by blast
qed

section \<open>Properties\<close>

text \<open>C7: publication is atomic for readers. However any number of publishers and readers of one page interleave, and
  wherever publishers fail or are killed, a reader that finishes reports the page missing only if there was none to
  begin with, serves a page without metadata only if it is the one an older publisher left, and pairs HTML and
  metadata only of one page that has been published; it reports an inconsistent pair only after some publication
  broke between its two renames. Temporary files remain only for a publication in progress or a killed one,
  and never two publishers are active at once.\<close>

theorem page_snapshot_consistent:
  assumes "dir_reachable html s"
  shows "(\<forall>r x. pd_readers s r = Done x \<longrightarrow>
      (case x of Missing \<Rightarrow> html = None | Legacy_Page n \<Rightarrow> html = Some n | Page n \<Rightarrow> n \<in> pd_published s
       | Inconsistent \<Rightarrow> pd_failed s))
    \<and> (\<forall>w b. (w, b) \<in> pd_temps s \<longrightarrow> pd_writers s w \<noteq> Idle \<or> w \<in> pd_killed s)
    \<and> (\<forall>v w. pd_writers s v \<noteq> Idle \<longrightarrow> pd_writers s w \<noteq> Idle \<longrightarrow> v = w)"
proof -
  have ok: "dir_ok html s" using assms by (rule reachable_dir_ok)
  have "case x of Missing \<Rightarrow> html = None | Legacy_Page n \<Rightarrow> html = Some n | Page n \<Rightarrow> n \<in> pd_published s
       | Inconsistent \<Rightarrow> pd_failed s" if "pd_readers s r = Done x" for r x
  proof -
    from ok have "reader_ok html s (pd_readers s r)" by (simp add: dir_ok_def)
    with that show ?thesis by (cases x) simp_all
  qed
  moreover have "pd_writers s w \<noteq> Idle \<or> w \<in> pd_killed s" if "(w, b) \<in> pd_temps s" for w b
  proof -
    from ok have "temp_ok s w b" by (simp add: dir_ok_def)
    with that show ?thesis by (cases "pd_writers s w") (simp_all add: temp_ok_def)
  qed
  moreover have "v = w" if "pd_writers s v \<noteq> Idle" "pd_writers s w \<noteq> Idle" for v w
    using ok that by (simp add: dir_ok_def locks_ok_def)
  ultimately show ?thesis by blast
qed

theorem page_snapshot_consistent_witness:
  "\<exists>s. dir_reachable None s \<and> pd_readers s 1 = Done (Page 7) \<and> 7 \<in> pd_published s"
proof -
  obtain s where s: "dir_reachable None s" "pd_readers s 1 = Done (Page 7)" by (rule published_run)
  from page_snapshot_consistent [OF s(1)] s(2) have "7 \<in> pd_published s" by force
  with s show ?thesis by blast
qed

end
