(* ===== verification/Static_Work.thy ===== *)
theory Static_Work
  imports Permits
begin

text \<open>
  The shared generation of a static route (\<^verbatim>\<open>src/static_routes.rs\<close>): callers of
  \<open>StaticRuntime::render\<close> that miss an artifact join one generation task per publication entry, which renders,
  publishes, answers its waiters and regenerates until its subscriptions end.

  A work entry is a \<open>WorkState\<close> with its task. Every section under one of the code's locks is one atomic step,
  and steps of callers and tasks interleave freely. A oneshot channel is named by its caller; sending to the
  waiters taken from the state is part of the step that takes them, since only the waiter itself observes it.
  A weak reference to a work entry whose last owner is gone cannot be upgraded: such an entry is terminal, and
  the lookup skips terminal entries in any case. Rendering, publication and policy decisions are third-party
  or modelled elsewhere, so their outcomes are the choices of the steps.
\<close>

section \<open>Work entries\<close>

datatype static_outcome = Published | Inline string

type_synonym static_result = "static_policy_error + static_outcome"

text \<open>\<open>WorkState\<close>: a template is named by the caller that supplied it.\<close>

record work_state =
  st_waiters :: "nat list"
  st_requested :: "nat option"
  st_running :: bool
  st_blocked_render :: bool
  st_terminal :: "static_result option"

definition work_state_default :: work_state where
  "work_state_default =
     \<lparr>st_waiters = [], st_requested = None, st_running = False, st_blocked_render = False, st_terminal = None\<rparr>"

definition refuse :: "work_state \<Rightarrow> work_state \<times> nat list" where
  "refuse st = (st\<lparr>st_blocked_render := True, st_running := False, st_requested := None, st_waiters := []\<rparr>, st_waiters st)"

definition reopen :: "work_state \<Rightarrow> work_state" where
  "reopen st = st\<lparr>st_blocked_render := False\<rparr>"

definition begin_render :: "work_state \<Rightarrow> work_state \<times> nat option" where
  "begin_render st = (st\<lparr>st_blocked_render := False, st_running := True, st_requested := None\<rparr>, st_requested st)"

text \<open>\<open>finish_static_work\<close>: the state afterwards and the waiters that receive the result.\<close>

definition finish_static_work :: "work_state \<Rightarrow> static_result \<Rightarrow> bool \<Rightarrow> work_state \<times> nat list" where
  "finish_static_work st result terminal =
     (st\<lparr>st_running := False, st_terminal := (if terminal then Some result else st_terminal st), st_waiters := []\<rparr>,
      st_waiters st)"

text \<open>The state half of dropping the task guard: the result sent, the state afterwards, the waiters.\<close>

definition guard_drain :: "work_state \<Rightarrow> static_result \<times> work_state \<times> nat list" where
  "guard_drain st =
     (let result = (case st_terminal st of Some r \<Rightarrow> r | None \<Rightarrow> Inl (Render ''static render task ended before completion''))
      in (result, st\<lparr>st_terminal := Some result, st_waiters := []\<rparr>, st_waiters st))"

text \<open>The registration section of \<open>render\<close>: retry the lookup, refuse for capacity, or enqueue. \<open>canceled\<close> says
  which receivers have been closed.\<close>

datatype registration = Retry | Refused | Enqueued work_state

definition register_waiter :: "(nat \<Rightarrow> bool) \<Rightarrow> nat \<Rightarrow> work_state \<Rightarrow> registration" where
  "register_waiter canceled c st =
     (if st_terminal st \<noteq> None then Retry
      else if st_blocked_render st then Refused
      else let st1 = st\<lparr>st_waiters := filter (\<lambda>i. \<not> canceled i) (st_waiters st) @ [c]\<rparr>
           in Enqueued (if \<not> st_running st1 \<and> st_requested st1 = None then st1\<lparr>st_requested := Some c\<rparr> else st1))"

text \<open>Abandonment: once every waiter has gone, the state becomes terminal.\<close>

definition abandon_check :: "(nat \<Rightarrow> bool) \<Rightarrow> work_state \<Rightarrow> work_state \<times> bool" where
  "abandon_check canceled st =
     (let st1 = st\<lparr>st_waiters := filter (\<lambda>i. \<not> canceled i) (st_waiters st)\<rparr>
      in if st_waiters st1 = []
         then (st1\<lparr>st_terminal := Some (Inl (Render ''static render has no remaining waiters''))\<rparr>, True)
         else (st1, False))"

text \<open>The end of all subscriptions: a request accepted meanwhile is completed first.\<close>

definition subscriptions_ended :: "work_state \<Rightarrow> work_state \<times> bool" where
  "subscriptions_ended st =
     (if st_requested st = None
      then (st\<lparr>st_terminal := Some (Inl (Render ''static regeneration subscription ended''))\<rparr>, True)
      else (st, False))"

section \<open>The registry of active work\<close>

type_synonym work_key = "string list"

text \<open>The guard's unlinking: every key that still leads to this entry is removed.\<close>

definition unlink :: "(work_key \<Rightarrow> nat option) \<Rightarrow> work_key list \<Rightarrow> nat \<Rightarrow> work_key \<Rightarrow> nat option" where
  "unlink entries keys w = (\<lambda>k. if k \<in> set keys \<and> entries k = Some w then None else entries k)"

fun insert_keys :: "(work_key \<Rightarrow> nat option) \<Rightarrow> work_key list \<Rightarrow> nat \<Rightarrow> work_key \<Rightarrow> nat option" where
  "insert_keys entries [] w = entries"
| "insert_keys entries (k # ks) w = insert_keys (entries(k \<mapsto> w)) ks w"

text \<open>Where the task stands. \<open>Permitting\<close> comes before the render slot is taken, \<open>Slot\<close> is the wait for one after
  a subscription event was refused, \<open>Reopening\<close> the return to the loop after a request was refused, \<open>Ending\<close> the
  end of the loop before the guard is dropped, \<open>Draining\<close> lies between the two halves of the guard's drop.\<close>

datatype trigger = Request | Subscription

datatype gen_pc =
    Unspawned | Spawned | Permitting trigger | Slot | Reopening | Rendering | Triggering | Ending | Draining | Dead

record generation =
  gn_state :: work_state
  gn_keys :: "work_key list"
  gn_pc :: gen_pc
  gn_first :: bool
  gn_regenerate :: nat
  gn_streams :: nat
  gn_template :: "nat option"

text \<open>A caller: before the lookup, after it (with whether it created the entry), registered (with whether it must
  still spawn the task), or refused.\<close>

datatype caller =
    Absent
  | Looking "work_key list" nat
  | Found "work_key list" nat nat bool
  | Joined nat bool
  | Turned_Away

datatype receiver = No_Channel | Open | Sent static_result | Closed

record work_world =
  ww_entries :: "work_key \<Rightarrow> nat option"
  ww_works :: "nat \<Rightarrow> generation option"
  ww_callers :: "nat \<Rightarrow> caller"
  ww_receivers :: "nat \<Rightarrow> receiver"

definition world_init :: work_world where
  "world_init = \<lparr>ww_entries = (\<lambda>_. None), ww_works = (\<lambda>_. None), ww_callers = (\<lambda>_. Absent), ww_receivers = (\<lambda>_. No_Channel)\<rparr>"

definition canceled :: "work_world \<Rightarrow> nat \<Rightarrow> bool" where
  "canceled s c \<longleftrightarrow> ww_receivers s c = Closed"

text \<open>\<open>send\<close> fails silently when the receiver is closed.\<close>

definition send_all :: "(nat \<Rightarrow> receiver) \<Rightarrow> nat list \<Rightarrow> static_result \<Rightarrow> nat \<Rightarrow> receiver" where
  "send_all rx cs r = (\<lambda>c. if c \<in> set cs \<and> rx c = Open then Sent r else rx c)"

text \<open>The lookup under the registry lock: the first key that leads to an entry which is not terminal.\<close>

definition live_work :: "work_world \<Rightarrow> work_key \<Rightarrow> nat option" where
  "live_work s k =
     Option.bind (ww_entries s k) (\<lambda>w. Option.bind (ww_works s w) (\<lambda>g.
       if st_terminal (gn_state g) = None then Some w else None))"

fun find_work :: "work_world \<Rightarrow> work_key list \<Rightarrow> nat option" where
  "find_work s [] = None"
| "find_work s (k # ks) = (case live_work s k of Some w \<Rightarrow> Some w | None \<Rightarrow> find_work s ks)"

definition fresh_generation :: "work_key list \<Rightarrow> nat \<Rightarrow> generation" where
  "fresh_generation keys regenerate =
     \<lparr>gn_state = work_state_default, gn_keys = keys, gn_pc = Unspawned, gn_first = True,
      gn_regenerate = regenerate, gn_streams = 0, gn_template = None\<rparr>"

definition set_work :: "work_world \<Rightarrow> nat \<Rightarrow> generation \<Rightarrow> work_world" where
  "set_work s w g = s\<lparr>ww_works := (ww_works s)(w \<mapsto> g)\<rparr>"

definition set_caller :: "work_world \<Rightarrow> nat \<Rightarrow> caller \<Rightarrow> work_world" where
  "set_caller s c x = s\<lparr>ww_callers := (ww_callers s)(c := x)\<rparr>"

section \<open>Steps of callers\<close>

inductive caller_step :: "work_world \<Rightarrow> work_world \<Rightarrow> bool" where
  arrived: "ww_callers s c = Absent \<Longrightarrow> ww_receivers s c = No_Channel \<Longrightarrow> keys \<noteq> [] \<Longrightarrow>
     caller_step s (set_caller s c (Looking keys n))"
| joined_active: "ww_callers s c = Looking keys n \<Longrightarrow> find_work s keys = Some w \<Longrightarrow>
     caller_step s (set_caller s c (Found keys n w False))"
| created_work: "ww_callers s c = Looking keys n \<Longrightarrow> find_work s keys = None \<Longrightarrow> ww_works s w = None \<Longrightarrow>
     caller_step s ((set_caller (set_work s w (fresh_generation keys n)) c (Found keys n w True))
       \<lparr>ww_entries := insert_keys (ww_entries s) keys w\<rparr>)"
| retried: "ww_callers s c = Found keys n w new \<Longrightarrow> ww_works s w = Some g \<Longrightarrow>
     register_waiter (canceled s) c (gn_state g) = Retry \<Longrightarrow>
     caller_step s (set_caller s c (Looking keys n))"
| turned_away: "ww_callers s c = Found keys n w new \<Longrightarrow> ww_works s w = Some g \<Longrightarrow>
     register_waiter (canceled s) c (gn_state g) = Refused \<Longrightarrow>
     caller_step s (set_caller s c Turned_Away)"
| enqueued_waiter: "ww_callers s c = Found keys n w new \<Longrightarrow> ww_works s w = Some g \<Longrightarrow>
     register_waiter (canceled s) c (gn_state g) = Enqueued st \<Longrightarrow>
     caller_step s ((set_caller (set_work s w (g\<lparr>gn_state := st\<rparr>)) c (Joined w new))
       \<lparr>ww_receivers := (ww_receivers s)(c := Open)\<rparr>)"
| spawned_task: "ww_callers s c = Joined w True \<Longrightarrow> ww_works s w = Some g \<Longrightarrow>
     caller_step s (set_caller (set_work s w (g\<lparr>gn_pc := Spawned\<rparr>)) c (Joined w False))"
| dropped_waiter: "ww_callers s c = Joined w False \<Longrightarrow> ww_receivers s c = Open \<Longrightarrow>
     caller_step s (s\<lparr>ww_receivers := (ww_receivers s)(c := Closed)\<rparr>)"

section \<open>Steps of the generation task\<close>

text \<open>A step of the task changes its entry and may send one result to the waiters it took.\<close>

datatype reply = Quiet | Reply "nat list" static_result

text \<open>\<open>Generation::run\<close>, \<open>next_trigger\<close>, \<open>render_permit\<close> and \<open>render_or_abandon\<close>, up to the first half of the
  guard's drop; \<open>gone\<close> says which receivers are closed.\<close>

inductive run_step :: "(nat \<Rightarrow> bool) \<Rightarrow> generation \<Rightarrow> generation \<Rightarrow> reply \<Rightarrow> bool" for gone g where
  subscribe_refused: "gn_pc g = Spawned \<Longrightarrow> finish_static_work (gn_state g) (Inl e) True = (st, ws) \<Longrightarrow>
     run_step gone g (g\<lparr>gn_state := st, gn_pc := Ending\<rparr>) (Reply ws (Inl e))"
| took_template: "gn_pc g = Spawned \<Longrightarrow> st_requested (gn_state g) = Some t \<Longrightarrow>
     run_step gone g (g\<lparr>gn_state := (gn_state g)\<lparr>st_running := True, st_requested := None\<rparr>,
       gn_template := Some t, gn_pc := Permitting Request\<rparr>) Quiet"
| permitted: "gn_pc g = Permitting tr \<or> gn_pc g = Slot \<Longrightarrow> begin_render (gn_state g) = (st, next) \<Longrightarrow>
     run_step gone g (g\<lparr>gn_state := st, gn_pc := Rendering,
       gn_template := (case next of Some t \<Rightarrow> Some t | None \<Rightarrow> gn_template g)\<rparr>) Quiet"
| first_refused: "gn_pc g = Permitting tr \<Longrightarrow> gn_first g \<Longrightarrow>
     finish_static_work (gn_state g) (Inl e) True = (st, ws) \<Longrightarrow>
     run_step gone g (g\<lparr>gn_state := st, gn_pc := Ending\<rparr>) (Reply ws (Inl e))"
| later_refused: "gn_pc g = Permitting tr \<Longrightarrow> \<not> gn_first g \<Longrightarrow> refuse (gn_state g) = (st, ws) \<Longrightarrow>
     run_step gone g (g\<lparr>gn_state := st, gn_pc := (if tr = Request then Reopening else Slot)\<rparr>) (Reply ws (Inl e))"
| reopened: "gn_pc g = Reopening \<Longrightarrow>
     run_step gone g (g\<lparr>gn_state := reopen (gn_state g), gn_pc := Triggering\<rparr>) Quiet"
| abandoned: "gn_pc g = Rendering \<Longrightarrow> gn_regenerate g = 0 \<Longrightarrow> abandon_check gone (gn_state g) = (st, True) \<Longrightarrow>
     run_step gone g (g\<lparr>gn_state := st, gn_pc := Ending\<rparr>) Quiet"
| completed: "gn_pc g = Rendering \<Longrightarrow> n = gn_streams g \<or> (gn_first g \<and> n \<le> gn_regenerate g) \<Longrightarrow>
     finish_static_work (gn_state g) r (n = 0) = (st, ws) \<Longrightarrow>
     run_step gone g (g\<lparr>gn_state := st, gn_streams := n, gn_first := False, gn_pc := Triggering\<rparr>) (Reply ws r)"
| no_subscription: "gn_pc g = Triggering \<Longrightarrow> gn_streams g = 0 \<Longrightarrow>
     run_step gone g (g\<lparr>gn_pc := Ending\<rparr>) Quiet"
| request_seen: "gn_pc g = Triggering \<Longrightarrow> 0 < gn_streams g \<Longrightarrow> st_requested (gn_state g) \<noteq> None \<Longrightarrow>
     run_step gone g (g\<lparr>gn_pc := Permitting Request\<rparr>) Quiet"
| subscription_event: "gn_pc g = Triggering \<Longrightarrow> 0 < n \<Longrightarrow> n \<le> gn_streams g \<Longrightarrow>
     run_step gone g (g\<lparr>gn_streams := n, gn_pc := Permitting Subscription\<rparr>) Quiet"
| some_ended: "gn_pc g = Triggering \<Longrightarrow> 0 < n \<Longrightarrow> n < gn_streams g \<Longrightarrow>
     run_step gone g (g\<lparr>gn_streams := n\<rparr>) Quiet"
| all_ended: "gn_pc g = Triggering \<Longrightarrow> 0 < gn_streams g \<Longrightarrow> subscriptions_ended (gn_state g) = (st, over) \<Longrightarrow>
     run_step gone g (g\<lparr>gn_state := st, gn_streams := 0,
       gn_pc := (if over then Ending else Permitting Request)\<rparr>) Quiet"
| drained: "gn_pc g = Ending \<Longrightarrow> guard_drain (gn_state g) = (r, st, ws) \<Longrightarrow>
     run_step gone g (g\<lparr>gn_state := st, gn_pc := Draining\<rparr>) (Reply ws r)"

fun deliver_reply :: "reply \<Rightarrow> (nat \<Rightarrow> receiver) \<Rightarrow> nat \<Rightarrow> receiver" where
  "deliver_reply Quiet rx = rx"
| "deliver_reply (Reply cs r) rx = send_all rx cs r"

text \<open>A step of the task of entry \<open>w\<close>; the last one unlinks the entry.\<close>

inductive task_step :: "nat \<Rightarrow> work_world \<Rightarrow> work_world \<Rightarrow> bool" for w s where
  ran: "ww_works s w = Some g \<Longrightarrow> run_step (canceled s) g g' rep \<Longrightarrow>
     task_step w s ((set_work s w g')\<lparr>ww_receivers := deliver_reply rep (ww_receivers s)\<rparr>)"
| unlinked: "ww_works s w = Some g \<Longrightarrow> gn_pc g = Draining \<Longrightarrow>
     task_step w s ((set_work s w (g\<lparr>gn_pc := Dead\<rparr>))\<lparr>ww_entries := unlink (ww_entries s) (gn_keys g) w\<rparr>)"

text \<open>The executor may drop the task, or a render may panic, at any point after it was spawned: the guard is then
  dropped from there.\<close>

inductive gen_step :: "work_world \<Rightarrow> work_world \<Rightarrow> bool" where
  by_caller: "caller_step s t \<Longrightarrow> gen_step s t"
| by_task: "task_step w s t \<Longrightarrow> gen_step s t"
| aborted: "ww_works s w = Some g \<Longrightarrow> gn_pc g \<notin> {Unspawned, Draining, Dead} \<Longrightarrow>
     gen_step s (set_work s w (g\<lparr>gn_pc := Ending\<rparr>))"

inductive gen_reachable :: "work_world \<Rightarrow> bool" where
  gen_start: "gen_reachable world_init"
| gen_next: "gen_reachable s \<Longrightarrow> gen_step s t \<Longrightarrow> gen_reachable t"

inductive_cases caller_stepE: "caller_step s t"
inductive_cases task_stepE: "task_step w s t"
inductive_cases gen_stepE: "gen_step s t"

section \<open>Invariants\<close>

text \<open>What holds of the state of an entry where its task stands; \<open>first\<close> is the task's flag and \<open>n\<close> the
  number of its streams.\<close>

fun task_ok :: "gen_pc \<Rightarrow> work_state \<Rightarrow> bool \<Rightarrow> nat \<Rightarrow> bool" where
  "task_ok Unspawned st first n \<longleftrightarrow> \<not> st_running st \<and> \<not> st_blocked_render st \<and> st_terminal st = None \<and> first"
| "task_ok Spawned st first n \<longleftrightarrow> \<not> st_running st \<and> \<not> st_blocked_render st \<and> st_terminal st = None \<and> first"
| "task_ok (Permitting Request) st first n \<longleftrightarrow>
     \<not> st_blocked_render st \<and> st_terminal st = None \<and> (st_running st \<longrightarrow> first)"
| "task_ok (Permitting Subscription) st first n \<longleftrightarrow>
     \<not> st_running st \<and> \<not> st_blocked_render st \<and> st_terminal st = None \<and> \<not> first"
| "task_ok Slot st first n \<longleftrightarrow>
     \<not> st_running st \<and> st_blocked_render st \<and> st_terminal st = None \<and> st_waiters st = [] \<and> \<not> first"
| "task_ok Reopening st first n \<longleftrightarrow>
     \<not> st_running st \<and> st_blocked_render st \<and> st_terminal st = None \<and> st_waiters st = [] \<and> \<not> first"
| "task_ok Rendering st first n \<longleftrightarrow> \<not> st_blocked_render st \<and> st_terminal st = None"
| "task_ok Triggering st first n \<longleftrightarrow> \<not> st_running st \<and> \<not> st_blocked_render st \<and> \<not> first
     \<and> (st_terminal st = None \<or> st_waiters st = [] \<and> n = 0)"
| "task_ok Ending st first n \<longleftrightarrow> (st_terminal st \<noteq> None \<or> st_blocked_render st \<longrightarrow> st_waiters st = [])"
| "task_ok Draining st first n \<longleftrightarrow> st_terminal st \<noteq> None \<and> st_waiters st = []"
| "task_ok Dead st first n \<longleftrightarrow> st_terminal st \<noteq> None \<and> st_waiters st = []"

definition gen_ok :: "generation \<Rightarrow> bool" where
  "gen_ok g \<longleftrightarrow>
     (st_waiters (gn_state g) = [] \<or> st_running (gn_state g) \<or> st_requested (gn_state g) \<noteq> None)
     \<and> task_ok (gn_pc g) (gn_state g) (gn_first g) (gn_streams g)"

text \<open>The registry leads every key of an entry that is not terminal to that entry.\<close>

definition linked :: "work_world \<Rightarrow> bool" where
  "linked s \<longleftrightarrow> (\<forall>w g k. ww_works s w = Some g \<longrightarrow> st_terminal (gn_state g) = None \<longrightarrow> k \<in> set (gn_keys g) \<longrightarrow>
     ww_entries s k = Some w)"

text \<open>What a caller's stage says of the entry it has found and of its channel.\<close>

fun creates :: "caller \<Rightarrow> nat \<Rightarrow> bool" where
  "creates (Found _ _ w True) v \<longleftrightarrow> v = w"
| "creates (Joined w True) v \<longleftrightarrow> v = w"
| "creates _ _ \<longleftrightarrow> False"

fun caller_ok :: "work_world \<Rightarrow> nat \<Rightarrow> caller \<Rightarrow> bool" where
  "caller_ok s c (Found _ _ w _) \<longleftrightarrow> ww_works s w \<noteq> None \<and> ww_receivers s c = No_Channel"
| "caller_ok s c (Joined w new) \<longleftrightarrow>
     (\<exists>g. ww_works s w = Some g \<and> (ww_receivers s c = Open \<longrightarrow> c \<in> set (st_waiters (gn_state g))))
     \<and> ww_receivers s c \<noteq> No_Channel \<and> (new \<longrightarrow> ww_receivers s c = Open)"
| "caller_ok s c _ \<longleftrightarrow> ww_receivers s c = No_Channel"

definition callers_ok :: "work_world \<Rightarrow> bool" where
  "callers_ok s \<longleftrightarrow> (\<forall>c. caller_ok s c (ww_callers s c))"

text \<open>A queued waiter has joined the entry that queues it.\<close>

definition waiters_ok :: "work_world \<Rightarrow> bool" where
  "waiters_ok s \<longleftrightarrow> (\<forall>w g c. ww_works s w = Some g \<longrightarrow> c \<in> set (st_waiters (gn_state g)) \<longrightarrow>
     (\<exists>new. ww_callers s c = Joined w new))"

text \<open>An entry has a creator on its way to spawn the task exactly as long as it has no task, and only one.\<close>

definition creators_ok :: "work_world \<Rightarrow> bool" where
  "creators_ok s \<longleftrightarrow>
     (\<forall>w g. ww_works s w = Some g \<longrightarrow> (gn_pc g = Unspawned \<longleftrightarrow> (\<exists>c. creates (ww_callers s c) w)))
     \<and> (\<forall>w c d. creates (ww_callers s c) w \<longrightarrow> creates (ww_callers s d) w \<longrightarrow> c = d)"

definition world_ok :: "work_world \<Rightarrow> bool" where
  "world_ok s \<longleftrightarrow> (\<forall>w g. ww_works s w = Some g \<longrightarrow> gen_ok g) \<and> linked s \<and> callers_ok s \<and> waiters_ok s \<and> creators_ok s"

lemmas state_defs = refuse_def reopen_def begin_render_def finish_static_work_def guard_drain_def
  abandon_check_def subscriptions_ended_def

lemmas world_defs = set_work_def set_caller_def

subsection \<open>One entry\<close>

lemma gen_ok_fresh [simp]: "gen_ok (fresh_generation keys n)"
  by (simp add: gen_ok_def fresh_generation_def work_state_default_def)

lemma gen_ok_enqueued:
  assumes "gen_ok g" "register_waiter gone c (gn_state g) = Enqueued st"
  shows "gen_ok (g\<lparr>gn_state := st\<rparr>)"
proof -
  have "task_ok (gn_pc g) st (gn_first g) (gn_streams g)"
    using assms
    by (cases "(gn_pc g, gn_state g, gn_first g, gn_streams g)" rule: task_ok.cases)
      (auto simp: gen_ok_def register_waiter_def Let_def split: if_splits)
  then show ?thesis
    using assms(2) by (auto simp: gen_ok_def register_waiter_def Let_def split: if_splits)
qed

lemma task_ok_permitting: "task_ok (Permitting tr) st first n \<Longrightarrow> st_terminal st = None \<and> \<not> st_blocked_render st"
  by (cases tr) auto

lemma gen_ok_run: "run_step gone g g' rep \<Longrightarrow> gen_ok g \<Longrightarrow> gen_ok g'"
  by (induction rule: run_step.induct)
    (auto simp: gen_ok_def state_defs Let_def dest: task_ok_permitting split: option.splits if_splits)

lemma run_step_frame:
  assumes "run_step gone g g' rep"
  shows "gn_keys g' = gn_keys g" "gn_pc g \<noteq> Unspawned" "gn_pc g' \<noteq> Unspawned"
    and "st_terminal (gn_state g') = None \<Longrightarrow> st_terminal (gn_state g) = None"
  using assms by (auto elim!: run_step.cases simp: state_defs Let_def split: option.splits if_splits)

lemma run_step_waiter:
  "run_step gone g g' rep \<Longrightarrow> c \<in> set (st_waiters (gn_state g)) \<Longrightarrow>
     c \<in> set (st_waiters (gn_state g')) \<or> gone c \<or> (\<exists>cs r. rep = Reply cs r \<and> c \<in> set cs)"
  by (induction rule: run_step.induct)
    (auto simp: state_defs Let_def filter_empty_conv split: option.splits if_splits)

lemma run_step_took:
  "run_step gone g g' rep \<Longrightarrow> set (st_waiters (gn_state g')) \<subseteq> set (st_waiters (gn_state g))
     \<and> (\<forall>cs r. rep = Reply cs r \<longrightarrow> cs = st_waiters (gn_state g))"
  by (induction rule: run_step.induct) (auto simp: state_defs Let_def split: option.splits if_splits)

lemma gen_ok_abort: "gen_ok g \<Longrightarrow> gn_pc g \<notin> {Unspawned, Draining, Dead} \<Longrightarrow> gen_ok (g\<lparr>gn_pc := Ending\<rparr>)"
  by (cases "(gn_pc g, gn_state g, gn_first g, gn_streams g)" rule: task_ok.cases) (auto simp: gen_ok_def)

subsection \<open>The registry\<close>

lemma insert_keys_eq: "insert_keys entries keys w k = (if k \<in> set keys then Some w else entries k)"
  by (induction keys arbitrary: entries) auto

lemma find_work_None: "find_work s keys = None \<longleftrightarrow> (\<forall>k \<in> set keys. live_work s k = None)"
  by (induction keys) (auto split: option.splits)

lemma find_work_Some: "find_work s keys = Some w \<Longrightarrow> \<exists>g. ww_works s w = Some g"
  by (induction keys) (auto simp: live_work_def bind_eq_Some_conv split: option.splits if_splits)

lemma linked_live: "linked s \<Longrightarrow> ww_works s w = Some g \<Longrightarrow> st_terminal (gn_state g) = None \<Longrightarrow> k \<in> set (gn_keys g) \<Longrightarrow>
    live_work s k = Some w"
  by (simp add: linked_def live_work_def)

subsection \<open>Preservation\<close>

lemma creator_unspawned:
  "creators_ok s \<Longrightarrow> ww_works s w = Some g \<Longrightarrow> creates (ww_callers s c) w \<Longrightarrow> gn_pc g = Unspawned"
  unfolding creators_ok_def by blast

lemma works_ok_caller:
  assumes "caller_step s t" "\<forall>w g. ww_works s w = Some g \<longrightarrow> gen_ok g" "creators_ok s"
  shows "\<forall>w g. ww_works t w = Some g \<longrightarrow> gen_ok g"
  using assms(1)
proof cases
  case (spawned_task c w g)
  have "creates (ww_callers s c) w" using spawned_task(2) by simp
  then have "gn_pc g = Unspawned" using creator_unspawned [OF assms(3) spawned_task(3)] by blast
  moreover have "gen_ok g" using assms(2) spawned_task(3) by blast
  ultimately have "gen_ok (g\<lparr>gn_pc := Spawned\<rparr>)" by (auto simp: gen_ok_def)
  with spawned_task assms(2) show ?thesis by (auto simp: world_defs)
qed (use assms(2) gen_ok_enqueued in \<open>auto simp: world_defs\<close>)

lemma linked_caller:
  assumes "caller_step s t" "linked s"
  shows "linked t"
  using assms(1)
proof cases
  case (created_work c keys n w)
  then have "live_work s k = None" if "k \<in> set keys" for k using that by (simp add: find_work_None)
  then have "k \<notin> set keys" if "ww_works s v = Some g" "st_terminal (gn_state g) = None" "k \<in> set (gn_keys g)" for v g k
    using linked_live [OF assms(2) that] by auto
  with created_work assms(2) show ?thesis
    by (auto simp: linked_def world_defs fresh_generation_def insert_keys_eq)
next
  case (enqueued_waiter c keys n w new g st)
  then have "st_terminal st = st_terminal (gn_state g)"
    by (auto simp: register_waiter_def Let_def split: if_splits)
  with enqueued_waiter assms(2) show ?thesis by (auto simp: linked_def world_defs)
qed (use assms(2) in \<open>auto simp: linked_def world_defs\<close>)

lemma linked_task:
  assumes "task_step w s t" "linked s" "\<forall>w g. ww_works s w = Some g \<longrightarrow> gen_ok g"
  shows "linked t"
  using assms(1)
proof cases
  case (ran g g' rep)
  with assms(2) run_step_frame(1,4) [OF ran(3)] show ?thesis by (auto simp: linked_def world_defs)
next
  case (unlinked g)
  then have "gen_ok g" using assms(3) by blast
  with unlinked have "st_terminal (gn_state g) \<noteq> None" by (simp add: gen_ok_def)
  with unlinked assms(2) show ?thesis by (auto simp: linked_def world_defs unlink_def)
qed

lemma caller_ok_mono:
  assumes "caller_ok s c x" "ww_receivers t c = ww_receivers s c"
    and "\<forall>w g. ww_works s w = Some g \<longrightarrow> (\<exists>g'. ww_works t w = Some g'
      \<and> (ww_receivers s c = Open \<longrightarrow> c \<in> set (st_waiters (gn_state g)) \<longrightarrow> c \<in> set (st_waiters (gn_state g'))))"
  shows "caller_ok t c x"
  using assms by (cases "(s, c, x)" rule: caller_ok.cases) fastforce+

lemma enqueued_state:
  assumes "register_waiter gone c st = Enqueued st'"
  shows "c \<in> set (st_waiters st')" and "d \<in> set (st_waiters st) \<Longrightarrow> \<not> gone d \<Longrightarrow> d \<in> set (st_waiters st')"
  using assms by (auto simp: register_waiter_def Let_def split: if_splits)

lemma caller_step_works:
  assumes "caller_step s t" "ww_works s w = Some g"
  shows "\<exists>g'. ww_works t w = Some g' \<and> gn_streams g' = gn_streams g
    \<and> (\<forall>d. ww_receivers s d = Open \<longrightarrow> d \<in> set (st_waiters (gn_state g)) \<longrightarrow> d \<in> set (st_waiters (gn_state g')))"
  using assms
  by (cases rule: caller_step.cases) (auto simp: world_defs canceled_def dest: enqueued_state(2))

lemma caller_step_actor:
  assumes "caller_step s t" "callers_ok s"
  shows "\<exists>c. (\<forall>d. d \<noteq> c \<longrightarrow> ww_callers t d = ww_callers s d \<and> ww_receivers t d = ww_receivers s d)
    \<and> caller_ok t c (ww_callers t c)"
  using assms(1)
proof cases
  case (joined_active c keys n w)
  then obtain g where "ww_works s w = Some g" using find_work_Some by blast
  with joined_active assms(2) show ?thesis
    by (intro exI [of _ c]) (auto simp: world_defs callers_ok_def dest: spec [of _ c])
next
  case (spawned_task c w g)
  with assms(2) have "caller_ok s c (Joined w True)" by (auto simp: callers_ok_def dest: spec [of _ c])
  with spawned_task show ?thesis by (intro exI [of _ c]) (auto simp: world_defs)
next
  case (dropped_waiter c w)
  with assms(2) have "caller_ok s c (Joined w False)" by (auto simp: callers_ok_def dest: spec [of _ c])
  with dropped_waiter show ?thesis by (intro exI [of _ c]) (auto simp: world_defs)
next
  case (enqueued_waiter c keys n w new g st)
  with enqueued_state(1) [OF this(4)] show ?thesis by (intro exI [of _ c]) (auto simp: world_defs)
next
  case (arrived c keys n)
  then show ?thesis by (intro exI [of _ c]) (auto simp: world_defs)
next
  case (created_work c keys n w)
  with assms(2) have "caller_ok s c (Looking keys n)" by (auto simp: callers_ok_def dest: spec [of _ c])
  with created_work show ?thesis by (intro exI [of _ c]) (auto simp: world_defs)
next
  case (retried c keys n w new g)
  with assms(2) have "caller_ok s c (Found keys n w new)" by (auto simp: callers_ok_def dest: spec [of _ c])
  with retried show ?thesis by (intro exI [of _ c]) (auto simp: world_defs)
next
  case (turned_away c keys n w new g)
  with assms(2) have "caller_ok s c (Found keys n w new)" by (auto simp: callers_ok_def dest: spec [of _ c])
  with turned_away show ?thesis by (intro exI [of _ c]) (auto simp: world_defs)
qed

lemma callers_ok_caller:
  assumes "caller_step s t" "callers_ok s"
  shows "callers_ok t"
proof -
  from caller_step_actor [OF assms] obtain c where c: "caller_ok t c (ww_callers t c)"
    and other: "\<And>d. d \<noteq> c \<Longrightarrow> ww_callers t d = ww_callers s d \<and> ww_receivers t d = ww_receivers s d" by blast
  have "caller_ok t d (ww_callers t d)" for d
  proof (cases "d = c")
    case True
    with c show ?thesis by simp
  next
    case False
    have "caller_ok s d (ww_callers t d)" using assms(2) other [OF False] by (simp add: callers_ok_def)
    then show ?thesis
      by (rule caller_ok_mono) (use other [OF False] caller_step_works [OF assms(1)] in blast)+
  qed
  then show ?thesis by (simp add: callers_ok_def)
qed

lemma task_step_works:
  assumes "task_step w s t"
  shows "ww_callers t = ww_callers s" and "v \<noteq> w \<Longrightarrow> ww_works t v = ww_works s v"
    and "\<exists>g g'. ww_works s w = Some g \<and> ww_works t w = Some g' \<and> gn_keys g' = gn_keys g
      \<and> gn_pc g \<noteq> Unspawned \<and> gn_pc g' \<noteq> Unspawned
      \<and> (\<forall>d. ww_receivers t d = Open \<longrightarrow> d \<in> set (st_waiters (gn_state g)) \<longrightarrow> d \<in> set (st_waiters (gn_state g')))"
    and "ww_receivers t d = Open \<Longrightarrow> ww_receivers s d = Open"
    and "ww_receivers t d = No_Channel \<longleftrightarrow> ww_receivers s d = No_Channel"
    and "ww_works s w = Some g \<Longrightarrow> d \<notin> set (st_waiters (gn_state g)) \<Longrightarrow> ww_receivers t d = ww_receivers s d"
    and "ww_works s w = Some g \<Longrightarrow> ww_works t w = Some g' \<Longrightarrow> d \<in> set (st_waiters (gn_state g')) \<Longrightarrow>
      d \<in> set (st_waiters (gn_state g))"
proof -
  have same: "deliver_reply rep rx d = rx d" if "\<forall>cs r. rep = Reply cs r \<longrightarrow> d \<notin> set cs" for rep rx d
    using that by (cases rep) (auto simp: send_all_def)
  have sends: "deliver_reply rep (ww_receivers s) d = Open \<Longrightarrow>
      ww_receivers s d = Open \<and> (\<forall>cs r. rep = Reply cs r \<longrightarrow> d \<notin> set cs)" for rep d
    by (cases rep) (auto simp: send_all_def split: if_splits)
  have none: "deliver_reply rep (ww_receivers s) d = No_Channel \<longleftrightarrow> ww_receivers s d = No_Channel" for rep d
    by (cases rep) (auto simp: send_all_def)
  show "\<exists>g g'. ww_works s w = Some g \<and> ww_works t w = Some g' \<and> gn_keys g' = gn_keys g
      \<and> gn_pc g \<noteq> Unspawned \<and> gn_pc g' \<noteq> Unspawned
      \<and> (\<forall>d. ww_receivers t d = Open \<longrightarrow> d \<in> set (st_waiters (gn_state g)) \<longrightarrow> d \<in> set (st_waiters (gn_state g')))"
    using assms
  proof cases
    case (ran g g' rep)
    have "d \<in> set (st_waiters (gn_state g'))" if "ww_receivers t d = Open" "d \<in> set (st_waiters (gn_state g))" for d
    proof -
      have "ww_receivers s d = Open" "\<forall>cs r. rep = Reply cs r \<longrightarrow> d \<notin> set cs"
        using sends [of rep d] that(1) ran(1) by (simp_all add: world_defs)
      with run_step_waiter [OF ran(3) that(2)] show ?thesis by (auto simp: canceled_def)
    qed
    moreover have "ww_works t w = Some g'" using ran(1) by (simp add: world_defs)
    ultimately show ?thesis using ran(2) run_step_frame(1-3) [OF ran(3)] by blast
  qed (auto simp: world_defs)
  show "ww_callers t = ww_callers s" "v \<noteq> w \<Longrightarrow> ww_works t v = ww_works s v"
    "ww_receivers t d = Open \<Longrightarrow> ww_receivers s d = Open"
    "ww_receivers t d = No_Channel \<longleftrightarrow> ww_receivers s d = No_Channel"
    using assms by (cases; auto simp: world_defs none dest: sends)+
  show "ww_receivers t d = ww_receivers s d" if "ww_works s w = Some g" "d \<notin> set (st_waiters (gn_state g))"
    using assms
  proof cases
    case (ran h h' rep)
    then have "\<forall>cs r. rep = Reply cs r \<longrightarrow> d \<notin> set cs" using run_step_took [OF ran(3)] that by auto
    from same [OF this] ran(1) show ?thesis by (simp add: world_defs)
  qed (simp add: world_defs)
  show "d \<in> set (st_waiters (gn_state g))"
    if "ww_works s w = Some g" "ww_works t w = Some g'" "d \<in> set (st_waiters (gn_state g'))"
    using assms
  proof cases
    case (ran h h' rep)
    then show ?thesis using run_step_took [OF ran(3)] that by (auto simp: world_defs)
  qed (use that in \<open>auto simp: world_defs\<close>)
qed

lemma callers_ok_task:
  assumes "task_step w s t" "callers_ok s" "waiters_ok s" "creators_ok s"
  shows "callers_ok t"
proof -
  note tw = task_step_works [OF assms(1)]
  obtain g g' where g: "ww_works s w = Some g" "ww_works t w = Some g'" "gn_pc g \<noteq> Unspawned"
    and keep: "\<And>d. ww_receivers t d = Open \<Longrightarrow> d \<in> set (st_waiters (gn_state g)) \<Longrightarrow> d \<in> set (st_waiters (gn_state g'))"
    using tw(3) by blast
  have "caller_ok t d (ww_callers s d)" for d
  proof (cases "ww_callers s d")
    case (Joined v new)
    with assms(2) have ok: "caller_ok s d (Joined v new)" by (auto simp: callers_ok_def dest: spec [of _ d])
    then obtain h where h: "ww_works s v = Some h" "ww_receivers s d = Open \<longrightarrow> d \<in> set (st_waiters (gn_state h))" by auto
    then have "\<exists>h'. ww_works t v = Some h' \<and> (ww_receivers t d = Open \<longrightarrow> d \<in> set (st_waiters (gn_state h')))"
      using tw(2) [of v] tw(4) [of d] g keep by (cases "v = w") auto
    moreover have "ww_receivers t d = Open" if "new"
    proof -
      have "creates (ww_callers s d) v" using Joined that by simp
      with assms(4) h(1) have "gn_pc h = Unspawned" by (metis creator_unspawned)
      with h(1) g have "v \<noteq> w" by auto
      with assms(3) g(1) Joined have "d \<notin> set (st_waiters (gn_state g))" by (force simp: waiters_ok_def)
      with tw(6) [OF g(1)] ok that show ?thesis by simp
    qed
    ultimately show ?thesis using ok tw(5) [of d] Joined by auto
  next
    case (Found keys n v new)
    with assms(2) have ok: "caller_ok s d (Found keys n v new)" by (auto simp: callers_ok_def dest: spec [of _ d])
    with tw(2) [of v] g tw(5) [of d] Found show ?thesis by (cases "v = w") auto
  qed (use assms(2) tw(5) [of d] in \<open>auto simp: callers_ok_def dest: spec [of _ d]\<close>)
  then show ?thesis by (simp add: callers_ok_def tw(1))
qed

lemma waiters_okD:
  "waiters_ok s \<Longrightarrow> ww_works s w = Some g \<Longrightarrow> c \<in> set (st_waiters (gn_state g)) \<Longrightarrow> \<exists>new. ww_callers s c = Joined w new"
  by (simp add: waiters_ok_def)

lemma caller_step_joined:
  assumes "caller_step s t" "ww_callers s c = Joined w new"
  shows "\<exists>new'. ww_callers t c = Joined w new'"
  using assms by (cases rule: caller_step.cases) (auto simp: world_defs)

lemma caller_step_queued:
  assumes "caller_step s t" "ww_works t w = Some g'" "d \<in> set (st_waiters (gn_state g'))"
  shows "(\<exists>g. ww_works s w = Some g \<and> d \<in> set (st_waiters (gn_state g))) \<or> (\<exists>new. ww_callers t d = Joined w new)"
  using assms
  by (cases rule: caller_step.cases)
    (auto simp: world_defs fresh_generation_def work_state_default_def register_waiter_def Let_def split: if_splits)

lemma waiters_ok_caller:
  assumes "caller_step s t" "waiters_ok s"
  shows "waiters_ok t"
  unfolding waiters_ok_def
proof (intro allI impI)
  fix w g' c
  assume "ww_works t w = Some g'" "c \<in> set (st_waiters (gn_state g'))"
  from caller_step_queued [OF assms(1) this] show "\<exists>new. ww_callers t c = Joined w new"
    using waiters_okD [OF assms(2)] caller_step_joined [OF assms(1)] by blast
qed

lemma waiters_ok_task:
  assumes "task_step w s t" "waiters_ok s"
  shows "waiters_ok t"
proof -
  note tw = task_step_works [OF assms(1)]
  obtain g g' where g: "ww_works s w = Some g" "ww_works t w = Some g'" using tw(3) by blast
  have "\<exists>new. ww_callers s c = Joined v new" if "ww_works t v = Some h" "c \<in> set (st_waiters (gn_state h))" for v h c
    using waiters_okD [OF assms(2)] tw(2) [of v] tw(7) [OF g] g that by (cases "v = w") (auto, metis)
  then show ?thesis by (simp add: waiters_ok_def tw(1))
qed

lemma creates_known: "creates x v \<Longrightarrow> caller_ok s d x \<Longrightarrow> ww_works s v \<noteq> None"
  by (cases "(x, v)" rule: creates.cases) auto

lemma creators_ok_other:
  assumes "creators_ok s"
    and "\<And>d v. creates (ww_callers t d) v = creates (ww_callers s d) v"
    and "\<And>v g'. ww_works t v = Some g' \<Longrightarrow> \<exists>g. ww_works s v = Some g \<and> (gn_pc g' = Unspawned \<longleftrightarrow> gn_pc g = Unspawned)"
  shows "creators_ok t"
  using assms unfolding creators_ok_def by metis

lemma creators_ok_caller:
  assumes "caller_step s t" "world_ok s"
  shows "creators_ok t"
proof -
  have w: "creators_ok s" "callers_ok s" "\<And>w g. ww_works s w = Some g \<Longrightarrow> gen_ok g"
    using assms(2) by (auto simp: world_ok_def)
  have stays: "\<not> new" if "ww_callers s c = Found keys n w new" "ww_works s w = Some g"
      "st_terminal (gn_state g) \<noteq> None \<or> st_blocked_render (gn_state g)" for c keys n w new g
  proof
    assume "new"
    with that(1) have "creates (ww_callers s c) w" by simp
    from creator_unspawned [OF w(1) that(2) this] w(3) [OF that(2)] that(3) show False by (auto simp: gen_ok_def)
  qed
  from assms(1) show ?thesis
  proof cases
    case (retried c keys n w new g)
    then have "\<not> new" by (intro stays) (auto simp: register_waiter_def Let_def split: if_splits)
    with retried show ?thesis by (intro creators_ok_other [OF w(1)]) (auto simp: world_defs)
  next
    case (turned_away c keys n w new g)
    then have "\<not> new" by (intro stays) (auto simp: register_waiter_def Let_def split: if_splits)
    with turned_away show ?thesis by (intro creators_ok_other [OF w(1)]) (auto simp: world_defs)
  next
    case (enqueued_waiter c keys n w new g st)
    then show ?thesis
      by (intro creators_ok_other [OF w(1)]; cases new) (auto simp: world_defs split: if_splits)
  next
    case (spawned_task c v g)
    then have c: "creates (ww_callers s d) v \<longleftrightarrow> d = c" for d
      using w(1) unfolding creators_ok_def by (metis creates.simps(2))
    have t: "creates (ww_callers t d) u \<longleftrightarrow> u \<noteq> v \<and> creates (ww_callers s d) u" for d u
      using spawned_task(1,2) c by (auto simp: world_defs)
    from spawned_task(1) w(1) show ?thesis unfolding creators_ok_def t by (auto simp: world_defs)
  next
    case (created_work c keys n v)
    have no: "\<not> creates (ww_callers s d) v" for d
    proof
      assume "creates (ww_callers s d) v"
      moreover have "caller_ok s d (ww_callers s d)" using w(2) by (simp add: callers_ok_def)
      ultimately have "ww_works s v \<noteq> None" by (rule creates_known)
      with created_work show False by simp
    qed
    have t: "creates (ww_callers t d) u \<longleftrightarrow> d = c \<and> u = v \<or> creates (ww_callers s d) u" for d u
      using created_work(1,2) by (auto simp: world_defs)
    from created_work(1) w(1) no show ?thesis
      unfolding creators_ok_def t by (auto simp: world_defs fresh_generation_def)
  next
    case (arrived c keys n)
    then show ?thesis by (intro creators_ok_other [OF w(1)]) (auto simp: world_defs)
  next
    case (joined_active c keys n v)
    then show ?thesis by (intro creators_ok_other [OF w(1)]) (auto simp: world_defs)
  next
    case (dropped_waiter c v)
    then show ?thesis by (intro creators_ok_other [OF w(1)]) (auto simp: world_defs)
  qed
qed

lemma creators_ok_task:
  assumes "task_step w s t" "creators_ok s"
  shows "creators_ok t"
proof -
  note tw = task_step_works [OF assms(1)]
  obtain g g' where g: "ww_works s w = Some g" "ww_works t w = Some g'" "gn_pc g \<noteq> Unspawned" "gn_pc g' \<noteq> Unspawned"
    using tw(3) by blast
  show ?thesis
  proof (rule creators_ok_other [OF assms(2)])
    fix v h
    assume "ww_works t v = Some h"
    with g tw(2) [of v] show "\<exists>g. ww_works s v = Some g \<and> (gn_pc h = Unspawned \<longleftrightarrow> gn_pc g = Unspawned)"
      by (cases "v = w") (simp, metis)
  qed (simp add: tw(1))
qed

lemma world_ok_init: "world_ok world_init"
  by (simp add: world_ok_def world_init_def linked_def callers_ok_def waiters_ok_def creators_ok_def)

lemma world_ok_aborted:
  assumes "world_ok s" "ww_works s w = Some g" "gn_pc g \<notin> {Unspawned, Draining, Dead}"
  shows "world_ok (set_work s w (g\<lparr>gn_pc := Ending\<rparr>))"
proof -
  let ?t = "set_work s w (g\<lparr>gn_pc := Ending\<rparr>)"
  have ok: "callers_ok s" "waiters_ok s" "creators_ok s" "linked s" "\<And>w g. ww_works s w = Some g \<Longrightarrow> gen_ok g"
    using assms(1) by (auto simp: world_ok_def)
  have "gen_ok (g\<lparr>gn_pc := Ending\<rparr>)" using gen_ok_abort [OF ok(5)] assms(2,3) by blast
  moreover have "callers_ok ?t"
    unfolding callers_ok_def
  proof
    fix d
    have "caller_ok s d (ww_callers ?t d)" using ok(1) by (simp add: callers_ok_def world_defs)
    then show "caller_ok ?t d (ww_callers ?t d)"
      by (rule caller_ok_mono) (use assms(2) in \<open>auto simp: world_defs\<close>)
  qed
  moreover have "creators_ok ?t"
    by (rule creators_ok_other [OF ok(3)]) (use assms(2,3) in \<open>auto simp: world_defs split: if_splits\<close>)
  ultimately show ?thesis
    using ok assms(2) by (auto simp: world_ok_def linked_def waiters_ok_def world_defs)
qed

lemma world_ok_step: "gen_step s t \<Longrightarrow> world_ok s \<Longrightarrow> world_ok t"
proof (induction rule: gen_step.induct)
  case (by_caller s t)
  then have "creators_ok s" "linked s" "callers_ok s" "waiters_ok s" "\<forall>w g. ww_works s w = Some g \<longrightarrow> gen_ok g"
    by (auto simp: world_ok_def)
  with by_caller show ?case
    using works_ok_caller linked_caller callers_ok_caller waiters_ok_caller creators_ok_caller
    unfolding world_ok_def [of t] by blast
next
  case (by_task w s t)
  then have ok: "creators_ok s" "linked s" "callers_ok s" "waiters_ok s" "\<forall>w g. ww_works s w = Some g \<longrightarrow> gen_ok g"
    by (auto simp: world_ok_def)
  have "gen_ok g" if "ww_works t v = Some g" for v g
    using by_task(1)
  proof cases
    case (ran h h' rep)
    with ok(5) gen_ok_run [OF ran(3)] that show ?thesis by (auto simp: world_defs split: if_splits)
  next
    case (unlinked h)
    with ok(5) have "gen_ok h" by blast
    with unlinked have "gen_ok (h\<lparr>gn_pc := Dead\<rparr>)" by (simp add: gen_ok_def)
    with unlinked ok(5) that show ?thesis by (auto simp: world_defs split: if_splits)
  qed
  with by_task(1) ok show ?case
    using linked_task callers_ok_task waiters_ok_task creators_ok_task unfolding world_ok_def [of t] by blast
qed (rule world_ok_aborted)

lemma gen_reachable_ok: "gen_reachable s \<Longrightarrow> world_ok s"
  by (induction rule: gen_reachable.induct) (auto intro: world_ok_init world_ok_step)

text \<open>A run: a caller misses, creates an entry under two spellings, registers and spawns the task.\<close>

definition demo_keys :: "work_key list" where
  "demo_keys = [[''srv'', ''Page.html''], [''srv'', ''page.html'']]"

definition demo_state :: work_state where
  "demo_state = work_state_default\<lparr>st_waiters := [0], st_requested := Some 0\<rparr>"

definition demo_running :: work_world where
  "demo_running = \<lparr>ww_entries = (\<lambda>k. if k \<in> set demo_keys then Some 1 else None),
     ww_works = [1 \<mapsto> (fresh_generation demo_keys 0)\<lparr>gn_state := demo_state, gn_pc := Spawned\<rparr>],
     ww_callers = (\<lambda>_. Absent)(0 := Joined 1 False), ww_receivers = (\<lambda>_. No_Channel)(0 := Open)\<rparr>"

lemma demo_running_reachable: "gen_reachable demo_running"
proof -
  let ?s1 = "set_caller world_init 0 (Looking demo_keys 0)"
  let ?s2 = "(set_caller (set_work ?s1 1 (fresh_generation demo_keys 0)) 0 (Found demo_keys 0 1 True))
      \<lparr>ww_entries := insert_keys (ww_entries ?s1) demo_keys 1\<rparr>"
  let ?s3 = "(set_caller (set_work ?s2 1 ((fresh_generation demo_keys 0)\<lparr>gn_state := demo_state\<rparr>)) 0 (Joined 1 True))
      \<lparr>ww_receivers := (ww_receivers ?s2)(0 := Open)\<rparr>"
  let ?s4 = "set_caller (set_work ?s3 1 ((fresh_generation demo_keys 0)\<lparr>gn_state := demo_state, gn_pc := Spawned\<rparr>)) 0 (Joined 1 False)"
  have s1: "caller_step world_init ?s1"
    by (rule caller_step.arrived) (simp_all add: world_init_def demo_keys_def)
  have none: "find_work ?s1 demo_keys = None"
    by (simp add: demo_keys_def live_work_def world_defs world_init_def)
  have s2: "caller_step ?s1 ?s2"
    by (rule caller_step.created_work [OF _ none]) (simp_all add: world_defs world_init_def)
  have s3: "caller_step ?s2 ?s3"
    by (rule caller_step.enqueued_waiter [where n = 0 and keys = demo_keys])
      (simp_all add: world_defs world_init_def register_waiter_def fresh_generation_def work_state_default_def demo_state_def)
  have s4: "caller_step ?s3 ?s4"
    using caller_step.spawned_task [of ?s3 0 1 "(fresh_generation demo_keys 0)\<lparr>gn_state := demo_state\<rparr>"]
    by (simp add: world_defs)
  have "gen_reachable ?s4"
    by (rule gen_reachable.gen_next [OF gen_reachable.gen_next [OF gen_reachable.gen_next [OF
          gen_reachable.gen_next [OF gen_reachable.gen_start]]]]) (rule gen_step.by_caller s1 s2 s3 s4)+
  moreover have "?s4 = demo_running"
    by (simp add: demo_running_def world_defs world_init_def fun_eq_iff insert_keys_eq)
  ultimately show ?thesis by simp
qed

section \<open>Properties\<close>

text \<open>The stages in which a task renders, publishes or is about to.\<close>

definition generating :: "generation \<Rightarrow> bool" where
  "generating g \<longleftrightarrow> gn_pc g \<in> {Unspawned, Spawned, Permitting Request, Permitting Subscription, Slot, Reopening, Rendering}"

lemma generating_open: "gen_ok g \<Longrightarrow> generating g \<Longrightarrow> st_terminal (gn_state g) = None"
  by (cases "(gn_pc g, gn_state g, gn_first g, gn_streams g)" rule: task_ok.cases) (auto simp: gen_ok_def generating_def)



text \<open>How many steps of its own the task is away from answering its waiters.\<close>

fun answer_rank :: "gen_pc \<Rightarrow> nat \<Rightarrow> nat" where
  "answer_rank Unspawned n = 4"
| "answer_rank Spawned n = 3"
| "answer_rank (Permitting tr) n = 2"
| "answer_rank Rendering n = 1"
| "answer_rank Ending n = 1"
| "answer_rank Triggering n = 3 + n"
| "answer_rank _ n = 0"

definition gen_rank :: "generation \<Rightarrow> nat" where
  "gen_rank g = answer_rank (gn_pc g) (gn_streams g)"

lemma run_step_rank:
  assumes "run_step gone g g' rep" "gen_ok g" "c \<in> set (st_waiters (gn_state g))" "\<not> gone c"
  shows "(\<exists>cs r. rep = Reply cs r \<and> c \<in> set cs) \<or> gen_rank g' < gen_rank g"
  using assms
  by (induction rule: run_step.induct)
    (auto simp: gen_rank_def gen_ok_def state_defs Let_def filter_empty_conv split: if_splits)

lemma run_step_enabled:
  assumes "gn_pc g \<notin> {Unspawned, Draining, Dead}" "gn_pc g = Triggering \<Longrightarrow> gn_streams g = 0 \<or> st_requested (gn_state g) \<noteq> None"
  shows "\<exists>g' rep. run_step gone g g' rep"
proof (cases "gn_pc g")
  case Spawned
  then show ?thesis by (metis run_step.subscribe_refused surj_pair)
next
  case (Permitting tr)
  then show ?thesis by (metis run_step.permitted surj_pair)
next
  case Slot
  then show ?thesis by (metis run_step.permitted surj_pair)
next
  case Reopening
  then show ?thesis by (metis run_step.reopened)
next
  case Rendering
  then show ?thesis by (metis run_step.completed surj_pair)
next
  case Triggering
  with assms(2) show ?thesis by (metis run_step.no_subscription run_step.request_seen gr0I)
next
  case Ending
  then show ?thesis by (metis run_step.drained prod_cases3)
qed (use assms(1) in auto)

lemma queued_stage:
  assumes "gen_ok g" "c \<in> set (st_waiters (gn_state g))"
  shows "gn_pc g \<notin> {Slot, Reopening, Draining, Dead}"
    and "gn_pc g = Triggering \<Longrightarrow> gn_streams g = 0 \<or> st_requested (gn_state g) \<noteq> None"
proof -
  have "st_waiters (gn_state g) \<noteq> []" using assms(2) by auto
  with assms(1) show "gn_pc g \<notin> {Slot, Reopening, Draining, Dead}"
    "gn_pc g = Triggering \<Longrightarrow> gn_streams g = 0 \<or> st_requested (gn_state g) \<noteq> None"
    by (auto simp: gen_ok_def)
qed

lemma task_step_rank:
  assumes "task_step w s t" "ww_works s w = Some g" "gen_ok g" "c \<in> set (st_waiters (gn_state g))" "ww_receivers s c = Open"
  shows "(\<exists>r. ww_receivers t c = Sent r) \<or> (\<exists>g'. ww_works t w = Some g' \<and> gen_rank g' < gen_rank g)"
  using assms(1)
proof cases
  case (ran h h' rep)
  with assms have "(\<exists>cs r. rep = Reply cs r \<and> c \<in> set cs) \<or> gen_rank h' < gen_rank g"
    using run_step_rank [OF ran(3), of c] by (auto simp: canceled_def)
  with ran assms(5) show ?thesis by (auto simp: world_defs send_all_def)
next
  case (unlinked h)
  with assms(2) queued_stage(1) [OF assms(3,4)] show ?thesis by simp
qed

lemma caller_step_rank:
  assumes "caller_step s t" "ww_works s w = Some g" "creators_ok s"
  shows "\<exists>g'. ww_works t w = Some g' \<and> gen_rank g' \<le> gen_rank g"
  using assms(1)
proof cases
  case (spawned_task c v h)
  have "gn_pc h = Unspawned" by (rule creator_unspawned [OF assms(3) spawned_task(3), of c]) (simp add: spawned_task(2))
  with spawned_task assms(2) show ?thesis by (auto simp: world_defs gen_rank_def)
qed (use assms(2) in \<open>auto simp: world_defs gen_rank_def\<close>)



end
