(* ===== verification/Work_Progress.thy ===== *)
theory Work_Progress
  imports Static_Work
begin

text \<open>
  Termination of the generation tasks of \<^verbatim>\<open>src/static_routes.rs\<close>: what one task can do between two outside
  events. The events are the acceptance of a caller, which may leave a request, the spawning of the task, and an
  event of a subscription; every other step of a task lowers a potential that an event raises by a constant. The
  steps themselves are those of \<open>Static_Work\<close>.
\<close>

section \<open>The potential of a task\<close>

text \<open>How far the stage is from the end of its current round; the flag says whether a request is pending.\<close>

fun stage_rank :: "gen_pc \<Rightarrow> bool \<Rightarrow> nat" where
  "stage_rank Unspawned pending = 10"
| "stage_rank Spawned pending = 9"
| "stage_rank (Permitting tr) pending = (if pending then 5 else 8)"
| "stage_rank Slot pending = (if pending then 8 else 7)"
| "stage_rank Reopening pending = (if pending then 8 else 7)"
| "stage_rank Rendering pending = (if pending then 7 else 6)"
| "stage_rank Triggering pending = (if pending then 6 else 5)"
| "stage_rank Ending pending = 4"
| "stage_rank Draining pending = 3"
| "stage_rank Dead pending = 0"

definition pending_request :: "generation \<Rightarrow> bool" where
  "pending_request g \<longleftrightarrow> st_requested (gn_state g) \<noteq> None"

definition work_bound :: "generation \<Rightarrow> nat" where
  "work_bound g =
     stage_rank (gn_pc g) (pending_request g) + (if pending_request g then 10 else 0)
     + gn_streams g + (if gn_first g then gn_regenerate g else 0)"

text \<open>The task was woken by an event of a subscription.\<close>

definition triggered :: "generation \<Rightarrow> bool" where
  "triggered g \<longleftrightarrow> gn_pc g = Permitting Subscription"

text \<open>The task waits for its subscriptions only.\<close>

definition awaiting :: "generation \<Rightarrow> bool" where
  "awaiting g \<longleftrightarrow> gn_pc g = Triggering \<and> 0 < gn_streams g \<and> \<not> pending_request g"

lemmas work_bound_defs = work_bound_def pending_request_def triggered_def

lemma run_step_bound:
  "run_step gone g g' rep \<Longrightarrow> \<not> triggered g' \<Longrightarrow> work_bound g' < work_bound g"
  by (induction rule: run_step.induct)
    (auto simp: work_bound_defs state_defs Let_def split: if_splits option.splits)

lemma run_step_event_bound:
  "run_step gone g g' rep \<Longrightarrow> triggered g' \<Longrightarrow> work_bound g' \<le> work_bound g + 3"
  by (induction rule: run_step.induct)
    (auto simp: work_bound_defs state_defs Let_def split: if_splits option.splits)

lemma stage_rank_pending: "stage_rank p True \<le> stage_rank p False + 1" "stage_rank p False \<le> stage_rank p True + 3"
  by (cases p; simp)+

lemma register_bound:
  "register_waiter gone c (gn_state g) = Enqueued st \<Longrightarrow> work_bound (g\<lparr>gn_state := st\<rparr>) \<le> work_bound g + 11"
  using stage_rank_pending(1) [of "gn_pc g"]
  by (auto simp: work_bound_defs register_waiter_def Let_def split: if_splits)

lemma caller_step_bound:
  "caller_step s t \<Longrightarrow> ww_works s w = Some g \<Longrightarrow> creators_ok s \<Longrightarrow>
     \<exists>g'. ww_works t w = Some g' \<and> work_bound g' \<le> work_bound g + 11"
proof (induction rule: caller_step.induct)
  case (enqueued_waiter s c keys n v new h st)
  then show ?case using register_bound [of "canceled s" c g st] by (auto simp: world_defs)
next
  case (spawned_task s c v h)
  then have "gn_pc h = Unspawned" by (intro creator_unspawned [of s v h c]) auto
  with spawned_task show ?case by (auto simp: world_defs work_bound_defs)
qed (auto simp: world_defs)

lemma aborted_bound:
  "gn_pc g \<notin> {Unspawned, Draining, Dead} \<Longrightarrow> work_bound (g\<lparr>gn_pc := Ending\<rparr>) \<le> work_bound g"
  by (cases "gn_pc g") (auto simp: work_bound_defs)

section \<open>Runs observed at one entry\<close>

text \<open>A run of the whole system seen from entry \<open>w\<close>: the first number counts the steps of its own task, the second
  the events: a step of a caller that changes the entry or an event of a subscription. Everything else that
  happens, the dropping of the task included, is not counted.\<close>

inductive observed_run :: "nat \<Rightarrow> nat \<Rightarrow> nat \<Rightarrow> work_world \<Rightarrow> work_world \<Rightarrow> bool" for w where
  run_start: "observed_run w 0 0 s s"
| run_work: "observed_run w n m s t \<Longrightarrow> task_step w t u \<Longrightarrow> ww_works u w = Some g \<Longrightarrow> \<not> triggered g \<Longrightarrow>
     observed_run w (Suc n) m s u"
| run_event: "observed_run w n m s t \<Longrightarrow> task_step w t u \<Longrightarrow> ww_works u w = Some g \<Longrightarrow> triggered g \<Longrightarrow>
     observed_run w n (Suc m) s u"
| run_caller: "observed_run w n m s t \<Longrightarrow> caller_step t u \<Longrightarrow> ww_works u w \<noteq> ww_works t w \<Longrightarrow>
     observed_run w n (Suc m) s u"
| run_other: "observed_run w n m s t \<Longrightarrow> gen_step t u \<Longrightarrow> ww_works u w = ww_works t w \<Longrightarrow>
     observed_run w n m s u"
| run_dropped: "observed_run w n m s t \<Longrightarrow> ww_works t w = Some g \<Longrightarrow> gn_pc g \<notin> {Unspawned, Draining, Dead} \<Longrightarrow>
     observed_run w n m s (set_work t w (g\<lparr>gn_pc := Ending\<rparr>))"

text \<open>Every run of the system is seen by every entry.\<close>

lemma observed_run_extends:
  assumes "observed_run w n m s t" "gen_step t u"
  shows "\<exists>n m. observed_run w n m s u"
  using assms(2)
proof cases
  case by_caller
  with assms show ?thesis by (metis run_caller run_other)
next
  case (by_task v)
  show ?thesis
  proof (cases "v = w")
    case True
    with by_task obtain g where "ww_works u w = Some g" using task_step_works(3) by blast
    with assms(1) by_task True show ?thesis by (metis run_work run_event)
  next
    case False
    with by_task task_step_works(2) have "ww_works u w = ww_works t w" by metis
    with assms show ?thesis by (metis run_other)
  qed
next
  case (aborted v g)
  show ?thesis
  proof (cases "v = w")
    case True
    with assms(1) aborted run_dropped show ?thesis by metis
  next
    case False
    with assms aborted have "ww_works u w = ww_works t w" by (simp add: world_defs)
    with assms show ?thesis by (metis run_other)
  qed
qed

lemma observed_run_reachable: "observed_run w n m s t \<Longrightarrow> gen_reachable s \<Longrightarrow> gen_reachable t"
  by (induction rule: observed_run.induct) (blast intro: gen_next gen_step.intros)+

lemma observed_run_bound:
  assumes "observed_run w n m s t" "gen_reachable s" "ww_works s w = Some g"
  shows "\<exists>g'. ww_works t w = Some g' \<and> n + work_bound g' \<le> work_bound g + 11 * m"
  using assms
proof (induction rule: observed_run.induct)
  case (run_start s)
  then show ?case by simp
next
  case (run_work n m s t u h)
  then obtain g' where g': "ww_works t w = Some g'" "n + work_bound g' \<le> work_bound g + 11 * m" by blast
  from run_work(2) have "work_bound h < work_bound g'"
  proof cases
    case (ran f f' rep)
    with g'(1) run_work(3,4) show ?thesis using run_step_bound [OF ran(3)] by (simp add: world_defs)
  next
    case (unlinked f)
    with g'(1) run_work(3) show ?thesis by (auto simp: world_defs work_bound_defs)
  qed
  with g'(2) run_work(3) show ?case by auto
next
  case (run_event n m s t u h)
  then obtain g' where g': "ww_works t w = Some g'" "n + work_bound g' \<le> work_bound g + 11 * m" by blast
  from run_event(2) have "work_bound h \<le> work_bound g' + 3"
  proof cases
    case (ran f f' rep)
    with g'(1) run_event(3,4) show ?thesis using run_step_event_bound [OF ran(3)] by (simp add: world_defs)
  next
    case (unlinked f)
    with g'(1) run_event(3,4) show ?thesis by (auto simp: world_defs triggered_def)
  qed
  with g'(2) run_event(3) show ?case by auto
next
  case (run_caller n m s t u)
  then obtain g' where g': "ww_works t w = Some g'" "n + work_bound g' \<le> work_bound g + 11 * m" by blast
  have "creators_ok t"
    using gen_reachable_ok observed_run_reachable run_caller.hyps(1) run_caller.prems(1) by (simp add: world_ok_def)
  from caller_step_bound [OF run_caller(2) g'(1) this] g'(2) show ?case by auto
next
  case (run_other n m s t u)
  then show ?case by simp
next
  case (run_dropped n m s t h)
  then obtain "n + work_bound h \<le> work_bound g + 11 * m" by auto
  with aborted_bound [OF run_dropped(3)] show ?case by (auto simp: world_defs)
qed

lemma task_step_enabled:
  assumes "ww_works t w = Some g" "gn_pc g \<notin> {Unspawned, Dead}" "\<not> awaiting g"
  shows "\<exists>u g'. task_step w t u \<and> ww_works u w = Some g' \<and> \<not> triggered g'"
proof (cases "gn_pc g = Draining")
  case True
  note step = task_step.unlinked [OF assms(1) True]
  show ?thesis
    by (intro exI conjI, rule step) (auto simp: world_defs triggered_def)
next
  case False
  have go: ?thesis if "run_step (canceled t) g g' rep" "\<not> triggered g'" for g' rep
    by (intro exI conjI, rule task_step.ran [OF assms(1) that(1)]) (auto simp: world_defs that(2))
  show ?thesis
  proof (cases "gn_pc g = Triggering \<and> gn_streams g \<noteq> 0")
    case True
    with assms(3) have "run_step (canceled t) g (g\<lparr>gn_pc := Permitting Request\<rparr>) Quiet"
      by (intro run_step.request_seen) (auto simp: awaiting_def pending_request_def)
    then show ?thesis by (rule go) (simp add: triggered_def)
  next
    case no: False
    have "gn_pc g = Triggering \<Longrightarrow> gn_streams g = 0 \<or> st_requested (gn_state g) \<noteq> None" using no by blast
    with False assms(2) obtain g' rep where r: "run_step (canceled t) g g' rep"
      using run_step_enabled [of g "canceled t"] by blast
    moreover have "\<not> triggered g'"
      using r no by cases (auto simp: triggered_def split: if_splits)
    ultimately show ?thesis by (rule go)
  qed
qed

section \<open>Properties\<close>



end
