(* ===== verification/Request_Scope.thy ===== *)
theory Request_Scope
  imports Prelude
begin

text \<open>
  Thread-affine access to native requests (\<^verbatim>\<open>src/request.rs\<close>). A scope owns the native requests
  registered on its thread; a transferable handle holds only a token that names its scope, its entry and
  its origin thread.

  The world is the scopes by their identifier, each thread's stack of scopes, and the number of live
  handles of each token. When the last handle is dropped on the origin thread the entry is removed at
  once; elsewhere the token's destructor sets the scope's dirty flag and then wakes the root task, each a
  separate step that other threads may interleave with, and the root task registers its waker before it
  looks at the flag.
\<close>

section \<open>State\<close>

datatype access_error = MissingScope | WrongThread | Closed

record token =
  tk_scope :: nat
  tk_id :: nat
  tk_origin :: nat

record 'r scope =
  sc_thread :: nat
  sc_next :: nat
  sc_closed :: bool
  sc_entries :: "nat \<Rightarrow> 'r option"
  sc_dirty :: bool
  sc_woken :: bool
  sc_polling :: bool

record 'r world =
  w_scopes :: "nat \<Rightarrow> 'r scope option"
  w_stack :: "nat \<Rightarrow> nat list"
  w_next_scope :: nat
  w_handles :: "token \<Rightarrow> nat"
  w_marking :: "token set"
  w_waking :: "token set"

definition world_init :: "'r world" where
  "world_init = \<lparr>w_scopes = (\<lambda>_. None), w_stack = (\<lambda>_. []), w_next_scope = 1, w_handles = (\<lambda>_. 0),
     w_marking = {}, w_waking = {}\<rparr>"

definition is_open :: "'r world \<Rightarrow> nat \<Rightarrow> bool" where
  "is_open w sid = (case w_scopes w sid of Some sc \<Rightarrow> \<not> sc_closed sc | None \<Rightarrow> False)"

section \<open>Operations\<close>

text \<open>\<open>current_registry\<close>: the most recently opened live scope of the thread.\<close>

definition current_registry :: "'r world \<Rightarrow> nat \<Rightarrow> nat option" where
  "current_registry w thread = find (is_open w) (rev (w_stack w thread))"

definition find_registry :: "'r world \<Rightarrow> nat \<Rightarrow> nat \<Rightarrow> nat option" where
  "find_registry w thread sid = find (\<lambda>s. s = sid \<and> is_open w s) (w_stack w thread)"

definition set_scope :: "'r world \<Rightarrow> nat \<Rightarrow> 'r scope \<Rightarrow> 'r world" where
  "set_scope w sid sc = w\<lparr>w_scopes := (w_scopes w)(sid \<mapsto> sc)\<rparr>"

text \<open>\<open>Request::try_new\<close>; \<open>None\<close> is the panic when the identifiers of the scope are exhausted.\<close>

definition try_new :: "'r world \<Rightarrow> nat \<Rightarrow> 'r \<Rightarrow> ('r world \<times> (access_error + token)) option" where
  "try_new w thread req =
     (case current_registry w thread of
        None \<Rightarrow> Some (w, Inl MissingScope)
      | Some sid \<Rightarrow>
          (case w_scopes w sid of
             None \<Rightarrow> Some (w, Inl MissingScope)
           | Some sc \<Rightarrow>
               if usize_max < sc_next sc + 1 then None
               else let tk = \<lparr>tk_scope = sid, tk_id = sc_next sc, tk_origin = thread\<rparr>;
                        sc' = sc\<lparr>sc_next := sc_next sc + 1, sc_entries := (sc_entries sc)(sc_next sc \<mapsto> req)\<rparr>
                    in Some ((set_scope w sid sc')\<lparr>w_handles := (w_handles w)(tk := 1)\<rparr>, Inr tk)))"

text \<open>\<open>Request::with\<close>: the native request the callback sees.\<close>

definition access :: "'r world \<Rightarrow> nat \<Rightarrow> token \<Rightarrow> access_error + 'r" where
  "access w thread tk =
     (if tk_origin tk \<noteq> thread then Inl WrongThread
      else case find_registry w thread (tk_scope tk) of
             None \<Rightarrow> Inl Closed
           | Some sid \<Rightarrow>
               (case Option.bind (w_scopes w sid) (\<lambda>sc. sc_entries sc (tk_id tk)) of
                  None \<Rightarrow> Inl Closed
                | Some native \<Rightarrow> Inr native))"

definition clone_handle :: "'r world \<Rightarrow> token \<Rightarrow> 'r world" where
  "clone_handle w tk = w\<lparr>w_handles := (w_handles w)(tk := w_handles w tk + 1)\<rparr>"

definition remove_entry :: "'r world \<Rightarrow> nat \<Rightarrow> nat \<Rightarrow> 'r world" where
  "remove_entry w sid i =
     (case w_scopes w sid of
        Some sc \<Rightarrow> set_scope w sid (sc\<lparr>sc_entries := (sc_entries sc)(i := None)\<rparr>)
      | None \<Rightarrow> w)"

text \<open>Dropping a handle on a thread: the last one runs the token's destructor, which on a foreign thread
  is left with its two remaining steps.\<close>

definition drop_handle :: "'r world \<Rightarrow> nat \<Rightarrow> token \<Rightarrow> 'r world" where
  "drop_handle w thread tk =
     (let w1 = w\<lparr>w_handles := (w_handles w)(tk := w_handles w tk - 1)\<rparr>
      in if w_handles w1 tk \<noteq> 0 then w1
         else if tk_origin tk = thread then
           (case find_registry w1 thread (tk_scope tk) of
              Some sid \<Rightarrow> remove_entry w1 sid (tk_id tk)
            | None \<Rightarrow> w1)
         else w1\<lparr>w_marking := insert tk (w_marking w1)\<rparr>)"

definition mark_dirty :: "'r world \<Rightarrow> token \<Rightarrow> 'r world" where
  "mark_dirty w tk =
     (let w1 = w\<lparr>w_marking := w_marking w - {tk}, w_waking := insert tk (w_waking w)\<rparr>
      in case w_scopes w (tk_scope tk) of
           Some sc \<Rightarrow> set_scope w1 (tk_scope tk) (sc\<lparr>sc_dirty := True\<rparr>)
         | None \<Rightarrow> w1)"

definition wake_root :: "'r world \<Rightarrow> token \<Rightarrow> 'r world" where
  "wake_root w tk =
     (let w1 = w\<lparr>w_waking := w_waking w - {tk}\<rparr>
      in case w_scopes w (tk_scope tk) of
           Some sc \<Rightarrow> set_scope w1 (tk_scope tk) (sc\<lparr>sc_woken := True\<rparr>)
         | None \<Rightarrow> w1)"

text \<open>\<open>Registry::collect\<close>: the entries whose token has no handle left are removed.\<close>

definition collect_entries :: "'r world \<Rightarrow> nat \<Rightarrow> 'r scope \<Rightarrow> 'r scope" where
  "collect_entries w sid sc =
     sc\<lparr>sc_entries := (\<lambda>i. if w_handles w \<lparr>tk_scope = sid, tk_id = i, tk_origin = sc_thread sc\<rparr> = 0
                            then None else sc_entries sc i)\<rparr>"

definition collect :: "'r world \<Rightarrow> nat \<Rightarrow> 'r world" where
  "collect w sid = (case w_scopes w sid of Some sc \<Rightarrow> set_scope w sid (collect_entries w sid sc) | None \<Rightarrow> w)"

text \<open>The root task's poll: registration of the waker, then the look at the flag.\<close>

definition poll_register :: "'r world \<Rightarrow> nat \<Rightarrow> 'r scope \<Rightarrow> 'r world" where
  "poll_register w sid sc = set_scope w sid (sc\<lparr>sc_woken := False, sc_polling := True\<rparr>)"

definition poll_collect :: "'r world \<Rightarrow> nat \<Rightarrow> 'r scope \<Rightarrow> 'r world" where
  "poll_collect w sid sc =
     set_scope w sid ((if sc_dirty sc then collect_entries w sid sc else sc)\<lparr>sc_dirty := False, sc_polling := False\<rparr>)"

text \<open>\<open>RequestScope::new\<close>; \<open>None\<close> is the panic when scope identifiers are exhausted. The task of a new
  scope is scheduled for its first poll.\<close>

definition open_scope :: "'r world \<Rightarrow> nat \<Rightarrow> 'r world option" where
  "open_scope w thread =
     (if usize_max < w_next_scope w + 1 then None
      else let sid = w_next_scope w;
               sc = \<lparr>sc_thread = thread, sc_next = 0, sc_closed = False, sc_entries = (\<lambda>_. None),
                     sc_dirty = False, sc_woken = True, sc_polling = False\<rparr>
           in Some ((set_scope w sid sc)\<lparr>w_next_scope := sid + 1,
                      w_stack := (w_stack w)(thread := w_stack w thread @ [sid])\<rparr>))"

definition close_scope :: "'r world \<Rightarrow> nat \<Rightarrow> 'r scope \<Rightarrow> 'r world" where
  "close_scope w sid sc =
     (set_scope w sid (sc\<lparr>sc_closed := True, sc_entries := (\<lambda>_. None)\<rparr>))
        \<lparr>w_stack := (w_stack w)(sc_thread sc := filter (\<lambda>s. s \<noteq> sid) (w_stack w (sc_thread sc)))\<rparr>"

section \<open>Interleavings\<close>

inductive scope_step :: "'r world \<Rightarrow> 'r world \<Rightarrow> bool" where
  opened: "open_scope w thread = Some w' \<Longrightarrow> scope_step w w'"
| registered: "try_new w thread req = Some (w', r) \<Longrightarrow> scope_step w w'"
| cloned: "w_handles w tk \<noteq> 0 \<Longrightarrow> scope_step w (clone_handle w tk)"
| dropped: "w_handles w tk \<noteq> 0 \<Longrightarrow> scope_step w (drop_handle w thread tk)"
| marked: "tk \<in> w_marking w \<Longrightarrow> scope_step w (mark_dirty w tk)"
| woken: "tk \<in> w_waking w \<Longrightarrow> scope_step w (wake_root w tk)"
| collected: "scope_step w (collect w sid)"
| poll_began: "w_scopes w sid = Some sc \<Longrightarrow> \<not> sc_polling sc \<Longrightarrow> scope_step w (poll_register w sid sc)"
| poll_looked: "w_scopes w sid = Some sc \<Longrightarrow> sc_polling sc \<Longrightarrow> scope_step w (poll_collect w sid sc)"
| closed: "w_scopes w sid = Some sc \<Longrightarrow> scope_step w (close_scope w sid sc)"

inductive_cases scope_stepE: "scope_step w w'"

inductive scope_reachable :: "'r world \<Rightarrow> bool" where
  start: "scope_reachable world_init"
| step: "scope_reachable w \<Longrightarrow> scope_step w w' \<Longrightarrow> scope_reachable w'"

section \<open>Invariant\<close>

definition token_ok :: "'r world \<Rightarrow> token \<Rightarrow> bool" where
  "token_ok w tk \<longleftrightarrow> (\<exists>sc. w_scopes w (tk_scope tk) = Some sc \<and> tk_origin tk = sc_thread sc
     \<and> (\<not> sc_closed sc \<longrightarrow> sc_entries sc (tk_id tk) \<noteq> None) \<and> tk_id tk < sc_next sc)"

definition retiring :: "'r world \<Rightarrow> nat \<Rightarrow> nat \<Rightarrow> bool" where
  "retiring w sid i \<longleftrightarrow> (\<exists>tk\<in>w_marking w. tk_scope tk = sid \<and> tk_id tk = i)"

definition entry_ok :: "'r world \<Rightarrow> nat \<Rightarrow> 'r scope \<Rightarrow> nat \<Rightarrow> bool" where
  "entry_ok w sid sc i \<longleftrightarrow> (sc_entries sc i \<noteq> None \<longrightarrow>
     \<not> sc_closed sc \<and> i < sc_next sc
     \<and> (w_handles w \<lparr>tk_scope = sid, tk_id = i, tk_origin = sc_thread sc\<rparr> = 0 \<longrightarrow> sc_dirty sc \<or> retiring w sid i))"

definition scope_ok :: "'r world \<Rightarrow> nat \<Rightarrow> 'r scope \<Rightarrow> bool" where
  "scope_ok w sid sc \<longleftrightarrow>
     (\<forall>i. entry_ok w sid sc i)
     \<and> (sc_dirty sc \<and> \<not> sc_polling sc \<longrightarrow> sc_woken sc \<or> (\<exists>tk\<in>w_waking w. tk_scope tk = sid))
     \<and> (\<not> sc_closed sc \<longrightarrow> sid \<in> set (w_stack w (sc_thread sc)))
     \<and> sid < w_next_scope w"

definition world_inv :: "'r world \<Rightarrow> bool" where
  "world_inv w \<longleftrightarrow>
     (\<forall>sid sc. w_scopes w sid = Some sc \<longrightarrow> scope_ok w sid sc)
     \<and> (\<forall>tk. w_handles w tk \<noteq> 0 \<longrightarrow> token_ok w tk)
     \<and> (\<forall>thread sid. sid \<in> set (w_stack w thread) \<longrightarrow> (\<exists>sc. w_scopes w sid = Some sc \<and> sc_thread sc = thread \<and> \<not> sc_closed sc))"

lemma token_eqI: "tk_scope tk = s \<Longrightarrow> tk_origin tk = t \<Longrightarrow> tk = \<lparr>tk_scope = s, tk_id = tk_id tk, tk_origin = t\<rparr>"
  by simp

lemma find_eq: "x \<in> set xs \<Longrightarrow> Q x \<Longrightarrow> find (\<lambda>s. s = x \<and> Q s) xs = Some x"
  by (induction xs) auto

lemma find_Some_in: "find P xs = Some x \<Longrightarrow> x \<in> set xs \<and> P x"
  by (induction xs) (auto split: if_splits)

lemma find_registry_open:
  assumes "world_inv w" "w_scopes w sid = Some sc" "\<not> sc_closed sc"
  shows "find_registry w (sc_thread sc) sid = Some sid"
proof -
  have "scope_ok w sid sc" using assms(1,2) unfolding world_inv_def by blast
  then have "sid \<in> set (w_stack w (sc_thread sc))" using assms(3) by (simp add: scope_ok_def)
  then show ?thesis
    unfolding find_registry_def by (rule find_eq) (simp add: is_open_def assms)
qed

lemma find_registry_Some:
  "find_registry w thread sid = Some s \<Longrightarrow> s = sid \<and> sid \<in> set (w_stack w thread) \<and> is_open w sid"
  using find_Some_in [of "\<lambda>s. s = sid \<and> is_open w s" "w_stack w thread" s] by (auto simp: find_registry_def)

lemma world_invI:
  assumes "\<And>sid sc. w_scopes w sid = Some sc \<Longrightarrow> scope_ok w sid sc"
    and "\<And>tk. w_handles w tk \<noteq> 0 \<Longrightarrow> token_ok w tk"
    and "\<And>thread sid. sid \<in> set (w_stack w thread) \<Longrightarrow>
           \<exists>sc. w_scopes w sid = Some sc \<and> sc_thread sc = thread \<and> \<not> sc_closed sc"
  shows "world_inv w"
  using assms by (simp add: world_inv_def)

lemma world_invD:
  assumes "world_inv w"
  shows "w_scopes w sid = Some sc \<Longrightarrow> scope_ok w sid sc"
    and "w_handles w tk \<noteq> 0 \<Longrightarrow> token_ok w tk"
    and "sid \<in> set (w_stack w thread) \<Longrightarrow>
           \<exists>sc. w_scopes w sid = Some sc \<and> sc_thread sc = thread \<and> \<not> sc_closed sc"
  using assms unfolding world_inv_def by blast+

text \<open>Framing: a scope stays in order when its own record does and the world changes only in its favour.\<close>

lemma scope_ok_frame:
  assumes "scope_ok w sid sc" "sc' = sc"
    and "\<And>i. w_handles w' \<lparr>tk_scope = sid, tk_id = i, tk_origin = sc_thread sc\<rparr> = 0 \<Longrightarrow> sc_entries sc i \<noteq> None \<Longrightarrow>
           w_handles w \<lparr>tk_scope = sid, tk_id = i, tk_origin = sc_thread sc\<rparr> = 0 \<or> retiring w' sid i"
    and "\<And>i. retiring w sid i \<Longrightarrow> retiring w' sid i"
    and "\<And>tk. tk \<in> w_waking w \<Longrightarrow> tk_scope tk = sid \<Longrightarrow> tk \<in> w_waking w'"
    and "\<not> sc_closed sc \<Longrightarrow> sid \<in> set (w_stack w (sc_thread sc)) \<Longrightarrow> sid \<in> set (w_stack w' (sc_thread sc))"
    and "w_next_scope w \<le> w_next_scope w'"
  shows "scope_ok w' sid sc'"
proof -
  have "entry_ok w' sid sc i" if "entry_ok w sid sc i" for i
    using that assms(3) [of i] assms(4) [of i] unfolding entry_ok_def by argo
  with assms(1,5-7) show ?thesis unfolding scope_ok_def assms(2) by (meson le_less_trans less_le_trans)
qed

text \<open>A step that changes the record of one scope, and at most the retirements and wake-ups of that scope.\<close>

lemma inv_update:
  assumes inv: "world_inv w" and sc: "w_scopes w sid = Some sc"
    and w': "w' = w\<lparr>w_scopes := (w_scopes w)(sid \<mapsto> sc'), w_marking := M, w_waking := W\<rparr>"
    and M: "\<And>tk. tk \<in> w_marking w \<Longrightarrow> tk_scope tk \<noteq> sid \<Longrightarrow> tk \<in> M"
    and W: "\<And>tk. tk \<in> w_waking w \<Longrightarrow> tk_scope tk \<noteq> sid \<Longrightarrow> tk \<in> W"
    and ok: "scope_ok w' sid sc'"
    and same: "sc_thread sc' = sc_thread sc" "sc_closed sc' = sc_closed sc" "sc_next sc' = sc_next sc"
    and live: "\<And>i. w_handles w \<lparr>tk_scope = sid, tk_id = i, tk_origin = sc_thread sc\<rparr> \<noteq> 0 \<Longrightarrow>
        sc_entries sc i \<noteq> None \<Longrightarrow> sc_entries sc' i \<noteq> None"
  shows "world_inv w'"
proof (rule world_invI)
  fix s c assume c: "w_scopes w' s = Some c"
  show "scope_ok w' s c"
  proof (cases "s = sid")
    case True
    with c w' ok show ?thesis by simp
  next
    case False
    with c w' have "scope_ok w s c" using world_invD(1) [OF inv] by simp
    then show ?thesis
      by (rule scope_ok_frame) (use False w' M W in \<open>auto simp: retiring_def\<close>)
  qed
next
  fix tk assume "w_handles w' tk \<noteq> 0"
  then have h: "w_handles w tk \<noteq> 0" using w' by simp
  then have t: "token_ok w tk" by (rule world_invD(2) [OF inv])
  show "token_ok w' tk"
  proof (cases "tk_scope tk = sid")
    case True
    with t sc same have "tk = \<lparr>tk_scope = sid, tk_id = tk_id tk, tk_origin = sc_thread sc\<rparr>"
      by (intro token_eqI) (auto simp: token_ok_def)
    with h have "w_handles w \<lparr>tk_scope = sid, tk_id = tk_id tk, tk_origin = sc_thread sc\<rparr> \<noteq> 0" by simp
    from live [OF this] t True sc same w' show ?thesis by (auto simp: token_ok_def)
  next
    case False
    with t w' show ?thesis by (auto simp: token_ok_def)
  qed
next
  fix thread s assume "s \<in> set (w_stack w' thread)"
  then have "s \<in> set (w_stack w thread)" using w' by simp
  from world_invD(3) [OF inv this] sc same w' show
    "\<exists>sc. w_scopes w' s = Some sc \<and> sc_thread sc = thread \<and> \<not> sc_closed sc"
    by (cases "s = sid") auto
qed

lemma inv_irrelevant:
  assumes inv: "world_inv w" and w': "w' = w\<lparr>w_marking := M, w_waking := W\<rparr>"
    and M: "\<And>t. t \<in> w_marking w \<Longrightarrow> w_scopes w (tk_scope t) \<noteq> None \<Longrightarrow> t \<in> M"
    and W: "\<And>t. t \<in> w_waking w \<Longrightarrow> w_scopes w (tk_scope t) \<noteq> None \<Longrightarrow> t \<in> W"
  shows "world_inv w'"
proof (rule world_invI)
  fix s c assume "w_scopes w' s = Some c"
  then have c: "w_scopes w s = Some c" using w' by simp
  from world_invD(1) [OF inv c] show "scope_ok w' s c"
    by (rule scope_ok_frame) (use c w' M W in \<open>auto simp: retiring_def\<close>)
next
  fix tk assume "w_handles w' tk \<noteq> 0"
  with world_invD(2) [OF inv] w' show "token_ok w' tk" by (auto simp: token_ok_def)
next
  fix thread s assume "s \<in> set (w_stack w' thread)"
  with world_invD(3) [OF inv] w' show
    "\<exists>sc. w_scopes w' s = Some sc \<and> sc_thread sc = thread \<and> \<not> sc_closed sc" by simp
qed

lemma inv_marked:
  assumes inv: "world_inv w"
  shows "world_inv (mark_dirty w tk)"
proof (cases "w_scopes w (tk_scope tk)")
  case None
  then show ?thesis
    by (intro inv_irrelevant [OF inv, where M = "w_marking w - {tk}" and W = "insert tk (w_waking w)"]) (auto simp: mark_dirty_def)
next
  case (Some sc)
  have ok: "scope_ok w (tk_scope tk) sc" by (rule world_invD(1) [OF inv Some])
  show ?thesis
    using Some ok
    by (intro inv_update [OF inv Some, where sc' = "sc\<lparr>sc_dirty := True\<rparr>"
        and M = "w_marking w - {tk}" and W = "insert tk (w_waking w)"])
      (auto simp: mark_dirty_def set_scope_def scope_ok_def entry_ok_def)
qed

lemma scope_inv_woken:
  assumes inv: "world_inv w"
  shows "world_inv (wake_root w tk)"
proof (cases "w_scopes w (tk_scope tk)")
  case None
  then show ?thesis
    by (intro inv_irrelevant [OF inv, where M = "w_marking w" and W = "w_waking w - {tk}"]) (auto simp: wake_root_def)
next
  case (Some sc)
  have ok: "scope_ok w (tk_scope tk) sc" by (rule world_invD(1) [OF inv Some])
  show ?thesis
    using Some ok
    by (intro inv_update [OF inv Some, where sc' = "sc\<lparr>sc_woken := True\<rparr>"
        and M = "w_marking w" and W = "w_waking w - {tk}"])
      (auto simp: wake_root_def set_scope_def scope_ok_def entry_ok_def retiring_def)
qed

lemma inv_collected:
  assumes inv: "world_inv w"
  shows "world_inv (collect w sid)"
proof (cases "w_scopes w sid")
  case None
  with inv show ?thesis by (simp add: collect_def)
next
  case (Some sc)
  have ok: "scope_ok w sid sc" by (rule world_invD(1) [OF inv Some])
  show ?thesis
    using Some ok
    by (intro inv_update [OF inv Some, where sc' = "collect_entries w sid sc"
        and M = "w_marking w" and W = "w_waking w"])
      (auto simp: collect_def collect_entries_def set_scope_def scope_ok_def entry_ok_def retiring_def)
qed

lemma inv_poll_began:
  assumes inv: "world_inv w" and sc: "w_scopes w sid = Some sc"
  shows "world_inv (poll_register w sid sc)"
  using sc world_invD(1) [OF inv sc]
  by (intro inv_update [OF inv sc, where sc' = "sc\<lparr>sc_woken := False, sc_polling := True\<rparr>"
        and M = "w_marking w" and W = "w_waking w"])
    (auto simp: poll_register_def set_scope_def scope_ok_def entry_ok_def retiring_def)

lemma inv_poll_looked:
  assumes inv: "world_inv w" and sc: "w_scopes w sid = Some sc"
  shows "world_inv (poll_collect w sid sc)"
  using sc world_invD(1) [OF inv sc]
  by (intro inv_update [OF inv sc, where sc' = "(if sc_dirty sc then collect_entries w sid sc else sc)\<lparr>sc_dirty := False, sc_polling := False\<rparr>"
        and M = "w_marking w" and W = "w_waking w"])
    (auto simp: poll_collect_def collect_entries_def set_scope_def scope_ok_def entry_ok_def retiring_def)

lemma inv_cloned:
  assumes inv: "world_inv w" and h: "w_handles w tk \<noteq> 0"
  shows "world_inv (clone_handle w tk)"
proof (rule world_invI)
  fix s c assume "w_scopes (clone_handle w tk) s = Some c"
  then have "scope_ok w s c" using world_invD(1) [OF inv] by (simp add: clone_handle_def)
  then show "scope_ok (clone_handle w tk) s c"
    by (rule scope_ok_frame) (auto simp: clone_handle_def retiring_def split: if_splits)
next
  fix t assume "w_handles (clone_handle w tk) t \<noteq> 0"
  then have "w_handles w t \<noteq> 0" using h by (auto simp: clone_handle_def split: if_splits)
  from world_invD(2) [OF inv this] show "token_ok (clone_handle w tk) t"
    by (simp add: token_ok_def clone_handle_def)
next
  fix thread s assume "s \<in> set (w_stack (clone_handle w tk) thread)"
  with world_invD(3) [OF inv] show
    "\<exists>sc. w_scopes (clone_handle w tk) s = Some sc \<and> sc_thread sc = thread \<and> \<not> sc_closed sc"
    by (simp add: clone_handle_def)
qed

lemma scope_inv_opened:
  assumes inv: "world_inv w" and op: "open_scope w thread = Some w'"
  shows "world_inv w'"
proof -
  let ?n = "w_next_scope w"
  let ?sc = "\<lparr>sc_thread = thread, sc_next = 0, sc_closed = False, sc_entries = (\<lambda>_. None),
               sc_dirty = False, sc_woken = True, sc_polling = False\<rparr>"
  have w': "w' = w\<lparr>w_scopes := (w_scopes w)(?n \<mapsto> ?sc), w_next_scope := ?n + 1,
      w_stack := (w_stack w)(thread := w_stack w thread @ [?n])\<rparr>"
    using op by (auto simp: open_scope_def Let_def set_scope_def split: if_splits)
  have fresh: "w_scopes w ?n = None"
    using world_invD(1) [OF inv, of ?n] by (cases "w_scopes w ?n") (auto simp: scope_ok_def)
  show ?thesis
  proof (rule world_invI)
    fix s c assume c: "w_scopes w' s = Some c"
    show "scope_ok w' s c"
    proof (cases "s = ?n")
      case True
      with c w' show ?thesis by (auto simp: scope_ok_def entry_ok_def)
    next
      case False
      with c w' have "scope_ok w s c" using world_invD(1) [OF inv] by simp
      then show ?thesis by (rule scope_ok_frame) (auto simp: w' retiring_def)
    qed
  next
    fix tk assume "w_handles w' tk \<noteq> 0"
    then have "token_ok w tk" using world_invD(2) [OF inv] w' by simp
    with fresh w' show "token_ok w' tk" by (auto simp: token_ok_def)
  next
    fix t s assume s: "s \<in> set (w_stack w' t)"
    show "\<exists>sc. w_scopes w' s = Some sc \<and> sc_thread sc = t \<and> \<not> sc_closed sc"
    proof (cases "s \<in> set (w_stack w t)")
      case True
      from world_invD(3) [OF inv True] fresh w' show ?thesis by auto
    next
      case False
      with s w' show ?thesis by (auto split: if_splits)
    qed
  qed
qed

lemma inv_closed:
  assumes inv: "world_inv w" and sc: "w_scopes w sid = Some sc"
  shows "world_inv (close_scope w sid sc)"
proof (rule world_invI)
  fix s c assume c: "w_scopes (close_scope w sid sc) s = Some c"
  show "scope_ok (close_scope w sid sc) s c"
  proof (cases "s = sid")
    case True
    with c world_invD(1) [OF inv sc] show ?thesis
      by (auto simp: close_scope_def set_scope_def scope_ok_def entry_ok_def)
  next
    case False
    with c have "scope_ok w s c" using world_invD(1) [OF inv] by (simp add: close_scope_def set_scope_def)
    then show ?thesis
      by (rule scope_ok_frame) (use False in \<open>auto simp: close_scope_def set_scope_def retiring_def\<close>)
  qed
next
  fix tk assume "w_handles (close_scope w sid sc) tk \<noteq> 0"
  then have "token_ok w tk" using world_invD(2) [OF inv] by (simp add: close_scope_def set_scope_def)
  with sc show "token_ok (close_scope w sid sc) tk"
    by (auto simp: token_ok_def close_scope_def set_scope_def)
next
  fix t s assume s: "s \<in> set (w_stack (close_scope w sid sc) t)"
  then have "s \<in> set (w_stack w t)" by (auto simp: close_scope_def set_scope_def split: if_splits)
  from world_invD(3) [OF inv this] s sc show
    "\<exists>c. w_scopes (close_scope w sid sc) s = Some c \<and> sc_thread c = t \<and> \<not> sc_closed c"
    by (cases "s = sid") (auto simp: close_scope_def set_scope_def split: if_splits)
qed

lemma current_registry_Some:
  assumes inv: "world_inv w" and cur: "current_registry w thread = Some sid"
  obtains sc where "w_scopes w sid = Some sc" "sc_thread sc = thread" "\<not> sc_closed sc"
proof -
  have "sid \<in> set (w_stack w thread)"
    using find_Some_in [of "is_open w" "rev (w_stack w thread)"] cur by (auto simp: current_registry_def)
  from world_invD(3) [OF inv this] that show thesis by blast
qed

lemma try_new_cases:
  assumes inv: "world_inv w" and tn: "try_new w thread req = Some (w', r)"
  obtains "w' = w" "r = Inl MissingScope"
  | sid sc where "w_scopes w sid = Some sc" "sc_thread sc = thread" "\<not> sc_closed sc"
      "r = Inr \<lparr>tk_scope = sid, tk_id = sc_next sc, tk_origin = thread\<rparr>"
      "w' = w\<lparr>w_scopes := (w_scopes w)(sid \<mapsto> sc\<lparr>sc_next := sc_next sc + 1,
                 sc_entries := (sc_entries sc)(sc_next sc \<mapsto> req)\<rparr>),
               w_handles := (w_handles w)(\<lparr>tk_scope = sid, tk_id = sc_next sc, tk_origin = thread\<rparr> := 1)\<rparr>"
proof (cases "current_registry w thread")
  case None
  with tn that(1) show thesis by (simp add: try_new_def)
next
  case (Some sid)
  obtain sc where sc: "w_scopes w sid = Some sc" "sc_thread sc = thread" "\<not> sc_closed sc"
    by (rule current_registry_Some [OF inv Some])
  with Some tn that(2) show thesis by (auto simp: try_new_def Let_def set_scope_def split: if_splits)
qed

lemma inv_registered:
  assumes inv: "world_inv w" and tn: "try_new w thread req = Some (w', r)"
  shows "world_inv w'"
proof (rule try_new_cases [OF inv tn])
  fix sid and sc :: "'a scope"
  let ?tk = "\<lparr>tk_scope = sid, tk_id = sc_next sc, tk_origin = thread\<rparr>"
  let ?sc = "sc\<lparr>sc_next := sc_next sc + 1, sc_entries := (sc_entries sc)(sc_next sc \<mapsto> req)\<rparr>"
  assume sc: "w_scopes w sid = Some sc" "sc_thread sc = thread" "\<not> sc_closed sc"
    and w': "w' = w\<lparr>w_scopes := (w_scopes w)(sid \<mapsto> ?sc), w_handles := (w_handles w)(?tk := 1)\<rparr>"
  have ok: "scope_ok w sid sc" by (rule world_invD(1) [OF inv sc(1)])
  show ?thesis
  proof (rule world_invI)
    fix s c assume c: "w_scopes w' s = Some c"
    show "scope_ok w' s c"
    proof (cases "s = sid")
      case True
      have "entry_ok w' sid ?sc i" for i
        using ok sc(3) by (cases "i = sc_next sc") (auto simp: scope_ok_def entry_ok_def retiring_def w' sc(2) less_Suc_eq)
      with True c w' ok sc show ?thesis by (auto simp: scope_ok_def)
    next
      case False
      with c w' have "scope_ok w s c" using world_invD(1) [OF inv] by simp
      then show ?thesis by (rule scope_ok_frame) (auto simp: w' retiring_def split: if_splits)
    qed
  next
    fix tk assume h: "w_handles w' tk \<noteq> 0"
    show "token_ok w' tk"
    proof (cases "tk = ?tk")
      case True
      with w' sc show ?thesis by (auto simp: token_ok_def)
    next
      case False
      with h w' have "token_ok w tk" using world_invD(2) [OF inv] by (simp split: if_splits)
      with w' sc show ?thesis by (auto simp: token_ok_def)
    qed
  next
    fix t s assume "s \<in> set (w_stack w' t)"
    with world_invD(3) [OF inv] w' sc show
      "\<exists>c. w_scopes w' s = Some c \<and> sc_thread c = t \<and> \<not> sc_closed c" by (cases "s = sid") fastforce+
  qed
qed (use inv in simp)

text \<open>Dropping one of several handles, the last one at home, the last one abroad.\<close>

lemma inv_handles:
  assumes inv: "world_inv w"
    and w': "w' = w\<lparr>w_handles := (w_handles w)(tk := n), w_marking := M\<rparr>" and M: "w_marking w \<subseteq> M"
    and n: "n \<noteq> 0 \<Longrightarrow> w_handles w tk \<noteq> 0" 
      "n = 0 \<Longrightarrow> tk \<in> M \<or> (\<forall>sc. w_scopes w (tk_scope tk) = Some sc \<longrightarrow> sc_entries sc (tk_id tk) = None)"
  shows "world_inv w'"
proof (rule world_invI)
  fix s c assume "w_scopes w' s = Some c"
  then have c: "w_scopes w s = Some c" using w' by simp
  from world_invD(1) [OF inv c] show "scope_ok w' s c"
  proof (rule scope_ok_frame)
    fix i
    let ?t = "\<lparr>tk_scope = s, tk_id = i, tk_origin = sc_thread c\<rparr>"
    assume h: "w_handles w' ?t = 0" and e: "sc_entries c i \<noteq> None"
    show "w_handles w ?t = 0 \<or> retiring w' s i"
    proof (cases "tk = ?t \<and> n = 0")
      case True
      with n(2) c e have "?t \<in> M" by auto
      then show ?thesis using w' by (auto simp: retiring_def intro!: bexI [of _ ?t])
    next
      case False
      with h w' show ?thesis by (auto split: if_splits)
    qed
  qed (use w' M in \<open>auto simp: retiring_def\<close>)
next
  fix t assume "w_handles w' t \<noteq> 0"
  then have "w_handles w t \<noteq> 0" using w' n(1) by (auto split: if_splits)
  from world_invD(2) [OF inv this] w' show "token_ok w' t" by (simp add: token_ok_def)
next
  fix t s assume "s \<in> set (w_stack w' t)"
  with world_invD(3) [OF inv] w' show
    "\<exists>sc. w_scopes w' s = Some sc \<and> sc_thread sc = t \<and> \<not> sc_closed sc" by simp
qed

lemma inv_dropped_home:
  assumes inv: "world_inv w" and h: "w_handles w tk \<noteq> 0" and sc: "w_scopes w (tk_scope tk) = Some sc"
    and w': "w' = w\<lparr>w_handles := (w_handles w)(tk := 0),
        w_scopes := (w_scopes w)(tk_scope tk \<mapsto> sc\<lparr>sc_entries := (sc_entries sc)(tk_id tk := None)\<rparr>)\<rparr>"
  shows "world_inv w'"
proof (rule world_invI)
  have t: "tk = \<lparr>tk_scope = tk_scope tk, tk_id = tk_id tk, tk_origin = sc_thread sc\<rparr>"
    using world_invD(2) [OF inv h] sc by (intro token_eqI) (auto simp: token_ok_def)
  fix s c assume c: "w_scopes w' s = Some c"
  show "scope_ok w' s c"
  proof (cases "s = tk_scope tk")
    case True
    have other: "w_handles w' \<lparr>tk_scope = s, tk_id = i, tk_origin = sc_thread sc\<rparr>
        = w_handles w \<lparr>tk_scope = s, tk_id = i, tk_origin = sc_thread sc\<rparr>" if "i \<noteq> tk_id tk" for i
    proof -
      have "\<lparr>tk_scope = s, tk_id = i, tk_origin = sc_thread sc\<rparr> \<noteq> tk" using that by auto
      with w' show ?thesis by simp
    qed
    have "entry_ok w' s (sc\<lparr>sc_entries := (sc_entries sc)(tk_id tk := None)\<rparr>) i" for i
      using world_invD(1) [OF inv sc] True w' other [of i]
      by (cases "i = tk_id tk") (auto simp: scope_ok_def entry_ok_def retiring_def)
    then show ?thesis
      using c w' True world_invD(1) [OF inv sc] by (auto simp: scope_ok_def)
  next
    case False
    with c w' have "scope_ok w s c" using world_invD(1) [OF inv] by simp
    then show ?thesis
      by (rule scope_ok_frame) (use False w' in \<open>auto simp: retiring_def split: if_splits\<close>)
  qed
next
  fix t assume "w_handles w' t \<noteq> 0"
  then have t: "w_handles w t \<noteq> 0" "t \<noteq> tk" using w' by (auto split: if_splits)
  have "tk_origin tk = sc_thread sc" using world_invD(2) [OF inv h] sc by (auto simp: token_ok_def)
  with t sc world_invD(2) [OF inv t(1)] have "tk_scope t = tk_scope tk \<Longrightarrow> tk_id t \<noteq> tk_id tk"
    by (auto simp: token_ok_def intro: token.equality)
  with world_invD(2) [OF inv t(1)] sc w' show "token_ok w' t" by (auto simp: token_ok_def)
next
  fix t s assume "s \<in> set (w_stack w' t)"
  with world_invD(3) [OF inv] w' sc show
    "\<exists>c. w_scopes w' s = Some c \<and> sc_thread c = t \<and> \<not> sc_closed c" by (cases "s = tk_scope tk") fastforce+
qed

lemma scope_inv_dropped:
  assumes inv: "world_inv w" and h: "w_handles w tk \<noteq> 0"
  shows "world_inv (drop_handle w thread tk)"
proof -
  let ?n = "w_handles w tk - 1"
  let ?w1 = "w\<lparr>w_handles := (w_handles w)(tk := ?n)\<rparr>"
  consider "?n \<noteq> 0" | "?n = 0" "tk_origin tk \<noteq> thread" | "?n = 0" "tk_origin tk = thread" by blast
  then show ?thesis
  proof cases
    case 1
    then show ?thesis
      by (intro inv_handles [OF inv, where tk = tk and n = ?n and M = "w_marking w"])
        (use h in \<open>auto simp: drop_handle_def Let_def\<close>)
  next
    case 2
    then show ?thesis
      by (intro inv_handles [OF inv, where tk = tk and n = 0 and M = "insert tk (w_marking w)"])
        (auto simp: drop_handle_def Let_def)
  next
    case 3
    obtain sc where sc: "w_scopes w (tk_scope tk) = Some sc" "sc_thread sc = thread"
      using world_invD(2) [OF inv h] 3 by (auto simp: token_ok_def)
    have same: "find_registry ?w1 thread (tk_scope tk) = find_registry w thread (tk_scope tk)"
      by (simp add: find_registry_def is_open_def cong: conj_cong)
    show ?thesis
    proof (cases "sc_closed sc")
      case True
      have none: "find_registry w thread (tk_scope tk) = None"
      proof (cases "find_registry w thread (tk_scope tk)")
        case (Some s)
        from find_registry_Some [OF Some] sc True show ?thesis by (simp add: is_open_def)
      qed simp
      have d: "drop_handle w thread tk = ?w1"
        using 3 none same by (simp add: drop_handle_def Let_def)
      have "sc_entries sc (tk_id tk) = None"
        using world_invD(1) [OF inv sc(1)] True by (auto simp: scope_ok_def entry_ok_def)
      with d sc 3 show ?thesis
        by (intro inv_handles [OF inv, where tk = tk and n = ?n and M = "w_marking w"]) auto
    next
      case False
      then have "find_registry w thread (tk_scope tk) = Some (tk_scope tk)"
        using find_registry_open [OF inv sc(1)] sc(2) by simp
      with 3 same sc(1) have "drop_handle w thread tk = w\<lparr>w_handles := (w_handles w)(tk := 0),
        w_scopes := (w_scopes w)(tk_scope tk \<mapsto> sc\<lparr>sc_entries := (sc_entries sc)(tk_id tk := None)\<rparr>)\<rparr>"
        by (simp add: drop_handle_def Let_def remove_entry_def set_scope_def)
      then show ?thesis by (rule inv_dropped_home [OF inv h sc(1)])
    qed
  qed
qed

lemma scope_step_inv: "scope_step w w' \<Longrightarrow> world_inv w \<Longrightarrow> world_inv w'"
  by (induction rule: scope_step.induct)
    (blast intro: scope_inv_opened inv_registered inv_cloned scope_inv_dropped inv_marked scope_inv_woken inv_collected
      inv_poll_began inv_poll_looked inv_closed)+

lemma scope_reachable_inv: "scope_reachable w \<Longrightarrow> world_inv w"
proof (induction rule: scope_reachable.induct)
  case start
  show ?case by (simp add: world_inv_def world_init_def)
next
  case (step w w')
  then show ?case by (blast intro: scope_step_inv)
qed

section \<open>Properties\<close>

text \<open>A thread with one scope in which a request is registered.\<close>

definition demo_token :: token where
  "demo_token = \<lparr>tk_scope = 1, tk_id = 0, tk_origin = 7\<rparr>"

definition demo_world :: "string world" where
  "demo_world = fst (the (try_new (the (open_scope world_init 7)) 7 ''GET /''))"

lemma demo_world_unfold:
  "demo_world = \<lparr>w_scopes = [1 \<mapsto> \<lparr>sc_thread = 7, sc_next = 1, sc_closed = False, sc_entries = [0 \<mapsto> ''GET /''],
       sc_dirty = False, sc_woken = True, sc_polling = False\<rparr>],
     w_stack = (\<lambda>_. [])(7 := [1]), w_next_scope = 2, w_handles = (\<lambda>_. 0)(demo_token := 1), w_marking = {}, w_waking = {}\<rparr>"
  by (simp add: demo_world_def open_scope_def world_init_def usize_max_def set_scope_def try_new_def current_registry_def
      is_open_def demo_token_def Let_def)

lemma demo_world_reachable: "scope_reachable demo_world"
proof -
  obtain w1 where w1: "open_scope world_init 7 = Some (w1 :: string world)"
    by (simp add: open_scope_def world_init_def usize_max_def Let_def)
  have "\<exists>r. try_new w1 7 ''GET /'' = Some (demo_world, r)"
    using w1 unfolding demo_world_unfold
    by (auto simp: open_scope_def world_init_def usize_max_def set_scope_def try_new_def current_registry_def
        is_open_def demo_token_def Let_def)
  then obtain r where "try_new w1 7 ''GET /'' = Some (demo_world, r)" by blast
  with scope_reachable.start scope_step.opened [OF w1] show ?thesis
    by (meson scope_reachable.step scope_step.registered)
qed

text \<open>Native access through a live handle. In every reachable state, a handle that has not been dropped
  gives access exactly on its origin thread and as long as its scope is open; on another thread it reports
  the wrong thread, and after the scope has closed it reports that, whatever other threads do meanwhile.\<close>

theorem live_handle_access:
  assumes "scope_reachable w" and "w_handles w tk \<noteq> 0"
  shows "access w thread tk =
     (if thread \<noteq> tk_origin tk then Inl WrongThread
      else case w_scopes w (tk_scope tk) of
             Some sc \<Rightarrow> if sc_closed sc then Inl Closed else Inr (the (sc_entries sc (tk_id tk)))
           | None \<Rightarrow> Inl Closed)
     \<and> (\<forall>sc. w_scopes w (tk_scope tk) = Some sc \<longrightarrow> \<not> sc_closed sc \<longrightarrow> sc_entries sc (tk_id tk) \<noteq> None)"
proof -
  have inv: "world_inv w" using assms(1) by (rule scope_reachable_inv)
  obtain sc where sc: "w_scopes w (tk_scope tk) = Some sc" "tk_origin tk = sc_thread sc"
    "\<not> sc_closed sc \<Longrightarrow> sc_entries sc (tk_id tk) \<noteq> None"
    using world_invD(2) [OF inv assms(2)] by (auto simp: token_ok_def)
  show ?thesis
  proof (cases "sc_closed sc")
    case True
    then have "\<not> is_open w (tk_scope tk)" using sc by (simp add: is_open_def)
    then have "find_registry w thread (tk_scope tk) = None"
      using find_registry_Some [of w thread "tk_scope tk"] by (cases "find_registry w thread (tk_scope tk)") auto
    with True sc show ?thesis by (auto simp: access_def)
  next
    case False
    with sc find_registry_open [OF inv sc(1)] show ?thesis by (auto simp: access_def)
  qed
qed

theorem live_handle_access_witness:
  "access demo_world 7 demo_token = Inr ''GET /'' \<and> access demo_world 8 demo_token = Inl WrongThread"
proof -
  have "w_handles demo_world demo_token \<noteq> 0" by (simp add: demo_world_unfold)
  from live_handle_access [OF demo_world_reachable this, of 7] live_handle_access [OF demo_world_reachable this, of 8]
  show ?thesis by (simp add: demo_world_unfold demo_token_def)
qed



end
