(* ===== verification/Static_Path.thy ===== *)
theory Static_Path
  imports Files
begin

text \<open>
  Where a static route is published (\<open>static_path\<close> of \<^verbatim>\<open>src/static_routes.rs\<close>), and the keys under which
  generation work for it is shared (\<open>static_work_key\<close> and what it calls there).

  \<open>pct\<close> is percent-decoding of a segment to UTF-8 text. The file system is a sequence of views, one for each system
  call in the order of the calls, since other processes may change it between any two; a view answers
  \<^verbatim>\<open>symlink_metadata\<close> and lists directories. Names of entries are byte strings, as on a Unix system.
\<close>

section \<open>The path of a page\<close>

definition normalized_path :: "string \<Rightarrow> string" where
  "normalized_path path = (if path \<noteq> ''/'' \<and> path \<noteq> [] \<and> last path = CHR ''/'' then path @ ''index'' else path)"

definition logical_path :: "string \<Rightarrow> string" where
  "logical_path path =
     (let trimmed = dropWhile (\<lambda>c. c = CHR ''/'') (normalized_path path)
      in if trimmed = [] then ''index'' else trimmed)"

fun decode_parts :: "(string \<Rightarrow> string option) \<Rightarrow> string list \<Rightarrow> string list option" where
  "decode_parts pct [] = Some []"
| "decode_parts pct (segment # rest) =
     (if segment = [] then decode_parts pct rest
      else case pct segment of
             None \<Rightarrow> None
           | Some s \<Rightarrow>
               if is_blocked_dot_segment s \<or> CHR 0x00 \<in> set s \<or> CHR ''/'' \<in> set s \<or> CHR 0x5C \<in> set s then None
               else map_option ((#) s) (decode_parts pct rest))"

definition static_path :: "(string \<Rightarrow> string option) \<Rightarrow> component list \<Rightarrow> string \<Rightarrow> component list option" where
  "static_path pct site path =
     Option.bind (decode_parts pct (split_on (CHR ''/'') (logical_path path))) (\<lambda>parts.
       if parts = [] then None
       else let rel = foldl path_push [] (butlast parts @ [last parts @ ''.html''])
            in if list_all acceptable_component rel then Some (site @ rel) else None)"

section \<open>Views of the file system\<close>

record entry_meta =
  em_dev :: u64
  em_ino :: u64
  em_is_dir :: bool
  em_nlink :: u64

record fs_view =
  fv_stat :: "component list \<Rightarrow> io_error + entry_meta"
  fv_list :: "component list \<Rightarrow> io_error + (string \<times> u64) list"

type_synonym views = "nat \<Rightarrow> fs_view"

definition entry_identity :: "entry_meta \<Rightarrow> u64 \<times> u64" where
  "entry_identity m = (em_dev m, em_ino m)"

definition is_single_entry :: "entry_meta \<Rightarrow> bool" where
  "is_single_entry m \<longleftrightarrow> em_is_dir m \<or> em_nlink m = 1"

definition join :: "component list \<Rightarrow> string \<Rightarrow> component list" where
  "join dir name = dir @ [Normal name]"

section \<open>Case rules\<close>

datatype case_rule = Folds | Distinct | Unknown

fun fold_name :: "case_rule \<Rightarrow> string \<Rightarrow> string" where
  "fold_name Folds name = map to_ascii_lowercase name"
| "fold_name _ name = name"

definition has_ascii_letter :: "string \<Rightarrow> bool" where
  "has_ascii_letter name \<longleftrightarrow> list_ex is_ascii_alphabetic name"

definition swap_ascii_case :: "string \<Rightarrow> string option" where
  "swap_ascii_case name =
     (if has_ascii_letter name
      then Some (map (\<lambda>c. if is_ascii_upper c then to_ascii_lowercase c else to_ascii_uppercase c) name)
      else None)"

text \<open>\<open>is_transient_publication_name\<close>; the windows of five bytes are the sublists at all offsets.\<close>

definition is_transient_publication_name :: "string \<Rightarrow> bool" where
  "is_transient_publication_name name \<longleftrightarrow>
     take 8 name = ''.leptos-'' \<and> list_ex (\<lambda>i. take 5 (drop i name) = ''.tmp.'') [0..<length name]"

text \<open>The loop of \<open>observe_case_rule\<close>: \<open>t\<close> counts the system calls made so far.\<close>

fun observe_entries :: "views \<Rightarrow> component list \<Rightarrow> nat \<Rightarrow> string list \<Rightarrow> nat \<times> case_rule" where
  "observe_entries v dir t [] = (t, Unknown)"
| "observe_entries v dir t (name # rest) =
     (if is_transient_publication_name name then observe_entries v dir t rest
      else case swap_ascii_case name of
             None \<Rightarrow> observe_entries v dir t rest
           | Some swapped \<Rightarrow>
               (case fv_stat (v t) (join dir name) of
                  Inl _ \<Rightarrow> observe_entries v dir (t + 1) rest
                | Inr original \<Rightarrow>
                    if \<not> is_single_entry original then observe_entries v dir (t + 1) rest
                    else (case fv_stat (v (t + 2)) (join dir name) of
                            Inl _ \<Rightarrow> observe_entries v dir (t + 3) rest
                          | Inr retained \<Rightarrow>
                              if entry_identity retained \<noteq> entry_identity original then observe_entries v dir (t + 3) rest
                              else (case fv_stat (v (t + 1)) (join dir swapped) of
                                      Inr alias \<Rightarrow>
                                        (t + 3, if entry_identity alias = entry_identity original then Folds else Distinct)
                                    | Inl e \<Rightarrow>
                                        if io_error_kind e = NotFound then (t + 3, Distinct)
                                        else observe_entries v dir (t + 3) rest))))"

definition observe_case_rule :: "views \<Rightarrow> component list \<Rightarrow> nat \<Rightarrow> nat \<times> case_rule" where
  "observe_case_rule v dir t =
     (case fv_list (v t) dir of
        Inl _ \<Rightarrow> (t + 1, Unknown)
      | Inr entries \<Rightarrow> observe_entries v dir (t + 1) (map fst entries))"

text \<open>\<open>PathBuf::pop\<close>: the root stays.\<close>

definition can_pop :: "component list \<Rightarrow> bool" where
  "can_pop dir \<longleftrightarrow> dir \<noteq> [] \<and> last dir \<noteq> RootDir"

lemma butlast_shorter [termination_simp]: "can_pop dir \<Longrightarrow> length dir - Suc 0 < length dir"
  by (simp add: can_pop_def)

fun case_rule_loop :: "views \<Rightarrow> u64 option \<Rightarrow> component list \<Rightarrow> nat \<Rightarrow> nat \<times> case_rule" where
  "case_rule_loop v device dir t =
     (let up = (\<lambda>device' t'. if can_pop dir then case_rule_loop v device' (butlast dir) t' else (t', Unknown))
      in case fv_stat (v t) dir of
           Inl _ \<Rightarrow> up device (t + 1)
         | Inr m \<Rightarrow>
             if \<not> em_is_dir m then (t + 1, Unknown)
             else if device \<noteq> None \<and> device \<noteq> Some (em_dev m) then (t + 1, Unknown)
             else (case observe_case_rule v dir (t + 1) of
                     (t', Unknown) \<Rightarrow> up (Some (em_dev m)) t'
                   | (t', rule) \<Rightarrow> (t', rule)))"

declare case_rule_loop.simps [simp del]

definition ascii_case_rule :: "views \<Rightarrow> component list \<Rightarrow> nat \<Rightarrow> nat \<times> case_rule" where
  "ascii_case_rule v namespace t = case_rule_loop v None namespace t"

section \<open>Stored names\<close>

text \<open>The entries listed with the identity of a name. Each candidate is looked up by a system call of its own.\<close>

definition candidates :: "views \<Rightarrow> component list \<Rightarrow> nat \<Rightarrow> entry_meta \<Rightarrow> (string \<times> u64) list \<Rightarrow> string list" where
  "candidates v dir t m entries =
     map (fst \<circ> snd) (filter (\<lambda>(k, name, ino). ino = em_ino m
         \<and> (case fv_stat (v k) (join dir name) of Inr listed \<Rightarrow> entry_identity listed = entry_identity m | Inl _ \<Rightarrow> False))
       (enumerate t entries))"

definition select_candidate :: "case_rule \<Rightarrow> string \<Rightarrow> string list \<Rightarrow> string" where
  "select_candidate rule name cs =
     (if length cs = 1 then hd cs
      else if name \<in> set cs then name
      else let matching = filter (\<lambda>c. fold_name rule c = fold_name rule name) cs
           in if length matching = 1 then hd matching else name)"

fun stored_attempts :: "views \<Rightarrow> component list \<Rightarrow> string \<Rightarrow> case_rule \<Rightarrow> nat \<Rightarrow> nat \<Rightarrow> string option" where
  "stored_attempts v dir name rule 0 t = Some name"
| "stored_attempts v dir name rule (Suc n) t =
     (case fv_stat (v t) (join dir name) of
        Inl _ \<Rightarrow> None
      | Inr m \<Rightarrow>
          (case fv_list (v (t + 1)) dir of
             Inl _ \<Rightarrow> None
           | Inr entries \<Rightarrow>
               (case candidates v dir (t + 2) m entries of
                  [] \<Rightarrow> stored_attempts v dir name rule n (t + 2 + length entries)
                | c # cs \<Rightarrow> Some (select_candidate rule name (c # cs)))))"

definition stored_entry_name :: "views \<Rightarrow> component list \<Rightarrow> string \<Rightarrow> case_rule \<Rightarrow> nat \<Rightarrow> string option" where
  "stored_entry_name v dir name rule t = stored_attempts v dir name rule 2 t"

section \<open>Keys of generation work\<close>

text \<open>\<open>canon\<close> is \<^verbatim>\<open>Path::canonicalize\<close>, \<open>std_absolute\<close> is \<^verbatim>\<open>std::path::absolute\<close>.\<close>

definition namespace_step :: "(component list \<Rightarrow> io_error + string list) \<Rightarrow> component list \<Rightarrow> component \<Rightarrow> component list" where
  "namespace_step canon namespace c =
     (let moved = (if component_name c = ''..'' then (if can_pop namespace then butlast namespace else namespace)
                   else if component_name c \<noteq> ''.'' then namespace @ [c] else namespace)
      in case canon moved of Inr canonical \<Rightarrow> absolute canonical | Inl _ \<Rightarrow> moved)"

definition static_namespace :: "(component list \<Rightarrow> io_error + string list) \<Rightarrow> component list \<Rightarrow> component list" where
  "static_namespace canon parent =
     (case canonicalize_existing_prefix canon (\<lambda>_. True) parent of
        Inr (canonical, suffix) \<Rightarrow> foldl (namespace_step canon) (absolute canonical) suffix
      | Inl _ \<Rightarrow> parent)"

record static_work_key =
  wk_entry :: "component list"
  wk_published :: "component list option"

definition keys_of :: "static_work_key \<Rightarrow> component list list" where
  "keys_of k = wk_entry k # (case wk_published k of Some p \<Rightarrow> [p] | None \<Rightarrow> [])"

text \<open>\<open>Path::file_name\<close> and \<open>Path::parent\<close> together: the last component is a plain name.\<close>

definition file_name :: "component list \<Rightarrow> string option" where
  "file_name p = (if p = [] then None else case last p of Normal n \<Rightarrow> Some n | _ \<Rightarrow> None)"

definition entry_key :: "views \<Rightarrow> component list \<Rightarrow> string \<Rightarrow> static_work_key" where
  "entry_key v namespace name =
     (case ascii_case_rule v namespace 0 of (t, rule) \<Rightarrow>
        let stored = (case stored_entry_name v namespace name rule t of Some s \<Rightarrow> s | None \<Rightarrow> name);
            entry = join namespace (fold_name rule stored);
            published = join namespace (fold_name rule name)
        in \<lparr>wk_entry = entry, wk_published = (if published \<noteq> entry then Some published else None)\<rparr>)"

definition static_work_key ::
  "(component list \<Rightarrow> component list option) \<Rightarrow> (component list \<Rightarrow> io_error + string list) \<Rightarrow> views \<Rightarrow> component list \<Rightarrow>
   static_work_key" where
  "static_work_key std_absolute canon v path =
     (let whole = (case std_absolute path of Some a \<Rightarrow> a | None \<Rightarrow> path)
      in case file_name whole of
           None \<Rightarrow> \<lparr>wk_entry = whole, wk_published = None\<rparr>
         | Some name \<Rightarrow> entry_key v (static_namespace canon (butlast whole)) name)"

section \<open>Lemmas on paths\<close>

definition decoded_segment :: "string \<Rightarrow> bool" where
  "decoded_segment s \<longleftrightarrow> \<not> is_blocked_dot_segment s \<and> CHR 0x00 \<notin> set s \<and> CHR ''/'' \<notin> set s \<and> CHR 0x5C \<notin> set s"

lemma visible_iff: "visible_segment s \<longleftrightarrow> s \<noteq> [] \<and> decoded_segment s"
  by (auto simp: visible_segment_def decoded_segment_def)

lemma decode_parts_Some:
  "decode_parts pct segments = Some parts \<longleftrightarrow>
     map pct (filter (\<lambda>s. s \<noteq> []) segments) = map Some parts \<and> list_all decoded_segment parts"
proof (induction segments arbitrary: parts)
  case (Cons x xs)
  consider "x = []" | "x \<noteq> []" "pct x = None" | s where "x \<noteq> []" "pct x = Some s" by blast
  then show ?case
  proof cases
    case 1
    with Cons show ?thesis by simp
  next
    case 2
    then show ?thesis by (cases parts) simp_all
  next
    case (3 s)
    then have step: "decode_parts pct (x # xs) = (if decoded_segment s then map_option ((#) s) (decode_parts pct xs) else None)"
      by (simp add: decoded_segment_def)
    show ?thesis
    proof (cases parts)
      case Nil
      with 3 step show ?thesis by simp
    next
      case parts: (Cons d ds)
      show ?thesis unfolding parts step using 3 Cons.IH [of ds] by auto
    qed
  qed
qed auto

lemma path_push_visible: "visible_segment s \<Longrightarrow> path_push rel s = rel @ [Normal s]"
  by (rule path_push_plain) (auto simp: visible_segment_def is_blocked_dot_segment_def WELL_KNOWN_SEGMENT_def)

lemma push_visible: "list_all visible_segment parts \<Longrightarrow> foldl path_push rel parts = rel @ map Normal parts"
  by (induction parts arbitrary: rel) (auto simp: path_push_visible)

text \<open>The suffix is acceptable to the final check unless the name is \<^verbatim>\<open>.well-known\<close>.\<close>

lemma html_visible:
  assumes "visible_segment s"
  shows "visible_segment (s @ ''.html'') \<longleftrightarrow> s \<noteq> ''.well-known''"
  using assms
  by (cases s) (auto simp: visible_segment_def is_blocked_dot_segment_def WELL_KNOWN_SEGMENT_def)

lemma html_push:
  assumes "visible_segment s"
  shows "path_push rel (s @ ''.html'') = rel @ [Normal (s @ ''.html'')]"
  using assms by (intro path_push_plain) (auto simp: visible_segment_def is_blocked_dot_segment_def WELL_KNOWN_SEGMENT_def append_eq_Cons_conv)

lemma acceptable_visible: "visible_segment s \<Longrightarrow> acceptable_component (Normal s)"
  by (simp add: visible_segment_def)

lemma static_path_parts:
  assumes "list_all visible_segment parts" "parts \<noteq> []"
    and "decode_parts pct (split_on (CHR ''/'') (logical_path path)) = Some parts"
  shows "static_path pct site path =
    (if last parts = ''.well-known'' then None else Some (site @ map Normal (butlast parts @ [last parts @ ''.html''])))"
proof -
  have v: "list_all visible_segment (butlast parts)" "visible_segment (last parts)"
    using assms(1,2) by (auto simp: list_all_iff dest: in_set_butlastD)
  have rel: "foldl path_push [] (butlast parts @ [last parts @ ''.html'']) = map Normal (butlast parts @ [last parts @ ''.html''])"
    using v by (simp add: push_visible html_push)
  have "list_all acceptable_component (map Normal (butlast parts))"
    using v(1) acceptable_visible by (auto simp: list_all_iff simp del: acceptable_component.simps)
  moreover have "acceptable_component (Normal (last parts @ ''.html'')) \<longleftrightarrow> last parts \<noteq> ''.well-known''"
    using html_visible [OF v(2)] v(2) by (auto simp: visible_segment_def)
  moreover have "static_path pct site path =
      (let rel = map Normal (butlast parts @ [last parts @ ''.html'']) in if list_all acceptable_component rel then Some (site @ rel) else None)"
    unfolding static_path_def assms(3) Option.bind.simps rel using assms(2) by simp
  ultimately show ?thesis by (simp add: Let_def del: acceptable_component.simps)
qed

section \<open>Lemmas on keys\<close>

text \<open>The statements about a file system that does not change meanwhile have the same view \<open>w\<close> at all times.\<close>

definition resolves :: "fs_view \<Rightarrow> component list \<Rightarrow> string \<Rightarrow> (u64 \<times> u64) option" where
  "resolves w dir name = (case fv_stat w (join dir name) of Inr m \<Rightarrow> Some (entry_identity m) | Inl _ \<Rightarrow> None)"

text \<open>The names that a directory lists for an entry.\<close>

definition listed_names :: "fs_view \<Rightarrow> component list \<Rightarrow> (string \<times> u64) list \<Rightarrow> u64 \<times> u64 \<Rightarrow> string list" where
  "listed_names w dir entries i = map fst (filter (\<lambda>(n, ino). ino = snd i \<and> resolves w dir n = Some i) entries)"

lemma filter_enumerate: "map (f \<circ> snd) (filter (\<lambda>(k, x). P x) (enumerate t xs)) = map f (filter P xs)"
  by (induction xs arbitrary: t) auto

lemma candidates_listed: "candidates (\<lambda>_. w) dir t m entries = listed_names w dir entries (entry_identity m)"
proof -
  have "(case fv_stat w (join dir n) of Inr l \<Rightarrow> entry_identity l = entry_identity m | Inl _ \<Rightarrow> False)
      \<longleftrightarrow> resolves w dir n = Some (entry_identity m)" for n
    by (cases "fv_stat w (join dir n)") (simp_all add: resolves_def)
  moreover have "snd (entry_identity m) = em_ino m" by (simp add: entry_identity_def)
  ultimately show ?thesis
    using filter_enumerate [of fst "\<lambda>(n, ino). ino = em_ino m \<and> resolves w dir n = Some (entry_identity m)" t entries]
    by (simp add: candidates_def listed_names_def case_prod_unfold)
qed

lemma select_candidate_in:
  assumes "cs \<noteq> []"
  shows "select_candidate rule name cs = name \<or> select_candidate rule name cs \<in> set cs"
proof -
  have "hd ms \<in> set cs" if "length ms = 1" "ms = filter P cs" for ms P
    using that by (metis filter_is_subset hd_in_set length_0_conv subsetD zero_neq_one)
  with assms show ?thesis by (simp add: select_candidate_def Let_def)
qed

text \<open>A stored name belongs to the entry that the requested name resolves to.\<close>

lemma stored_attempts_resolves:
  "stored_attempts (\<lambda>_. w) dir name rule n t = Some s \<Longrightarrow>
     s = name \<or> resolves w dir s = resolves w dir name \<and> resolves w dir name \<noteq> None"
proof (induction n arbitrary: t)
  case (Suc n)
  from Suc.prems obtain m entries where m: "fv_stat w (join dir name) = Inr m" and e: "fv_list w dir = Inr entries"
    by (cases "fv_stat w (join dir name)"; cases "fv_list w dir") simp_all
  have r: "resolves w dir name = Some (entry_identity m)" using m by (simp add: resolves_def)
  show ?case
  proof (cases "candidates (\<lambda>_. w) dir (t + 2) m entries")
    case Nil
    with Suc m e show ?thesis by (simp add: numeral_2_eq_2)
  next
    case (Cons c cs)
    with Suc.prems m e have "s = select_candidate rule name (c # cs)" by (simp add: numeral_2_eq_2)
    with select_candidate_in [of "c # cs" rule name] have "s = name \<or> s \<in> set (c # cs)" by blast
    then show ?thesis unfolding Cons [symmetric] candidates_listed using r by (auto simp: listed_names_def)
  qed
qed simp

lemma stored_attempts_unique:
  assumes "resolves w dir name = Some i" "fv_list w dir = Inr entries" "listed_names w dir entries i = [s]"
  shows "stored_attempts (\<lambda>_. w) dir name rule (Suc n) t = Some s"
proof -
  from assms(1) obtain m where "fv_stat w (join dir name) = Inr m" "entry_identity m = i"
    by (auto simp: resolves_def split: sum.splits)
  with assms show ?thesis by (simp add: candidates_listed select_candidate_def)
qed

lemma fold_name_eq: "fold_name rule a = fold_name rule b \<Longrightarrow> rule = Folds \<and> eq_ignore_ascii_case a b \<or> a = b"
  by (cases rule) (simp_all add: eq_ignore_ascii_case_def)

lemma entry_key_keys:
  assumes "ascii_case_rule v ns 0 = (t, rule)"
  shows "set (keys_of (entry_key v ns name)) =
    {join ns (fold_name rule (case stored_entry_name v ns name rule t of Some s \<Rightarrow> s | None \<Rightarrow> name)), join ns (fold_name rule name)}"
  using assms by (auto simp: entry_key_def keys_of_def Let_def)

text \<open>A directory that ignores ASCII case and holds one page.\<close>

definition demo_view :: fs_view where
  "demo_view = \<lparr>fv_stat = (\<lambda>p.
       if p = [RootDir, Normal ''s''] then Inr \<lparr>em_dev = 1, em_ino = 2, em_is_dir = True, em_nlink = 2\<rparr>
       else if butlast p = [RootDir, Normal ''s''] \<and> eq_ignore_ascii_case (component_name (last p)) ''a.html''
       then Inr \<lparr>em_dev = 1, em_ino = 7, em_is_dir = False, em_nlink = 1\<rparr>
       else Inl (io_err NotFound [])),
     fv_list = (\<lambda>p. Inr [(''A.html'', 7)])\<rparr>"

definition demo_parent :: "component list" where
  "demo_parent = [RootDir, Normal ''s'']"

lemma demo_rule: "ascii_case_rule (\<lambda>_. demo_view) demo_parent 0 = (5, Folds)"
  by code_simp

lemma demo_resolves:
  "resolves demo_view demo_parent n = (if eq_ignore_ascii_case n ''a.html'' then Some (1, 7) else None)"
  by (simp add: resolves_def demo_view_def demo_parent_def join_def entry_identity_def)

lemma demo_namespace: "static_namespace (\<lambda>p. Inr (map component_name (tl p))) demo_parent = demo_parent"
  by code_simp

section \<open>Properties\<close>

text \<open>The path of a static page, exactly. If percent-decoding never makes a segment vanish, a route has a page
  path if and only if every segment of it decodes to a visible name without NUL, slash or backslash and the last
  one is not \<open>.well-known\<close>; the page is then those names below the site root, the last one with \<open>.html\<close>. So a page
  never leaves the root, and is never hidden or one of the adapter's own entries.\<close>

theorem static_path_exact:
  assumes "\<forall>s. s \<noteq> [] \<longrightarrow> pct s \<noteq> Some []"
  shows "static_path pct site path = Some p \<longleftrightarrow>
      (\<exists>names. names \<noteq> []
         \<and> map pct (filter (\<lambda>s. s \<noteq> []) (split_on (CHR ''/'') (logical_path path))) = map Some names
         \<and> list_all visible_segment names \<and> last names \<noteq> ''.well-known''
         \<and> list_all visible_segment (butlast names @ [last names @ ''.html''])
         \<and> p = site @ map Normal (butlast names @ [last names @ ''.html'']))"
    (is "?l \<longleftrightarrow> ?r")
proof -
  let ?segs = "filter (\<lambda>s. s \<noteq> []) (split_on (CHR ''/'') (logical_path path))"
  have vis: "list_all visible_segment names" if "map pct ?segs = map Some names" "list_all decoded_segment names" for names
  proof -
    have "[] \<notin> set names"
    proof
      assume "[] \<in> set names"
      then have "Some [] \<in> set (map pct ?segs)" unfolding that(1) by simp
      with assms show False by auto
    qed
    with that(2) show ?thesis by (auto simp: list_all_iff visible_iff)
  qed
  have html: "list_all visible_segment (butlast names @ [last names @ ''.html''])"
    if "list_all visible_segment names" "names \<noteq> []" "last names \<noteq> ''.well-known''" for names
    using that html_visible [of "last names"] by (auto simp: list_all_iff dest: in_set_butlastD)
  show ?thesis
  proof
    assume l: ?l
    then obtain parts where d: "decode_parts pct (split_on (CHR ''/'') (logical_path path)) = Some parts" and ne: "parts \<noteq> []"
      by (auto simp: static_path_def bind_eq_Some_conv split: if_splits)
    then have m: "map pct ?segs = map Some parts" "list_all visible_segment parts"
      using vis by (auto simp: decode_parts_Some)
    with static_path_parts [OF m(2) ne d, of site] l html [OF m(2) ne] ne show ?r by (auto split: if_splits)
  next
    assume ?r
    then obtain names where n: "names \<noteq> []" "map pct ?segs = map Some names" "list_all visible_segment names"
      "last names \<noteq> ''.well-known''" "p = site @ map Normal (butlast names @ [last names @ ''.html''])" by blast
    then have "decode_parts pct (split_on (CHR ''/'') (logical_path path)) = Some names"
      by (auto simp: decode_parts_Some list_all_iff visible_iff)
    from static_path_parts [OF n(3,1) this, of site] n(4,5) show ?l by simp
  qed
qed

theorem static_path_exact_witness:
  "static_path Some [Normal ''site''] ''/a/'' = Some [Normal ''site'', Normal ''a'', Normal ''index.html'']"
proof -
  have h: "\<forall>s :: string. s \<noteq> [] \<longrightarrow> Some s \<noteq> Some []" by simp
  have l: "filter (\<lambda>s. s \<noteq> []) (split_on (CHR ''/'') (logical_path ''/a/'')) = [''a'', ''index'']" by code_simp
  show ?thesis unfolding static_path_exact [OF h] l
    by (intro exI [of _ "[''a'', ''index'']"])
      (simp add: visible_segment_def is_blocked_dot_segment_def WELL_KNOWN_SEGMENT_def)
qed

text \<open>C27: work keys identify publication entries. In a directory that does not change meanwhile, that ignores case in all
  names if it was observed to do so in one, and that lists the first page, if it exists, under one name, two
  spellings share a key exactly if they agree up to the observed case rule or the file system resolves both
  to one existing entry.\<close>

theorem work_key_identifies_entry:
  assumes "std_absolute p1 = Some (parent @ [Normal n1])" and "std_absolute p2 = Some (parent @ [Normal n2])"
    and "ns = static_namespace canon parent" and "ascii_case_rule (\<lambda>_. w) ns 0 = (t, rule)"
    and "rule = Folds \<Longrightarrow> \<forall>a b. eq_ignore_ascii_case a b \<longrightarrow> resolves w ns a = resolves w ns b"
    and "fv_list w ns = Inr entries"
    and "\<forall>i. resolves w ns n1 = Some i \<longrightarrow> length (listed_names w ns entries i) = 1"
  shows "set (keys_of (static_work_key std_absolute canon (\<lambda>_. w) p1))
       \<inter> set (keys_of (static_work_key std_absolute canon (\<lambda>_. w) p2)) \<noteq> {} \<longleftrightarrow>
     fold_name rule n1 = fold_name rule n2 \<or> resolves w ns n1 \<noteq> None \<and> resolves w ns n1 = resolves w ns n2"
proof -
  define st where "st n = (case stored_entry_name (\<lambda>_. w) ns n rule t of Some s \<Rightarrow> s | None \<Rightarrow> n)" for n
  have key: "static_work_key std_absolute canon (\<lambda>_. w) p1 = entry_key (\<lambda>_. w) ns n1"
    "static_work_key std_absolute canon (\<lambda>_. w) p2 = entry_key (\<lambda>_. w) ns n2"
    using assms(1-3) by (simp_all add: static_work_key_def file_name_def)
  have ks: "set (keys_of (entry_key (\<lambda>_. w) ns n)) = {join ns (fold_name rule (st n)), join ns (fold_name rule n)}" for n
    using entry_key_keys [OF assms(4)] by (simp add: st_def)
  have st: "st n = n \<or> resolves w ns (st n) = resolves w ns n \<and> resolves w ns n \<noteq> None" for n
    using stored_attempts_resolves [of w ns n rule 2 t] by (auto simp: st_def stored_entry_name_def split: option.splits)
  have join_eq: "join ns a = join ns b \<longleftrightarrow> a = b" for a b by (simp add: join_def)
  have same: "resolves w ns a = resolves w ns b" if "fold_name rule a = fold_name rule b" for a b
    using fold_name_eq [OF that] assms(5) by blast
  have shared: "fold_name rule n1 = fold_name rule n2 \<or> resolves w ns n1 \<noteq> None \<and> resolves w ns n1 = resolves w ns n2"
    if "fold_name rule a = fold_name rule b" "a \<in> {st n1, n1}" "b \<in> {st n2, n2}" for a b
    using that st [of n1] st [of n2] same [OF that(1)] by auto
  have stored: "st n1 = st n2" if "resolves w ns n1 = Some i" "resolves w ns n2 = Some i" for i
  proof -
    from assms(7) that(1) obtain s where "listed_names w ns entries i = [s]" by (auto simp: length_Suc_conv)
    with stored_attempts_unique [OF that(1) assms(6)] stored_attempts_unique [OF that(2) assms(6)] show ?thesis
      by (simp add: st_def stored_entry_name_def numeral_2_eq_2 del: stored_attempts.simps)
  qed
  show ?thesis
    unfolding key ks
  proof
    assume "{join ns (fold_name rule (st n1)), join ns (fold_name rule n1)}
        \<inter> {join ns (fold_name rule (st n2)), join ns (fold_name rule n2)} \<noteq> {}"
    then obtain a b where "fold_name rule a = fold_name rule b" "a \<in> {st n1, n1}" "b \<in> {st n2, n2}"
      unfolding join_eq [symmetric] by blast
    then show "fold_name rule n1 = fold_name rule n2 \<or> resolves w ns n1 \<noteq> None \<and> resolves w ns n1 = resolves w ns n2"
      by (rule shared)
  next
    assume "fold_name rule n1 = fold_name rule n2 \<or> resolves w ns n1 \<noteq> None \<and> resolves w ns n1 = resolves w ns n2"
    then have "fold_name rule n1 = fold_name rule n2 \<or> st n1 = st n2" using stored by (metis option.exhaust)
    then show "{join ns (fold_name rule (st n1)), join ns (fold_name rule n1)}
        \<inter> {join ns (fold_name rule (st n2)), join ns (fold_name rule n2)} \<noteq> {}" by (elim disjE) simp_all
  qed
qed

theorem work_key_identifies_entry_witness:
  "set (keys_of (static_work_key Some (\<lambda>p. Inr (map component_name (tl p))) (\<lambda>_. demo_view) (demo_parent @ [Normal ''a.html''])))
     \<inter> set (keys_of (static_work_key Some (\<lambda>p. Inr (map component_name (tl p))) (\<lambda>_. demo_view) (demo_parent @ [Normal ''A.HTML'']))) \<noteq> {}"
proof -
  have one: "\<forall>i. resolves demo_view demo_parent ''a.html'' = Some i \<longrightarrow>
      length (listed_names demo_view demo_parent [(''A.html'', 7)] i) = 1"
    by (simp add: demo_resolves listed_names_def) code_simp
  have ab: "fold_name Folds ''a.html'' = fold_name Folds ''A.HTML''" by code_simp
  have l: "fv_list demo_view demo_parent = Inr [(''A.html'', 7)]" by (simp add: demo_view_def)
  have f: "\<forall>a b. eq_ignore_ascii_case a b \<longrightarrow> resolves demo_view demo_parent a = resolves demo_view demo_parent b"
    by (simp add: demo_resolves eq_ignore_ascii_case_def)
  from work_key_identifies_entry [of Some "demo_parent @ [Normal ''a.html'']" demo_parent "''a.html''"
      "demo_parent @ [Normal ''A.HTML'']" "''A.HTML''", OF refl refl demo_namespace [symmetric] demo_rule f l one] ab
  show ?thesis by blast
qed

end
