(* ===== verification/Serving.thy ===== *)
theory Serving
  imports Snapshot Static_Path Permits
begin

text \<open>
  Serving of static routes and the initial generation (\<^verbatim>\<open>src/static_routes.rs\<close>): opening of metadata beside a page,
  what a completed render becomes, the handler of a static route, and the report of a generation run.

  The render itself is the argument \<open>render\<close>: its error, or the HTML with the response options captured while
  rendering. Reading the page is the argument \<open>reads\<close>: the outcomes of the first read and of the one after a
  publication, each a failed task (\<open>Inl ()\<close>), an error, or the opened file with its captured parts.
\<close>

section \<open>Metadata beside a page\<close>

datatype entry_type = Directory_Entry | Symlink_Entry | Other_Entry

definition damaged_metadata_error :: "io_error \<Rightarrow> io_error" where
  "damaged_metadata_error e = (if io_error_kind e = NotFound then Io_Error InvalidData (io_message e) else e)"

text \<open>\<open>opened\<close> is the outcome of opening the entry, \<open>entry_exists\<close> whether the entry itself is there, \<open>parent\<close> and
  \<open>resolved\<close> the metadata directory without and with following links.\<close>

definition open_static_metadata ::
  "io_error + 'f \<Rightarrow> bool \<Rightarrow> io_error + entry_type \<Rightarrow> io_error + entry_type \<Rightarrow> io_error + 'f option" where
  "open_static_metadata opened entry_exists parent resolved =
     (case opened of
        Inr file \<Rightarrow> Inr (Some file)
      | Inl e \<Rightarrow>
          if io_error_kind e \<noteq> NotFound \<and> io_error_kind e \<noteq> NotADirectory then Inl e
          else if entry_exists then Inl (damaged_metadata_error e)
          else case parent of
                 Inl lookup \<Rightarrow> if io_error_kind lookup = NotFound then Inr None else Inl lookup
               | Inr Directory_Entry \<Rightarrow> Inr None
               | Inr Symlink_Entry \<Rightarrow>
                   (case resolved of
                      Inr Directory_Entry \<Rightarrow> Inr None
                    | Inr _ \<Rightarrow> Inl (damaged_metadata_error e)
                    | Inl resolve \<Rightarrow> Inl (damaged_metadata_error resolve))
               | Inr Other_Entry \<Rightarrow> Inl (damaged_metadata_error e))"

section \<open>Completed renders\<close>

definition is_error_status :: "nat \<Rightarrow> bool" where
  "is_error_status s \<longleftrightarrow> 400 \<le> s \<and> s < 600"

definition was_error_status :: "'hm response_parts \<Rightarrow> bool" where
  "was_error_status options \<longleftrightarrow> (case rp_status options of Some s \<Rightarrow> is_error_status s | None \<Rightarrow> False)"

datatype 'hm page_outcome = Page_Published | Page_Inline string "'hm response_parts option"

text \<open>\<open>Generation::publish\<close>: \<open>write\<close> is \<open>write_static_route_managed\<close> for the page.\<close>

definition publish ::
  "('hm response_parts \<Rightarrow> string \<Rightarrow> static_policy_error + unit) \<Rightarrow> 'hm response_parts \<Rightarrow> string \<Rightarrow>
   static_policy_error + 'hm page_outcome" where
  "publish writer options html =
     (if was_error_status options then Inr (Page_Inline html (Some options))
      else res_bind (writer options html) (\<lambda>_. Inr Page_Published))"

section \<open>The handler\<close>

definition open_static_response ::
  "unit + (io_error + ('n \<times> 'hm response_parts option)) \<Rightarrow> 'n option \<times> 'hm response_parts option" where
  "open_static_response r =
     (case r of Inr (Inr (file, parts)) \<Rightarrow> (Some file, parts) | _ \<Rightarrow> (None, None))"

text \<open>The media type that the application selected: the last value, if it is text and parses.\<close>

definition selected_media_type ::
  "('hm, 'hv) header_ops \<Rightarrow> ('hm, 'hv, 'b) value_lib \<Rightarrow> (string \<Rightarrow> 'm option) \<Rightarrow> 'hm response_parts option \<Rightarrow> 'm option" where
  "selected_media_type h vl parse_mime parts =
     Option.bind parts (\<lambda>p.
       case h_get_all h (rp_headers p) ''content-type'' of
         [] \<Rightarrow> None
       | v # vs \<Rightarrow> Option.bind (hv_to_str vl (last (v # vs))) parse_mime)"

definition page_response ::
  "('f, 'n, 'm, 'hm, 'hv, 'b, 'd) file_lib \<Rightarrow> ('hm, 'hv) header_ops \<Rightarrow> ('hm, 'hv, 'b) value_lib \<Rightarrow> (string \<Rightarrow> 'm option) \<Rightarrow>
   string \<Rightarrow> 'hm \<Rightarrow> 'n \<Rightarrow> 'hm response_parts option \<Rightarrow> ('hm, 'b) http_response" where
  "page_response lib h vl parse_mime meth headers file parts =
     file_response lib h vl
       (case selected_media_type h vl parse_mime parts of Some m \<Rightarrow> set_content_type lib file m | None \<Rightarrow> file)
       meth headers (case Option.bind parts rp_status of Some s \<Rightarrow> s | None \<Rightarrow> 200)"

text \<open>What remains of the captured parts once the file builder has used them.\<close>

definition residual_parts ::
  "('hm, 'hv) header_ops \<Rightarrow> 'hm \<Rightarrow> nat \<Rightarrow> 'hm response_parts \<Rightarrow> 'hm response_parts" where
  "residual_parts h headers status parts =
     (let revalidated = status = 304 \<or> (status = 206 \<and> has_header h headers ''if-range'');
          kept = (if revalidated then h_remove h (rp_headers parts) ''content-language'' else rp_headers parts)
      in \<lparr>rp_status = None, rp_headers = foldl (h_remove h) kept REPRESENTATION_HEADERS\<rparr>)"

text \<open>\<open>html_body\<close> is the response body that holds a page rendered inline.\<close>

definition inline_response ::
  "('hm, 'hv) header_ops \<Rightarrow> ('hm, 'hv, 'b) value_lib \<Rightarrow> (string \<Rightarrow> 'b) \<Rightarrow> string \<Rightarrow> ('hm, 'b) http_response" where
  "inline_response h vl html_body html =
     \<lparr>rs_status = 404, rs_headers = h_insert h (h_empty h) ''content-type'' (hv_of vl ''text/html''), rs_body = html_body html\<rparr>"

definition static_response ::
  "('f, 'n, 'm, 'hm, 'hv, 'b, 'd) file_lib \<Rightarrow> ('hm, 'hv) header_ops \<Rightarrow> ('hm, 'hv, 'b) value_lib \<Rightarrow> (string \<Rightarrow> 'm option) \<Rightarrow>
   (string \<Rightarrow> 'b) \<Rightarrow> string \<Rightarrow> 'hm \<Rightarrow> string option \<Rightarrow> 'n option \<Rightarrow> 'hm response_parts option \<Rightarrow> ('hm, 'b) http_response" where
  "static_response lib h vl parse_mime html_body meth headers inline opened parts =
     (let response = (case inline of
                        Some html \<Rightarrow> inline_response h vl html_body html
                      | None \<Rightarrow>
                          (case opened of
                             Some file \<Rightarrow> page_response lib h vl parse_mime meth headers file parts
                           | None \<Rightarrow> finish h vl 500))
      in case parts of
           None \<Rightarrow> response
         | Some p \<Rightarrow>
             extend_response_parts h response
               (if inline = None then residual_parts h headers (rs_status response) p else p))"

text \<open>\<open>handle_static_route\<close>, for a request with method, headers and the path of its URI.\<close>

definition static_route ::
  "('f, 'n, 'm, 'hm, 'hv, 'b, 'd) file_lib \<Rightarrow> ('hm, 'hv) header_ops \<Rightarrow> ('hm, 'hv, 'b) value_lib \<Rightarrow> (string \<Rightarrow> 'm option) \<Rightarrow>
   (string \<Rightarrow> 'b) \<Rightarrow> (string \<Rightarrow> string option) \<Rightarrow> component list \<Rightarrow> http_version \<Rightarrow> bool \<Rightarrow> string \<Rightarrow> 'hm \<Rightarrow> string \<Rightarrow>
   (nat \<Rightarrow> unit + (io_error + ('n \<times> 'hm response_parts option))) \<Rightarrow> static_policy_error + 'hm page_outcome \<Rightarrow>
   ('hm, 'b) served" where
  "static_route lib h vl parse_mime html_body pct site version io meth headers path reads render =
     (let answer = (\<lambda>inline (opened, parts).
            Contained (terminate_on_body_error version io meth
              (static_response lib h vl parse_mime html_body meth headers inline opened parts)))
      in case static_path pct site path of
           None \<Rightarrow> Bare (finish h vl 404)
         | Some file_path \<Rightarrow>
             (case open_static_response (reads 0) of
                (Some file, parts) \<Rightarrow> answer None (Some file, parts)
              | (None, _) \<Rightarrow>
                  (case render of
                     Inl e \<Rightarrow> Bare (finish h vl (if is_admission e then 503 else 500))
                   | Inr (Page_Inline html rendered) \<Rightarrow> answer (Some html) (None, rendered)
                   | Inr Page_Published \<Rightarrow> answer None (open_static_response (reads 1)))))"

text \<open>The method guard of the route.\<close>

datatype router_method = RGet | RPost | RPut | RDelete | RPatch

fun method_guard :: "router_method \<Rightarrow> string \<Rightarrow> bool" where
  "method_guard RGet m \<longleftrightarrow> m = ''GET'' \<or> m = ''HEAD''"
| "method_guard RPost m \<longleftrightarrow> m = ''POST''"
| "method_guard RPut m \<longleftrightarrow> m = ''PUT''"
| "method_guard RDelete m \<longleftrightarrow> m = ''DELETE''"
| "method_guard RPatch m \<longleftrightarrow> m = ''PATCH''"

section \<open>Initial generation\<close>

text \<open>The run of a generator over the routes, each with its static paths or none; a path is given with the outcome
  of its render. Under a policy every render is awaited in place; otherwise the renders are collected and joined
  at the end, in order.\<close>

type_synonym 'o path_render = "string \<times> (static_policy_error + 'o)"

record 'o generation_run =
  gr_initial :: "'o path_render list"
  gr_completed :: nat
  gr_failures :: "(string \<times> static_policy_error) list"

definition record_result :: "'o generation_run \<Rightarrow> 'o path_render \<Rightarrow> 'o generation_run" where
  "record_result run x =
     (case x of
        (path, Inr _) \<Rightarrow> run\<lparr>gr_completed := gr_completed run + 1\<rparr>
      | (path, Inl e) \<Rightarrow> run\<lparr>gr_failures := gr_failures run @ [(path, e)]\<rparr>)"

definition generate_path :: "bool \<Rightarrow> 'o generation_run \<Rightarrow> 'o path_render \<Rightarrow> 'o generation_run" where
  "generate_path managed run x =
     (if managed then record_result run x else run\<lparr>gr_initial := gr_initial run @ [x]\<rparr>)"

definition generate_route :: "bool \<Rightarrow> 'o generation_run \<Rightarrow> 'o path_render list option \<Rightarrow> 'o generation_run" where
  "generate_route managed run paths =
     (case paths of Some ps \<Rightarrow> foldl (generate_path managed) run ps | None \<Rightarrow> run)"

definition try_generate ::
  "bool \<Rightarrow> 'o path_render list option list \<Rightarrow> (nat \<times> (string \<times> static_policy_error) list) + nat" where
  "try_generate managed routes =
     (let looped = foldl (generate_route managed) \<lparr>gr_initial = [], gr_completed = 0, gr_failures = []\<rparr> routes;
          run = foldl record_result looped (gr_initial looped)
      in if gr_failures run = [] then Inr (gr_completed run) else Inl (gr_completed run, gr_failures run))"

section \<open>Lemmas\<close>

lemma metadata_absent_iff:
  "open_static_metadata opened entry_exists parent resolved = Inr None \<longleftrightarrow>
     (\<exists>e. opened = Inl e \<and> io_error_kind e \<in> {NotFound, NotADirectory}) \<and> \<not> entry_exists
     \<and> (case parent of Inl e \<Rightarrow> io_error_kind e = NotFound | Inr Directory_Entry \<Rightarrow> True
        | Inr Symlink_Entry \<Rightarrow> resolved = Inr Directory_Entry | Inr Other_Entry \<Rightarrow> False)"
  by (auto simp: open_static_metadata_def split: sum.splits entry_type.splits)

text \<open>The fields for which the file response, not the captured parts, has the last word.\<close>

definition file_owned :: "('hm, 'hv) header_ops \<Rightarrow> 'hm \<Rightarrow> nat \<Rightarrow> string \<Rightarrow> bool" where
  "file_owned h headers status k \<longleftrightarrow> k \<in> set REPRESENTATION_HEADERS
     \<or> k = ''content-language'' \<and> (status = 304 \<or> status = 206 \<and> has_header h headers ''if-range'')"

lemma residual_get:
  assumes "header_laws h"
  shows "h_get_all h (rp_headers (residual_parts h headers status parts)) k =
    (if file_owned h headers status k then [] else h_get_all h (rp_headers parts) k)"
  by (simp add: file_owned_def residual_parts_def Let_def remove_keys_get [OF assms] header_lawsD(4) [OF assms])

lemma merged_nothing [simp]: "merged k xs [] = xs"
  by (simp add: merged_def)

lemma extend_status:
  "rs_status (extend_response_parts h res parts) = (case rp_status parts of Some s \<Rightarrow> s | None \<Rightarrow> rs_status res)"
  "rs_body (extend_response_parts h res parts) = rs_body res"
  by (simp_all add: extend_response_parts_def Let_def split: option.splits)

lemma contained_simps [simp]:
  "rs_status (terminate_on_body_error version io meth res) = rs_status res"
  "rs_headers (terminate_on_body_error version io meth res) = rs_headers res"
  "fb_body (rs_body (terminate_on_body_error version io meth res)) = rs_body res"
  by (simp_all add: terminate_on_body_error_def contain_for_protocol_def)

text \<open>The loop either records at once or collects; joined in order, the record is the same.\<close>

lemma record_results:
  "foldl record_result run xs = run\<lparr>gr_completed := gr_completed run + length (filter (\<lambda>(_, r). ok r) xs),
     gr_failures := gr_failures run @ concat (map (\<lambda>(p, r). case r of Inl e \<Rightarrow> [(p, e)] | Inr _ \<Rightarrow> []) xs)\<rparr>"
  by (induction xs arbitrary: run) (auto simp: record_result_def split: sum.splits)

definition paths_of :: "'o path_render list option list \<Rightarrow> 'o path_render list" where
  "paths_of routes = concat (map (\<lambda>r. case r of Some ps \<Rightarrow> ps | None \<Rightarrow> []) routes)"

lemma generate_routes:
  "foldl (generate_route managed) run routes = foldl (generate_path managed) run (paths_of routes)"
  by (induction routes arbitrary: run) (auto simp: generate_route_def paths_of_def split: option.splits)

lemma generate_collects: "foldl (generate_path False) run xs = run\<lparr>gr_initial := gr_initial run @ xs\<rparr>"
  by (induction xs arbitrary: run) (auto simp: generate_path_def)

lemma generate_records: "foldl (generate_path True) run xs = foldl record_result run xs"
  by (induction xs arbitrary: run) (auto simp: generate_path_def)

lemma generation_report_exact:
  "try_generate managed routes =
     (let failures = concat (map (\<lambda>(p, r). case r of Inl e \<Rightarrow> [(p, e)] | Inr _ \<Rightarrow> []) (paths_of routes));
          completed = length (filter (\<lambda>(_, r). ok r) (paths_of routes))
      in if failures = [] then Inr completed else Inl (completed, failures))"
  by (cases managed)
    (simp_all add: try_generate_def generate_routes generate_collects generate_records record_results Let_def)

text \<open>The answer to a hit, for parts that agree with the captured options header by header.\<close>

lemma hit_response:
  assumes "header_laws h" "rp_status p = rp_status options"
    and "\<forall>k. h_get_all h (rp_headers p) k = h_get_all h (rp_headers options) k"
    and r0_def: "r0 = page_response lib h vl parse_mime meth headers n (Some options)"
    and r_def: "r = static_response lib h vl parse_mime html_body meth headers None (Some n) (Some p)"
  shows "rs_status r = rs_status r0" and "rs_body r = rs_body r0"
    and "h_get_all h (rs_headers r) k =
      (if file_owned h headers (rs_status r0) k
       then h_get_all h (rs_headers r0) k
       else merged k (h_get_all h (rs_headers r0) k) (h_get_all h (rp_headers options) k))"
proof -
  have "page_response lib h vl parse_mime meth headers n (Some p) = r0"
    using assms(2,3) by (simp add: r0_def page_response_def selected_media_type_def)
  then have r: "r = extend_response_parts h r0 (residual_parts h headers (rs_status r0) p)"
    by (simp add: r_def static_response_def)
  show "rs_status r = rs_status r0" "rs_body r = rs_body r0"
    by (simp_all add: r extend_status residual_parts_def Let_def)
  show "h_get_all h (rs_headers r) k =
      (if file_owned h headers (rs_status r0) k
       then h_get_all h (rs_headers r0) k
       else merged k (h_get_all h (rs_headers r0) k) (h_get_all h (rp_headers options) k))"
    unfolding r extend_get [OF assms(1)] residual_get [OF assms(1)] using assms(3) by simp
qed

definition demo_route ::
  "(nat \<Rightarrow> unit + (io_error + (string list \<times> (string \<times> string) list response_parts option))) \<Rightarrow>
   static_policy_error + (string \<times> string) list page_outcome \<Rightarrow> ((string \<times> string) list, unit) served" where
  "demo_route = static_route demo_files list_headers demo_values Some (\<lambda>_. ()) Some [Normal ''site''] HTTP_11 True ''GET'' [] ''/a''"

lemma demo_static_path: "static_path Some [Normal ''site''] ''/a'' = Some [Normal ''site'', Normal ''a.html'']"
  by code_simp

section \<open>Properties\<close>

text \<open>C22: a published page is served with the response it was rendered with. When the page and the metadata written for it
  are read, the handler answers with the file response for the captured status and media type: conditions and
  ranges decide the status, and the fields that describe the transferred representation are those of the file
  (as is the language on a revalidation), while every other captured header joins by the merge rules.\<close>

theorem published_page_served:
  assumes "header_laws h" and "snapshot_laws slib h"
    and "case rp_status options of Some s \<Rightarrow> 100 \<le> s \<and> s < 1000 | None \<Rightarrow> True"
    and "of_bytes metadata = Inr (metadata_bytes slib h options html)" and "of_bytes file = Inr html"
    and "static_path pct site path = Some file_path"
    and "reads 0 = Inr (res_bind (verify_pair slib h file metadata) (\<lambda>p. Inr (n, Some p)))"
  shows "\<exists>r. static_route lib h vl parse_mime html_body pct site version io meth headers path reads render = Contained r
    \<and> (let r0 = page_response lib h vl parse_mime meth headers n (Some options)
       in rs_status r = rs_status r0 \<and> fb_body (rs_body r) = rs_body r0
          \<and> (\<forall>k. h_get_all h (rs_headers r) k =
               (if file_owned h headers (rs_status r0) k
                then h_get_all h (rs_headers r0) k
                else merged k (h_get_all h (rs_headers r0) k) (h_get_all h (rp_headers options) k))))"
proof -
  from verified_page [OF assms(1-5)] obtain p where v: "verify_pair slib h file metadata = Inr p"
    "rp_status p = rp_status options" "\<forall>k. h_get_all h (rp_headers p) k = h_get_all h (rp_headers options) k"
    by auto
  define r0 where "r0 = page_response lib h vl parse_mime meth headers n (Some options)"
  define r where "r = static_response lib h vl parse_mime html_body meth headers None (Some n) (Some p)"
  have "static_route lib h vl parse_mime html_body pct site version io meth headers path reads render =
      Contained (terminate_on_body_error version io meth r)"
    using assms(6,7) v(1) by (simp add: r_def static_route_def open_static_response_def Let_def)
  with hit_response [OF assms(1) v(2,3) r0_def r_def] show ?thesis by (simp add: Let_def r0_def [symmetric])
qed

theorem published_page_served_witness:
  "\<exists>r. demo_route (\<lambda>_. Inr (res_bind (verify_pair demo_snapshots list_headers demo_html demo_metadata) (\<lambda>p. Inr ([''f''], Some p))))
       (Inl AlreadyStarted) = Contained r \<and> rs_status r = 201 \<and> h_get_all list_headers (rs_headers r) ''x-a'' = [''1'', ''2'']"
proof -
  have b: "of_bytes demo_metadata = Inr (metadata_bytes demo_snapshots list_headers demo_parts [104])"
    "of_bytes demo_html = Inr [104]" by (simp_all add: demo_metadata_def demo_html_def)
  have st: "case rp_status demo_parts of Some s \<Rightarrow> 100 \<le> s \<and> s < 1000 | None \<Rightarrow> True" by (simp add: demo_parts_def)
  let ?reads = "\<lambda>_ :: nat. Inr (res_bind (verify_pair demo_snapshots list_headers demo_html demo_metadata)
      (\<lambda>p. Inr ([''f''], Some p))) :: unit + (io_error + (string list \<times> (string \<times> string) list response_parts option))"
  have r0: "page_response demo_files list_headers demo_values Some ''GET'' [] [''f''] (Some demo_parts) =
      \<lparr>rs_status = 201, rs_headers = [], rs_body = ()\<rparr>"
    by (simp add: page_response_def selected_media_type_def file_response_def demo_files_def list_headers_def demo_parts_def
        has_header_def h_get_def is_redirection_def unsupported_modified_def MAX_FORMATTABLE_def)
  have m: "merged ''x-a'' (h_get_all list_headers [] ''x-a'') (h_get_all list_headers (rp_headers demo_parts) ''x-a'') = [''1'', ''2'']"
    "\<not> file_owned list_headers [] 201 ''x-a''"
    by (simp_all add: merged_def merge_of_def REPRESENTATION_HEADERS_def FAILED_REPRESENTATION_HEADERS_def list_headers_def
        demo_parts_def file_owned_def)
  from published_page_served [OF list_headers_laws demo_snapshot_laws st b demo_static_path, of ?reads "[''f'']", OF refl,
      of demo_files demo_values Some "\<lambda>_. ()" HTTP_11 True "''GET''" "[]" "Inl AlreadyStarted"]
  show ?thesis unfolding demo_route_def r0 Let_def using m by fastforce
qed

text \<open>A missed page is answered by what its render made of it. A refused or failed render gives 503 for a capacity
  limit and 500 otherwise. A render with an error status is never handed to the writer, whatever the writer would
  do: the response carries exactly that status, the rendered page and the captured headers. Any other render is
  written, and once that succeeded the answer is the one a hit on the new page gives, or 500 if it cannot be read.\<close>

theorem missed_page_answered:
  assumes "header_laws h" and "static_path pct site path = Some file_path" and "open_static_response (reads 0) = (None, q)"
    and route_def: "route = static_route lib h vl parse_mime html_body pct site version io meth headers path"
  shows "route reads (Inl e) = Bare (finish h vl (if is_admission e then 503 else 500))
    \<and> (rp_status options = Some s \<longrightarrow> is_error_status s \<longrightarrow>
      (\<exists>r. route reads (publish writer options html) = Contained r \<and> rs_status r = s \<and> fb_body (rs_body r) = html_body html
        \<and> (\<forall>k. h_get_all h (rs_headers r) k =
             merged k (if k = ''content-type'' then [hv_of vl ''text/html''] else []) (h_get_all h (rp_headers options) k))))
    \<and> (\<not> was_error_status options \<longrightarrow> writer options html = Inr () \<longrightarrow>
      (if fst (open_static_response (reads 1)) = None
       then \<exists>r. route reads (publish writer options html) = Contained r \<and> rs_status r = 500
       else route reads (publish writer options html) = route (\<lambda>_. reads 1) any))"
proof (intro conjI impI)
  note miss = assms(3)
  show "route reads (Inl e) = Bare (finish h vl (if is_admission e then 503 else 500))"
    using assms(2) miss by (simp add: route_def static_route_def)
  show "\<exists>r. route reads (publish writer options html) = Contained r \<and> rs_status r = s \<and> fb_body (rs_body r) = html_body html
        \<and> (\<forall>k. h_get_all h (rs_headers r) k =
             merged k (if k = ''content-type'' then [hv_of vl ''text/html''] else []) (h_get_all h (rp_headers options) k))"
    if "rp_status options = Some s" "is_error_status s"
  proof -
    define r where "r = extend_response_parts h (inline_response h vl html_body html) options"
    have "publish writer options html = Inr (Page_Inline html (Some options))"
      using that by (simp add: publish_def was_error_status_def)
    then have "route reads (publish writer options html) = Contained (terminate_on_body_error version io meth r)"
      using assms(2) miss by (simp add: route_def static_route_def static_response_def r_def)
    moreover have "rs_status r = s" "rs_body r = html_body html" using that(1) by (simp_all add: r_def extend_status inline_response_def)
    moreover have "h_get_all h (rs_headers r) k =
        merged k (if k = ''content-type'' then [hv_of vl ''text/html''] else []) (h_get_all h (rp_headers options) k)" for k
      by (simp add: r_def extend_get [OF assms(1)] inline_response_def header_lawsD [OF assms(1)])
    ultimately show ?thesis by simp
  qed
  show "if fst (open_static_response (reads 1)) = None
       then \<exists>r. route reads (publish writer options html) = Contained r \<and> rs_status r = 500
       else route reads (publish writer options html) = route (\<lambda>_. reads 1) any"
    if "\<not> was_error_status options" "writer options html = Inr ()"
  proof -
    obtain f p where snd: "open_static_response (reads 1) = (f, p)" by force
    have none: "f = None \<Longrightarrow> p = None" using snd by (auto simp: open_static_response_def split: sum.splits)
    from that have "publish writer options html = Inr Page_Published" by (simp add: publish_def)
    then show ?thesis using assms(2) miss snd none
      by (cases f) (simp_all add: route_def static_route_def static_response_def finish_def)
  qed
qed

theorem missed_page_answered_witness:
  "\<exists>r. demo_route (\<lambda>_. Inl ()) (publish (\<lambda>_ _. Inr ()) \<lparr>rp_status = Some 410, rp_headers = []\<rparr> ''gone'') = Contained r \<and> rs_status r = 410"
proof -
  have "open_static_response (Inl ()) = (None, None)" by (simp add: open_static_response_def)
  from missed_page_answered [OF list_headers_laws demo_static_path, of "\<lambda>_. Inl ()", OF this demo_route_def,
      where s = 410 and options = "\<lparr>rp_status = Some 410, rp_headers = []\<rparr>" and html = "''gone''" and writer = "\<lambda>_ _. Inr ()"]
  show ?thesis by (fastforce simp: is_error_status_def)
qed

end
