(* ===== verification/Routes.thy ===== *)
theory Routes
  imports Registry Serving
begin

text \<open>
  The list of routes and its registration (\<^verbatim>\<open>src/routes.rs\<close>, \<^verbatim>\<open>src/leptos_routes.rs\<close>, and the route builders of
  \<^verbatim>\<open>src/render.rs\<close>), with the one-time installation of the executor.

  The router's tree walk is third-party: its result is the argument \<open>routes\<close>, \<open>expand\<close> is its expansion of optional
  segments and \<open>default_mode\<close> its default rendering mode. A registered route is its path template, its guard on
  the method and the kind of its handler.
\<close>

section \<open>Installation of the executor\<close>

datatype executor_init_state = Init_Unknown | Ntex_Installed | Foreign_Installed

text \<open>\<open>attempt\<close> is the outcome of installing the executor now; the second result tells whether it was tried.\<close>

fun init_ntex_executor :: "executor_init_state \<Rightarrow> bool \<Rightarrow> executor_init_state \<times> bool \<times> bool" where
  "init_ntex_executor Ntex_Installed attempt = (Ntex_Installed, True, False)"
| "init_ntex_executor Foreign_Installed attempt = (Foreign_Installed, False, False)"
| "init_ntex_executor Init_Unknown attempt = (if attempt then Ntex_Installed else Foreign_Installed, attempt, True)"

fun init_calls :: "executor_init_state \<Rightarrow> bool list \<Rightarrow> (bool \<times> bool) list" where
  "init_calls st [] = []"
| "init_calls st (attempt # rest) =
     (case init_ntex_executor st attempt of (st', r, tried) \<Rightarrow> (r, tried) # init_calls st' rest)"

text \<open>The executor is tried once, and every later call repeats the first answer.\<close>

lemma init_calls_settled:
  "st \<noteq> Init_Unknown \<Longrightarrow> init_calls st xs = replicate (length xs) (st = Ntex_Installed, False)"
  by (induction xs) (cases st; simp)+

lemma executor_installed_once:
  "init_calls Init_Unknown (a # xs) = (a, True) # replicate (length xs) (a, False)"
  by (cases a) (simp_all add: init_calls_settled)

section \<open>Path templates\<close>

datatype path_segment = Static string | Param string | Splat string | Unit | OptionalParam string

fun segment_text :: "path_segment \<Rightarrow> string" where
  "segment_text (Static s) = (if s \<noteq> [] \<and> take 1 s \<noteq> ''/'' then ''/'' else []) @ s"
| "segment_text (Param s) = ''/{'' @ s @ ''}''"
| "segment_text (Splat s) = ''/{'' @ s @ ''}*''"
| "segment_text Unit = []"
| "segment_text (OptionalParam s) = ''/{'' @ s @ ''}''"

definition to_ntex_path :: "path_segment list \<Rightarrow> string" where
  "to_ntex_path segments = foldl (\<lambda>path segment. path @ segment_text segment) [] segments"

section \<open>Listings\<close>

datatype ssr_mode = OutOfOrder | PartiallyBlocked | InOrder | Async | Static_Mode | Future_Mode

record route_listing =
  rl_path :: "path_segment list"
  rl_mode :: ssr_mode
  rl_methods :: "router_method list"

text \<open>The static runtime of a listing: the process-wide one, the one of a generated list, or one of its own.\<close>

datatype runtime_ref = Shared | Generated nat | Own

record ntex_route_listing =
  nl_path :: string
  nl_mode :: ssr_mode
  nl_methods :: "router_method list"
  nl_exclude :: bool
  nl_runtime :: runtime_ref

definition listing_new :: "string \<Rightarrow> ssr_mode \<Rightarrow> router_method list \<Rightarrow> ntex_route_listing" where
  "listing_new path mode methods =
     \<lparr>nl_path = path, nl_mode = mode, nl_methods = methods, nl_exclude = False, nl_runtime = Shared\<rparr>"

definition into_route_listing ::
  "(path_segment list \<Rightarrow> path_segment list list) \<Rightarrow> route_listing \<Rightarrow> ntex_route_listing list" where
  "into_route_listing expand rl =
     map (\<lambda>segments.
            let path = to_ntex_path segments
            in listing_new (if path = [] then ''/'' else path) (rl_mode rl) (rl_methods rl)) (expand (rl_path rl))"

text \<open>\<open>generate_route_list_with_exclusions_and_ssg_and_context\<close>: \<open>runtime\<close> is the fresh runtime of the list.\<close>

definition generate_route_list ::
  "(path_segment list \<Rightarrow> path_segment list list) \<Rightarrow> ssr_mode \<Rightarrow> nat \<Rightarrow> route_listing list \<Rightarrow> string list option \<Rightarrow>
   ntex_route_listing list" where
  "generate_route_list expand default_mode runtime routes excluded =
     (let listed = map (\<lambda>l. l\<lparr>nl_runtime := Generated runtime\<rparr>) (concat (map (into_route_listing expand) routes));
          served = (if listed = [] then [listing_new ''/'' default_mode [RGet]] else listed);
          kept = (case excluded of None \<Rightarrow> served | Some ex \<Rightarrow> filter (\<lambda>l. nl_path l \<notin> set ex) served)
      in kept @ map (\<lambda>path. (listing_new path default_mode [])\<lparr>nl_exclude := True, nl_runtime := Own\<rparr>)
                  (case excluded of None \<Rightarrow> [] | Some ex \<Rightarrow> ex))"

section \<open>Registration\<close>

datatype 'f handler = Server_Fn 'f | Static_Page runtime_ref | Stream_Out_Of_Order | Stream_In_Order | Render_Async | Unsupported_Mode

fun handler_of :: "ssr_mode \<Rightarrow> runtime_ref \<Rightarrow> 'f handler" where
  "handler_of OutOfOrder _ = Stream_Out_Of_Order"
| "handler_of PartiallyBlocked _ = Stream_Out_Of_Order"
| "handler_of InOrder _ = Stream_In_Order"
| "handler_of Async _ = Render_Async"
| "handler_of Static_Mode runtime = Static_Page runtime"
| "handler_of Future_Mode _ = Unsupported_Mode"

record 'f route =
  rt_path :: string
  rt_guard :: "string \<Rightarrow> bool"
  rt_handler :: "'f handler"

definition server_fn_routes ::
  "string list \<Rightarrow> 'f registry \<Rightarrow> ('f \<Rightarrow> string) \<Rightarrow> string list \<Rightarrow> 'f route list" where
  "server_fn_routes keys reg method_of excluded =
     concat (map (\<lambda>(path, m).
       if path \<in> set excluded then []
       else case lookup_server_fn reg path m of
              None \<Rightarrow> []
            | Some f \<Rightarrow> [\<lparr>rt_path = path, rt_guard = (\<lambda>x. x = method_of f), rt_handler = Server_Fn f\<rparr>])
       (server_fn_paths keys reg))"

definition listing_routes :: "ntex_route_listing \<Rightarrow> 'f route list" where
  "listing_routes l =
     map (\<lambda>m. \<lparr>rt_path = nl_path l, rt_guard = method_guard m, rt_handler = handler_of (nl_mode l) (nl_runtime l)\<rparr>) (nl_methods l)"

definition leptos_routes ::
  "string list \<Rightarrow> 'f registry \<Rightarrow> ('f \<Rightarrow> string) \<Rightarrow> ntex_route_listing list \<Rightarrow> 'f route list" where
  "leptos_routes keys reg method_of paths =
     (let excluded = map nl_path (filter nl_exclude paths)
      in server_fn_routes keys reg method_of excluded
         @ concat (map listing_routes (filter (\<lambda>l. \<not> nl_exclude l) paths)))"

section \<open>Lemmas\<close>

lemma to_ntex_path_concat: "to_ntex_path segments = concat (map segment_text segments)"
proof -
  have "foldl (\<lambda>path segment. path @ segment_text segment) p segments = p @ concat (map segment_text segments)" for p
    by (induction segments arbitrary: p) auto
  then show ?thesis by (simp add: to_ntex_path_def)
qed

text \<open>Of an expanded path every segment but \<open>Unit\<close> and the empty static one is its own segment of the template.\<close>

fun template_segment :: "path_segment \<Rightarrow> string" where
  "template_segment (Static s) = s"
| "template_segment (Param s) = ''{'' @ s @ ''}''"
| "template_segment (Splat s) = ''{'' @ s @ ''}*''"
| "template_segment Unit = []"
| "template_segment (OptionalParam s) = ''{'' @ s @ ''}''"

fun plain_segment :: "path_segment \<Rightarrow> bool" where
  "plain_segment (Static s) \<longleftrightarrow> CHR ''/'' \<notin> set s"
| "plain_segment (Param s) \<longleftrightarrow> CHR ''/'' \<notin> set s"
| "plain_segment (Splat s) \<longleftrightarrow> CHR ''/'' \<notin> set s"
| "plain_segment Unit \<longleftrightarrow> True"
| "plain_segment (OptionalParam s) \<longleftrightarrow> CHR ''/'' \<notin> set s"

lemma split_on_append:
  "c \<notin> set s \<Longrightarrow> split_on c (s @ t) = (case split_on c t of [] \<Rightarrow> [] | p # ps \<Rightarrow> (s @ p) # ps)"
  by (induction s) (auto split: list.splits)

lemma segment_text_template:
  "plain_segment seg \<Longrightarrow> segment_text seg = (if template_segment seg = [] then [] else CHR ''/'' # template_segment seg)
     \<and> CHR ''/'' \<notin> set (template_segment seg)"
proof (cases seg)
  case (Static s)
  assume "plain_segment seg"
  with Static show ?thesis by (cases s) auto
qed auto

lemma template_split:
  "list_all plain_segment segments \<Longrightarrow>
     split_on (CHR ''/'') (to_ntex_path segments) = [] # filter (\<lambda>t. t \<noteq> []) (map template_segment segments)"
  unfolding to_ntex_path_concat
proof (induction segments)
  case (Cons seg rest)
  then have st: "segment_text seg = (if template_segment seg = [] then [] else CHR ''/'' # template_segment seg)"
    "CHR ''/'' \<notin> set (template_segment seg)" using segment_text_template [of seg] by auto
  from Cons show ?case unfolding list.map concat.simps st(1) by (auto simp: split_on_append [OF st(2)])
qed simp

definition route_path :: "path_segment list \<Rightarrow> string" where
  "route_path segments = (if to_ntex_path segments = [] then ''/'' else to_ntex_path segments)"

definition listed :: "(path_segment list \<Rightarrow> path_segment list list) \<Rightarrow> nat \<Rightarrow> route_listing list \<Rightarrow> ntex_route_listing list" where
  "listed expand runtime routes = concat (map (\<lambda>rl. map (\<lambda>segments.
     \<lparr>nl_path = route_path segments, nl_mode = rl_mode rl, nl_methods = rl_methods rl, nl_exclude = False,
      nl_runtime = Generated runtime\<rparr>) (expand (rl_path rl))) routes)"

lemma generate_listed:
  "map (\<lambda>l. l\<lparr>nl_runtime := Generated runtime\<rparr>) (concat (map (into_route_listing expand) routes)) = listed expand runtime routes"
  by (simp add: listed_def into_route_listing_def route_path_def listing_new_def map_concat comp_def Let_def)

lemma server_fn_routes_in:
  assumes "\<forall>p. p \<in> set keys \<longleftrightarrow> reg p \<noteq> None" "\<forall>p m f. lookup_server_fn reg p m = Some f \<longrightarrow> method_of f = m"
  shows "(\<exists>r \<in> set (server_fn_routes keys reg method_of excluded). rt_path r = p \<and> rt_guard r meth \<and> rt_handler r = h) \<longleftrightarrow>
    p \<notin> set excluded \<and> (\<exists>f. lookup_server_fn reg p meth = Some f \<and> h = Server_Fn f)"
proof -
  have found: "(p, m) \<in> set (server_fn_paths keys reg)" if "lookup_server_fn reg p m = Some f" for p m f
  proof -
    from that obtain es where es: "reg p = Some es" "find (\<lambda>(k, _). k = m) es \<noteq> None"
      by (auto simp: lookup_server_fn_def split: option.splits)
    then have "m \<in> fst ` set es" unfolding find_methods by simp
    with es(1) assms(1) show ?thesis by (force simp: server_fn_paths_def entry_of_def)
  qed
  show ?thesis
  proof
    assume "\<exists>r \<in> set (server_fn_routes keys reg method_of excluded). rt_path r = p \<and> rt_guard r meth \<and> rt_handler r = h"
    then obtain m f where "p \<notin> set excluded" "lookup_server_fn reg p m = Some f" "meth = method_of f" "h = Server_Fn f"
      unfolding server_fn_routes_def by (fastforce split: if_splits option.splits)
    with assms(2) show "p \<notin> set excluded \<and> (\<exists>f. lookup_server_fn reg p meth = Some f \<and> h = Server_Fn f)" by metis
  next
    assume "p \<notin> set excluded \<and> (\<exists>f. lookup_server_fn reg p meth = Some f \<and> h = Server_Fn f)"
    then obtain f where f: "p \<notin> set excluded" "lookup_server_fn reg p meth = Some f" "h = Server_Fn f" by blast
    have m: "method_of f = meth" using f(2) assms(2) by blast
    let ?r = "\<lparr>rt_path = p, rt_guard = (\<lambda>x. x = method_of f), rt_handler = Server_Fn f\<rparr>"
    have "?r \<in> set (server_fn_routes keys reg method_of excluded)"
      using found [OF f(2)] f by (force simp: server_fn_routes_def)
    with m f(3) show "\<exists>r \<in> set (server_fn_routes keys reg method_of excluded). rt_path r = p \<and> rt_guard r meth \<and> rt_handler r = h"
      by (intro bexI [of _ ?r]) simp_all
  qed
qed

lemma listing_routes_in:
  "(\<exists>r \<in> set (listing_routes l). rt_path r = p \<and> rt_guard r meth \<and> rt_handler r = h) \<longleftrightarrow>
     nl_path l = p \<and> (\<exists>m \<in> set (nl_methods l). method_guard m meth) \<and> h = handler_of (nl_mode l) (nl_runtime l)"
  by (auto simp: listing_routes_def)

lemma leptos_routes_in:
  assumes "\<forall>p. p \<in> set keys \<longleftrightarrow> reg p \<noteq> None" "\<forall>p m f. lookup_server_fn reg p m = Some f \<longrightarrow> method_of f = m"
  shows "(\<exists>r \<in> set (leptos_routes keys reg method_of paths). rt_path r = p \<and> rt_guard r meth \<and> rt_handler r = h) \<longleftrightarrow>
    p \<notin> nl_path ` {l \<in> set paths. nl_exclude l} \<and> (\<exists>f. lookup_server_fn reg p meth = Some f \<and> h = Server_Fn f)
    \<or> (\<exists>l \<in> set paths. \<not> nl_exclude l \<and> nl_path l = p \<and> (\<exists>m \<in> set (nl_methods l). method_guard m meth)
         \<and> h = handler_of (nl_mode l) (nl_runtime l))"
proof -
  have pages: "(\<exists>r \<in> set (concat (map listing_routes ls)). rt_path r = p \<and> rt_guard r meth \<and> rt_handler r = h) \<longleftrightarrow>
      (\<exists>l \<in> set ls. nl_path l = p \<and> (\<exists>m \<in> set (nl_methods l). method_guard m meth) \<and> h = handler_of (nl_mode l) (nl_runtime l))" for ls
    unfolding listing_routes_in [symmetric] by auto
  show ?thesis
    unfolding leptos_routes_def Let_def set_append bex_Un server_fn_routes_in [OF assms] pages by (simp add: Bex_def conj_assoc)
qed

text \<open>What a generated list registers, before exclusions: the application's pages, or the shell at \<open>/\<close> without any.\<close>

definition generated_page ::
  "(path_segment list \<Rightarrow> path_segment list list) \<Rightarrow> ssr_mode \<Rightarrow> nat \<Rightarrow> route_listing list \<Rightarrow> string \<Rightarrow> string \<Rightarrow> 'f handler \<Rightarrow> bool" where
  "generated_page expand default_mode runtime routes p meth h \<longleftrightarrow>
     (if \<forall>rl \<in> set routes. expand (rl_path rl) = []
      then p = ''/'' \<and> meth \<in> {''GET'', ''HEAD''} \<and> h = handler_of default_mode Shared
      else \<exists>rl \<in> set routes. p \<in> route_path ` set (expand (rl_path rl)) \<and> (\<exists>m \<in> set (rl_methods rl). method_guard m meth)
        \<and> h = handler_of (rl_mode rl) (Generated runtime))"

lemma listed_empty: "listed expand runtime routes = [] \<longleftrightarrow> (\<forall>rl \<in> set routes. expand (rl_path rl) = [])"
  by (auto simp: listed_def)

lemma listed_pages:
  "(\<exists>l \<in> set (listed expand runtime routes). nl_path l = p \<and> (\<exists>m \<in> set (nl_methods l). method_guard m meth)
      \<and> h = handler_of (nl_mode l) (nl_runtime l)) \<longleftrightarrow>
   (\<exists>rl \<in> set routes. p \<in> route_path ` set (expand (rl_path rl)) \<and> (\<exists>m \<in> set (rl_methods rl). method_guard m meth)
        \<and> h = handler_of (rl_mode rl) (Generated runtime))"
  by (fastforce simp: listed_def)

lemma listed_active: "l \<in> set (listed expand runtime routes) \<Longrightarrow> \<not> nl_exclude l"
  by (auto simp: listed_def)

definition excluded_paths :: "string list option \<Rightarrow> string list" where
  "excluded_paths ex = (case ex of None \<Rightarrow> [] | Some ps \<Rightarrow> ps)"

lemma generate_members:
  "set (generate_route_list expand default_mode runtime routes ex) =
     {l \<in> set (if listed expand runtime routes = [] then [listing_new ''/'' default_mode [RGet]] else listed expand runtime routes).
        nl_path l \<notin> set (excluded_paths ex)}
     \<union> (\<lambda>path. (listing_new path default_mode [])\<lparr>nl_exclude := True, nl_runtime := Own\<rparr>) ` set (excluded_paths ex)"
  unfolding generate_route_list_def generate_listed Let_def
  by (cases ex) (simp_all add: excluded_paths_def)

section \<open>Property\<close>

text \<open>C25: the registered routes, exactly. For functions that are registered under their own method, the routes of a
  generated list answer a method at a path in precisely these ways: not at all at an excluded path, which stays
  free for the application's own handler even when it is \<open>/\<close> or the path of a server function; otherwise with the
  server function looked up there, or with a page of the router whose methods admit it, where \<open>HEAD\<close> goes with
  \<open>GET\<close> and an application without pages has its shell at \<open>/\<close>.\<close>

theorem registered_routes_exact:
  assumes "\<forall>p. p \<in> set keys \<longleftrightarrow> reg p \<noteq> None" and "\<forall>p m f. lookup_server_fn reg p m = Some f \<longrightarrow> method_of f = m"
  shows "(\<exists>r \<in> set (leptos_routes keys reg method_of (generate_route_list expand default_mode runtime routes ex)).
        rt_path r = p \<and> rt_guard r meth \<and> rt_handler r = h) \<longleftrightarrow>
    p \<notin> set (excluded_paths ex)
      \<and> ((\<exists>f. lookup_server_fn reg p meth = Some f \<and> h = Server_Fn f)
         \<or> generated_page expand default_mode runtime routes p meth h)"
proof -
  let ?ls = "generate_route_list expand default_mode runtime routes ex"
  let ?all = "if listed expand runtime routes = [] then [listing_new ''/'' default_mode [RGet]] else listed expand runtime routes"
  have active: "\<not> nl_exclude l" if "l \<in> set ?all" for l
    using that listed_active by (auto simp: listing_new_def split: if_splits)
  let ?E = "(\<lambda>path. (listing_new path default_mode [])\<lparr>nl_exclude := True, nl_runtime := Own\<rparr>) ` set (excluded_paths ex)"
  have marked: "nl_exclude l" if "l \<in> ?E" for l using that by auto
  have "set ?ls = {l \<in> set ?all. nl_path l \<notin> set (excluded_paths ex)} \<union> ?E" by (rule generate_members)
  then have members: "l \<in> set ?ls \<longleftrightarrow> l \<in> set ?all \<and> nl_path l \<notin> set (excluded_paths ex) \<or> l \<in> ?E" for l by blast
  have ex: "nl_path ` {l \<in> set ?ls. nl_exclude l} = set (excluded_paths ex)"
  proof -
    have "{l \<in> set ?ls. nl_exclude l} = ?E" using members active marked by blast
    then show ?thesis by (simp add: image_image listing_new_def)
  qed
  have pages: "(\<exists>l \<in> set ?ls. \<not> nl_exclude l \<and> nl_path l = p \<and> (\<exists>m \<in> set (nl_methods l). method_guard m meth)
        \<and> h = handler_of (nl_mode l) (nl_runtime l)) \<longleftrightarrow>
      p \<notin> set (excluded_paths ex) \<and> (\<exists>l \<in> set ?all. nl_path l = p \<and> (\<exists>m \<in> set (nl_methods l). method_guard m meth)
        \<and> h = handler_of (nl_mode l) (nl_runtime l))"
    using members active marked by blast
  have all: "(\<exists>l \<in> set ?all. nl_path l = p \<and> (\<exists>m \<in> set (nl_methods l). method_guard m meth)
        \<and> h = handler_of (nl_mode l) (nl_runtime l)) \<longleftrightarrow> generated_page expand default_mode runtime routes p meth h"
  proof (cases "listed expand runtime routes = []")
    case True
    then have "\<forall>rl \<in> set routes. expand (rl_path rl) = []" by (simp only: listed_empty)
    with True show ?thesis by (auto simp: generated_page_def listing_new_def)
  next
    case False
    then have "\<not> (\<forall>rl \<in> set routes. expand (rl_path rl) = [])" by (simp only: listed_empty not_False_eq_True)
    then show ?thesis using False listed_pages [of expand runtime routes p meth h]
      by (simp only: generated_page_def if_False)
  qed
  show ?thesis unfolding leptos_routes_in [OF assms] ex pages all by blast
qed

theorem registered_routes_exact_witness:
  "\<exists>r \<in> set (leptos_routes [''/api/f''] [''/api/f'' \<mapsto> [(''POST'', ''f'')]] (\<lambda>_. ''POST'')
        (generate_route_list (\<lambda>p. [p]) OutOfOrder 1 [\<lparr>rl_path = [Static ''about''], rl_mode = InOrder, rl_methods = [RGet]\<rparr>] (Some [''/'']))).
     rt_path r = ''/about'' \<and> rt_guard r ''HEAD'' \<and> rt_handler r = (Stream_In_Order :: string handler)"
proof -
  let ?reg = "[''/api/f'' \<mapsto> [(''POST'', ''f'')]] :: string registry"
  have k: "\<forall>p. p \<in> set [''/api/f''] \<longleftrightarrow> ?reg p \<noteq> None" by simp
  have m: "\<forall>p m f. lookup_server_fn ?reg p m = Some f \<longrightarrow> ''POST'' = m"
    by (auto simp: lookup_server_fn_def split: option.splits if_splits)
  have "generated_page (\<lambda>p. [p]) OutOfOrder 1 [\<lparr>rl_path = [Static ''about''], rl_mode = InOrder, rl_methods = [RGet]\<rparr>]
      ''/about'' ''HEAD'' (Stream_In_Order :: string handler)"
    by (simp add: generated_page_def route_path_def to_ntex_path_def)
  then show ?thesis unfolding registered_routes_exact [OF k m] by (simp add: excluded_paths_def)
qed

end
