(* ===== verification/Page_Render.thy ===== *)
theory Page_Render
  imports Body_Stream Request_Scope Routes
begin

text \<open>
  Rendering of a page (\<^verbatim>\<open>src/render.rs\<close>, \<open>from_stream\<close> and \<open>from_app\<close> of \<^verbatim>\<open>src/response.rs\<close>, and \<open>scoped_request\<close>
  of \<^verbatim>\<open>src/request.rs\<close>): the registration of the request, the contexts the application sees, the choice of its
  HTML stream, and how its first chunk fixes status and headers.

  The application and its renderer are third-party. An application gives, for the contexts provided to it, its four
  HTML streams and the data chunks that follow them, as pieces: what producing the piece does to the response
  options, which the application shares with the response, and its text. \<open>batch\<close> is the grouping of the pieces
  that are ready together, \<open>inject\<close> the insertion of the meta tags into the stream, and \<open>rounds n\<close> the deferred work
  awaited before the first chunk (\<open>n = 0\<close>) and after the \<open>n\<close>-th. Of a split build the application has the
  keys prefetched while it was rendered and the manifest of its modules. The owner's lifetime is in
  \<open>Owner_Scope\<close>.
\<close>

section \<open>Requests and contexts\<close>

record native_request =
  nr_path :: string
  nr_query :: string
  nr_method :: string
  nr_version :: http_version
  nr_io :: bool
  nr_headers :: "string set"

definition leptos_corrected_path :: "native_request \<Rightarrow> string" where
  "leptos_corrected_path req =
     (if nr_query req = [] then ''http://leptos'' @ nr_path req
      else ''http://leptos'' @ nr_path req @ ''?'' @ nr_query req)"

datatype 'c context_value =
    Request_Url string
  | Meta_Context
  | Response_Options
  | Request_Handle token
  | Server_Redirect
  | Nonce
  | Application_Context 'c
  | Islands_Router_Navigation

text \<open>The contexts in the order they are provided; \<open>None\<close> is the panic when the handle is out of reach.\<close>

definition provide_contexts :: "native_request world \<Rightarrow> nat \<Rightarrow> token \<Rightarrow> 'c context_value list option" where
  "provide_contexts w thread req =
     (case access w thread req of
        Inl _ \<Rightarrow> None
      | Inr native \<Rightarrow>
          Some [Request_Url (leptos_corrected_path native), Meta_Context, Response_Options, Request_Handle req,
                Server_Redirect, Nonce])"

section \<open>Streams\<close>

type_synonym 'hm effect = "'hm response_parts \<Rightarrow> 'hm response_parts"
type_synonym 'hm piece = "'hm effect \<times> string"

record 'hm application =
  ap_setup :: "'hm effect"
  ap_out_of_order :: "'hm piece list"
  ap_in_order :: "'hm piece list"
  ap_out_of_order_branching :: "'hm piece list"
  ap_in_order_branching :: "'hm piece list"
  ap_chunks :: "'hm piece list"
  ap_prefetches :: "string list"
  ap_manifest :: "(string \<times> (string \<Rightarrow> string list option) \<times> string) option"

text \<open>A stream builder runs an effect of its own before it yields the stream.\<close>

type_synonym 'hm stream_builder = "'hm application \<Rightarrow> bool \<Rightarrow> 'hm effect \<times> 'hm piece list"

definition run_pieces :: "'hm piece list \<Rightarrow> 'hm effect" where
  "run_pieces ps options = foldl (\<lambda>o1 (f, _). f o1) options ps"

definition pieces_text :: "'hm piece list \<Rightarrow> string" where
  "pieces_text ps = concat (map snd ps)"

definition out_of_order_builder :: "bool \<Rightarrow> 'hm stream_builder" where
  "out_of_order_builder islands_router app supports_ooo =
     (id, (if islands_router
           then (if supports_ooo then ap_out_of_order_branching app else ap_in_order_branching app)
           else if supports_ooo then ap_out_of_order app else ap_in_order app) @ ap_chunks app)"

definition in_order_builder :: "bool \<Rightarrow> 'hm stream_builder" where
  "in_order_builder islands_router app supports_ooo =
     (id, (if islands_router then ap_in_order_branching app else ap_in_order app) @ ap_chunks app)"

definition async_stream_builder :: "bool \<Rightarrow> 'hm stream_builder" where
  "async_stream_builder islands_router app supports_ooo =
     (let html = (if islands_router then ap_in_order_branching app else ap_in_order app)
      in (run_pieces html, (id, pieces_text html) # ap_chunks app))"

fun builder_of :: "bool \<Rightarrow> 'f handler \<Rightarrow> 'hm stream_builder option" where
  "builder_of islands_router Stream_Out_Of_Order = Some (out_of_order_builder islands_router)"
| "builder_of islands_router Stream_In_Order = Some (in_order_builder islands_router)"
| "builder_of islands_router Render_Async = Some (async_stream_builder islands_router)"
| "builder_of _ _ = None"

text \<open>\<open>ready_chunks(32)\<close> followed by the join of each group.\<close>

definition joined :: "('hm piece list \<Rightarrow> 'hm piece list list) \<Rightarrow> 'hm piece list \<Rightarrow> 'hm piece list" where
  "joined batch ps = map (\<lambda>group. (run_pieces group, pieces_text group)) (batch ps)"

section \<open>The response\<close>

definition await_deferred :: "'hm effect list \<Rightarrow> 'hm effect" where
  "await_deferred rounds options = foldl (\<lambda>o1 f. f o1) options rounds"

text \<open>The next chunk of the stream: it is produced, then the deferred work is awaited.\<close>

fun next_chunk ::
  "(nat \<Rightarrow> 'hm effect list) \<Rightarrow> nat \<Rightarrow> 'hm piece list \<Rightarrow> 'hm response_parts \<Rightarrow>
   string option \<times> nat \<times> 'hm piece list \<times> 'hm response_parts" where
  "next_chunk rounds n [] options = (None, n, [], options)"
| "next_chunk rounds n ((f, text1) # ps) options =
     (Some text1, Suc n, ps, await_deferred (rounds (Suc n)) (f options))"

text \<open>The body: the chunk awaited already, the rest of the stream, and the options it goes on to share.\<close>

record 'hm page_body =
  pb_first :: "string option"
  pb_count :: nat
  pb_rest :: "'hm piece list"
  pb_options :: "'hm response_parts"

definition page_poll ::
  "(nat \<Rightarrow> 'hm effect list) \<Rightarrow> 'hm page_body \<Rightarrow> (string, 'e) body_poll \<times> 'hm page_body" where
  "page_poll rounds b =
     (case pb_first b of
        Some c \<Rightarrow> (Chunk c, b\<lparr>pb_first := None\<rparr>)
      | None \<Rightarrow>
          (case next_chunk rounds (pb_count b) (pb_rest b) (pb_options b) of
             (r, n, ps, options) \<Rightarrow>
               (case r of Some c \<Rightarrow> Chunk c | None \<Rightarrow> End,
                b\<lparr>pb_count := n, pb_rest := ps, pb_options := options\<rparr>)))"

definition page_ops :: "(nat \<Rightarrow> 'hm effect list) \<Rightarrow> ('hm page_body, string, 'e, unit) body_ops" where
  "page_ops rounds = \<lparr>b_size = (\<lambda>_. ()), b_poll = page_poll rounds\<rparr>"

text \<open>\<open>html\<close> is the header value of the literal content type.\<close>

definition from_stream :: "('hm, 'hv) header_ops \<Rightarrow> 'hv \<Rightarrow> 'b \<Rightarrow> ('hm, 'b) http_response" where
  "from_stream h html body =
     \<lparr>rs_status = 200, rs_headers = h_insert h (h_empty h) ''content-type'' html, rs_body = body\<rparr>"

definition HTML_TYPE :: string where
  "HTML_TYPE = ''text/html; charset=utf-8''"

text \<open>The links that a split build registers with the meta context, for the nonce of the page.\<close>

record preload_link =
  ln_rel :: string
  ln_href :: string
  ln_as :: "string option"
  ln_type :: "string option"
  ln_crossorigin :: string

definition preload_links ::
  "string list \<Rightarrow> string option \<Rightarrow> (string \<times> (string \<Rightarrow> string list option) \<times> string) option \<Rightarrow> preload_link list" where
  "preload_links prefetches use_nonce manifest =
     (if prefetches = [] then []
      else let nonce = (case use_nonce of Some n \<Rightarrow> n | None \<Rightarrow> [])
           in case manifest of
                None \<Rightarrow> []
              | Some (pkg_path, modules, wasm_split_file) \<Rightarrow>
                  map (\<lambda>module. \<lparr>ln_rel = ''preload'', ln_href = pkg_path @ ''/'' @ module @ ''.wasm'', ln_as = Some ''fetch'',
                         ln_type = Some ''application/wasm'', ln_crossorigin = nonce\<rparr>)
                    (concat (map (\<lambda>key. case modules key of Some ms \<Rightarrow> ms | None \<Rightarrow> []) prefetches))
                  @ [\<lparr>ln_rel = ''modulepreload'', ln_href = pkg_path @ ''/'' @ wasm_split_file, ln_as = None, ln_type = None,
                       ln_crossorigin = nonce\<rparr>])"

text \<open>What the environment of a page fixes.\<close>

record ('hm, 'hv) page_env =
  pe_headers :: "('hm, 'hv) header_ops"
  pe_html :: 'hv
  pe_value :: "string \<Rightarrow> 'hv option"
  pe_batch :: "'hm piece list \<Rightarrow> 'hm piece list list"
  pe_nonce :: "string option"
  pe_inject :: "preload_link list \<Rightarrow> 'hm piece list \<Rightarrow> 'hm piece list"
  pe_rounds :: "nat \<Rightarrow> 'hm effect list"

definition from_app ::
  "('hm, 'hv) page_env \<Rightarrow> 'hm application \<Rightarrow> 'hm stream_builder \<Rightarrow> bool \<Rightarrow> 'hm response_parts \<Rightarrow>
   ('hm, 'hm page_body) http_response" where
  "from_app env app build supports_ooo options =
     (case build app supports_ooo of (awaited, stream) \<Rightarrow>
        let options1 = awaited (ap_setup app options);
            options2 = await_deferred (pe_rounds env 0) options1;
            links = preload_links (ap_prefetches app) (pe_nonce env) (ap_manifest app)
        in case next_chunk (pe_rounds env) 0 (pe_inject env links (joined (pe_batch env) stream)) options2 of
             (first, n, rest, options3) \<Rightarrow>
               let first_chunk = (case first of Some c \<Rightarrow> c | None \<Rightarrow> []);
                   res = from_stream (pe_headers env) (pe_html env)
                     \<lparr>pb_first = Some first_chunk, pb_count = n, pb_rest = rest, pb_options = options3\<rparr>;
                   (res1, options4) = extend_response (pe_headers env) res options3;
                   res2 = res1\<lparr>rs_body := (rs_body res1)\<lparr>pb_options := options4\<rparr>\<rparr>
               in set_default_content_type (pe_headers env) (pe_value env) res2 HTML_TYPE)"

section \<open>The handler\<close>

fun access_error_message :: "access_error \<Rightarrow> string" where
  "access_error_message MissingScope = ''no active RequestScope on this thread''"
| "access_error_message WrongThread = ''request access requires its origin thread''"
| "access_error_message Closed = ''request scope is closed''"

text \<open>\<open>report_missing_scope\<close>, for the flag of its \<open>Once\<close>: the flag afterwards and what is logged.\<close>

definition report_missing_scope :: "bool \<Rightarrow> access_error \<Rightarrow> bool \<times> string list" where
  "report_missing_scope reported e =
     (True, if reported then []
            else [''leptos_ntex cannot serve requests: '' @ access_error_message e @ ''. Build the ntex System with `RequestRuntime::new(DefaultRuntime)` (see the README quick start) or open a `RequestScope` around manual embedding; affected requests are answered with 500''])"

definition check_registration_scope :: "'r world \<Rightarrow> nat \<Rightarrow> bool \<Rightarrow> bool \<times> string list" where
  "check_registration_scope w thread reported =
     (if current_registry w thread = None then report_missing_scope reported MissingScope else (reported, []))"

definition internal_server_error :: "('hm, 'hv) header_ops \<Rightarrow> ('hm, unit) http_response" where
  "internal_server_error h = \<lparr>rs_status = 500, rs_headers = h_empty h, rs_body = ()\<rparr>"

text \<open>\<open>scoped_request\<close>: the world, the reporting flag and what is logged, then the response or the handle. \<open>None\<close> is
  the panic when the identifiers of the scope are exhausted.\<close>

definition scoped_request ::
  "('hm, 'hv) header_ops \<Rightarrow> 'r world \<Rightarrow> nat \<Rightarrow> bool \<Rightarrow> 'r \<Rightarrow>
   ('r world \<times> bool \<times> string list \<times> (('hm, unit) http_response + token)) option" where
  "scoped_request h w thread reported req =
     (case try_new w thread req of
        None \<Rightarrow> None
      | Some (w', Inl e) \<Rightarrow>
          (case report_missing_scope reported e of (reported', logged) \<Rightarrow>
             Some (w', reported', logged, Inl (internal_server_error h)))
      | Some (w', Inr tk) \<Rightarrow> Some (w', reported, [], Inr tk))"

text \<open>The result of a handler: the refusal, or the contexts of the rendering and its response.\<close>

type_synonym ('hm, 'c) page_result =
  "('hm, unit) http_response + 'c context_value list \<times> ('hm, 'hm page_body fallible_body) http_response"

definition islands_navigation :: "bool \<Rightarrow> native_request \<Rightarrow> bool" where
  "islands_navigation islands_router req \<longleftrightarrow> islands_router \<and> ''islands-router'' \<in> nr_headers req"

definition page_contexts :: "'c context_value list \<Rightarrow> 'c list \<Rightarrow> bool \<Rightarrow> 'c context_value list" where
  "page_contexts provided additional navigation =
     provided @ map Application_Context additional @ (if navigation then [Islands_Router_Navigation] else [])"

definition handle_response_inner ::
  "('hm, 'hv) page_env \<Rightarrow> bool \<Rightarrow> 'c list \<Rightarrow> ('c context_value list \<Rightarrow> 'hm application) \<Rightarrow> 'hm stream_builder \<Rightarrow>
   native_request world \<Rightarrow> nat \<Rightarrow> bool \<Rightarrow> native_request \<Rightarrow>
   (native_request world \<times> bool \<times> string list \<times> ('hm, 'c) page_result) option" where
  "handle_response_inner env islands_router additional app_fn build w thread reported req =
     (let navigation = islands_navigation islands_router req
      in case scoped_request (pe_headers env) w thread reported req of
           None \<Rightarrow> None
         | Some (w', reported', logged, Inl response) \<Rightarrow> Some (w', reported', logged, Inl response)
         | Some (w', reported', logged, Inr tk) \<Rightarrow>
             (case provide_contexts w' thread tk of
                None \<Rightarrow> None
              | Some provided \<Rightarrow>
                  let contexts = page_contexts provided additional navigation;
                      res = from_app env (app_fn contexts) build (\<not> navigation) (parts_default (pe_headers env))
                  in Some (w', reported', logged,
                       Inr (contexts, terminate_on_body_error (nr_version req) (nr_io req) (nr_method req) res))))"

section \<open>Routes of pages\<close>

fun ntex_method :: "router_method \<Rightarrow> string" where
  "ntex_method RGet = ''GET''"
| "ntex_method RPost = ''POST''"
| "ntex_method RPut = ''PUT''"
| "ntex_method RDelete = ''DELETE''"
| "ntex_method RPatch = ''PATCH''"

text \<open>The guard of a page route: \<open>GET\<close> or \<open>HEAD\<close> for a page under \<open>GET\<close>, otherwise the method itself.\<close>

definition handle_response_guard :: "router_method \<Rightarrow> string \<Rightarrow> bool" where
  "handle_response_guard m x \<longleftrightarrow> (if m = RGet then x = ''GET'' \<or> x = ''HEAD'' else x = ntex_method m)"

definition unsupported_ssr_mode_route :: "('hm, 'hv) header_ops \<Rightarrow> router_method \<Rightarrow> string \<Rightarrow> ('hm, string) http_response option" where
  "unsupported_ssr_mode_route h m x =
     (if (if m = RGet then x = ''GET'' \<or> x = ''HEAD'' else x = ntex_method m)
      then Some \<lparr>rs_status = 500, rs_headers = h_empty h, rs_body = ''This rendering mode is not supported.''\<rparr>
      else None)"

section \<open>Lemmas\<close>

lemma run_pieces_append: "run_pieces (ps @ qs) o1 = run_pieces qs (run_pieces ps o1)"
  by (simp add: run_pieces_def)

lemma pieces_text_append: "pieces_text (ps @ qs) = pieces_text ps @ pieces_text qs"
  by (simp add: pieces_text_def)

lemma run_pieces_joined: "run_pieces (joined batch ps) = run_pieces (concat (batch ps))"
proof -
  have "run_pieces (map (\<lambda>group. (run_pieces group, pieces_text group)) gs) o1 = run_pieces (concat gs) o1"
    for gs :: "'a piece list list" and o1
    by (induction gs arbitrary: o1) (simp_all add: run_pieces_append, simp_all add: run_pieces_def)
  then show ?thesis by (simp add: joined_def fun_eq_iff)
qed

lemma pieces_text_joined: "pieces_text (joined batch ps) = pieces_text (concat (batch ps))"
proof -
  have "pieces_text (map (\<lambda>group. (run_pieces group, pieces_text group)) gs) = pieces_text (concat gs)"
    for gs :: "'a piece list list"
    by (induction gs) (simp_all add: pieces_text_append, simp_all add: pieces_text_def)
  then show ?thesis by (simp add: joined_def)
qed

text \<open>The polls of a body yield its chunks in order and then its end.\<close>

lemma rest_polls:
  assumes "ops = page_ops rounds"
  shows "pb_first b = None \<Longrightarrow> fst (raw_polls ops (length (pb_rest b) + k) b)
     = map (Chunk \<circ> snd) (pb_rest b) @ replicate k End"
proof (induction "pb_rest b" arbitrary: b)
  case Nil
  then show ?case
  proof (induction k arbitrary: b)
    case (Suc k)
    from Suc.prems have "b_poll ops b = (End, b)" by (simp add: assms page_ops_def page_poll_def)
    with Suc show ?case by (simp add: split_beta)
  qed simp
next
  case (Cons p ps)
  obtain f c where p: "p = (f, c)" by fastforce
  let ?b = "b\<lparr>pb_count := Suc (pb_count b), pb_rest := ps,
    pb_options := await_deferred (rounds (Suc (pb_count b))) (f (pb_options b))\<rparr>"
  have "b_poll ops b = (Chunk c, ?b)"
    using Cons.prems Cons.hyps(2) [symmetric] by (simp add: assms page_ops_def page_poll_def p)
  moreover have "fst (raw_polls ops (length ps + k) ?b) = map (Chunk \<circ> snd) ps @ replicate k End"
    using Cons.hyps(1) [of ?b] Cons.prems by simp
  ultimately show ?case using Cons.hyps(2) [symmetric] p by (simp add: split_beta)
qed

lemma page_polls:
  assumes "pb_first b = Some c" and "ops = page_ops rounds"
  shows "fst (raw_polls ops (Suc (length (pb_rest b)) + k) b)
     = Chunk c # map (Chunk \<circ> snd) (pb_rest b) @ replicate k End"
proof -
  have "b_poll ops b = (Chunk c, b\<lparr>pb_first := None\<rparr>)" using assms by (simp add: page_ops_def page_poll_def)
  moreover have "fst (raw_polls ops (length (pb_rest b) + k) (b\<lparr>pb_first := None\<rparr>))
      = map (Chunk \<circ> snd) (pb_rest b) @ replicate k End"
    using rest_polls [OF assms(2), of "b\<lparr>pb_first := None\<rparr>" k] by simp
  ultimately show ?thesis by (simp add: split_beta)
qed

lemma current_registry_open:
  assumes "world_inv w" "current_registry w thread = Some sid"
  obtains sc where "w_scopes w sid = Some sc" "sc_thread sc = thread" "\<not> sc_closed sc" "sid \<in> set (w_stack w thread)"
proof -
  have "sid \<in> set (w_stack w thread)" "is_open w sid"
    using find_Some_in [of "is_open w" "rev (w_stack w thread)" sid] assms(2) by (simp_all add: current_registry_def)
  with that world_invD(3) [OF assms(1)] show ?thesis by blast
qed

text \<open>The handle of a request that was just registered reaches it, so providing the contexts never panics.\<close>

lemma try_new_access:
  assumes "world_inv w" "try_new w thread req = Some (w', Inr tk)"
  shows "access w' thread tk = Inr req"
proof -
  obtain sid where sid: "current_registry w thread = Some sid"
    using assms(2) by (auto simp: try_new_def split: option.splits)
  from current_registry_open [OF assms(1) sid] obtain sc
    where sc: "w_scopes w sid = Some sc" "\<not> sc_closed sc" "sid \<in> set (w_stack w thread)" by blast
  have tk: "tk = \<lparr>tk_scope = sid, tk_id = sc_next sc, tk_origin = thread\<rparr>"
    and w': "w' = (set_scope w sid (sc\<lparr>sc_next := sc_next sc + 1, sc_entries := (sc_entries sc)(sc_next sc \<mapsto> req)\<rparr>))
      \<lparr>w_handles := (w_handles w)(tk := 1)\<rparr>"
    using assms(2) sid sc(1) by (auto simp: try_new_def Let_def split: if_splits)
  have "find_registry w' thread sid = Some sid"
    unfolding find_registry_def
    by (rule find_eq) (use sc in \<open>simp_all add: w' set_scope_def is_open_def\<close>)
  then show ?thesis by (simp add: access_def tk) (simp add: w' set_scope_def)
qed

lemma try_new_refused:
  assumes "world_inv w"
  shows "try_new w thread req = Some (w', Inl e) \<longleftrightarrow> current_registry w thread = None \<and> w' = w \<and> e = MissingScope"
proof (cases "current_registry w thread")
  case (Some sid)
  from current_registry_open [OF assms Some] obtain sc where "w_scopes w sid = Some sc" by blast
  with Some show ?thesis by (simp add: try_new_def Let_def)
qed (auto simp: try_new_def)

lemma handle_response_guard_eq: "handle_response_guard m x = method_guard m x"
  by (cases m) (simp_all add: handle_response_guard_def)

lemma unsupported_mode_guard: "unsupported_ssr_mode_route h m x \<noteq> None \<longleftrightarrow> handle_response_guard m x"
  by (simp add: unsupported_ssr_mode_route_def handle_response_guard_def)

lemma page_response:
  assumes "header_laws (pe_headers env)"
    and "handle_response_inner env islands_router additional app_fn build w thread reported req
         = Some (w', reported', logged, Inr (contexts, res))"
    and "app_fn contexts = app" and "build app (\<not> islands_navigation islands_router req) = (awaited, stream)"
    and "pe_inject env (preload_links (ap_prefetches app) (pe_nonce env) (ap_manifest app)) (joined (pe_batch env) stream) = pieces"
    and "await_deferred (pe_rounds env 0) (awaited (ap_setup app (parts_default (pe_headers env)))) = before"
    and "(case pieces of [] \<Rightarrow> before | (f, _) # _ \<Rightarrow> await_deferred (pe_rounds env 1) (f before)) = taken"
  shows "rs_status res = (case rp_status taken of Some s \<Rightarrow> s | None \<Rightarrow> 200)
     \<and> h_get_all (pe_headers env) (rs_headers res) k =
         merged k (if k = ''content-type'' then [pe_html env] else []) (h_get_all (pe_headers env) (rp_headers taken) k)
     \<and> (case polls (page_ops (pe_rounds env)) (max 1 (length pieces) + n) (rs_body res) False of (results, _, _) \<Rightarrow>
          results = (if nr_method req = ''HEAD'' then replicate (max 1 (length pieces) + n) End
                     else map Chunk (if pieces = [] then [[]] else map snd pieces) @ replicate n End))"
proof -
  let ?h = "pe_headers env"
  define page where "page = from_app env app build (\<not> islands_navigation islands_router req) (parts_default ?h)"
  have res: "res = terminate_on_body_error (nr_version req) (nr_io req) (nr_method req) page"
    using assms(2,3) by (auto simp: handle_response_inner_def page_def Let_def split: option.splits prod.splits sum.splits)
  obtain first m rest where nc: "next_chunk (pe_rounds env) 0 pieces before = (first, m, rest, taken)"
    and first: "first = (case pieces of [] \<Rightarrow> None | (_, c) # _ \<Rightarrow> Some c)" and rest: "rest = tl pieces"
    using assms(7) by (cases "(pe_rounds env, 0 :: nat, pieces, before)" rule: next_chunk.cases) auto
  let ?b = "\<lparr>pb_first = Some (case first of Some c \<Rightarrow> c | None \<Rightarrow> []), pb_count = m, pb_rest = rest, pb_options = taken\<rparr>"
  let ?r = "extend_response_parts ?h (from_stream ?h (pe_html env) ?b) taken"
  have ct: "h_get_all ?h (rs_headers ?r) ''content-type'' \<noteq> []"
    by (simp add: extend_get [OF assms(1)] header_lawsD(2) [OF assms(1)] from_stream_def merged_def split: header_merge.split)
  have page: "page = ?r\<lparr>rs_body := (rs_body ?r)\<lparr>pb_options := parts_default ?h\<rparr>\<rparr>"
    using ct by (simp add: page_def from_app_def assms(4,5,6) nc Let_def extend_response_def set_default_content_type_def)
  have status: "rs_status page = (case rp_status taken of Some s \<Rightarrow> s | None \<Rightarrow> 200)"
    by (simp add: page extend_response_parts_def from_stream_def Let_def split: option.splits)
  have headers: "h_get_all ?h (rs_headers page) k =
      merged k (if k = ''content-type'' then [pe_html env] else []) (h_get_all ?h (rp_headers taken) k)"
    by (simp add: page from_stream_def extend_get [OF assms(1)] header_lawsD(1,2) [OF assms(1)])
  have body: "pb_first (rs_body page) = Some (case first of Some c \<Rightarrow> c | None \<Rightarrow> [])" "pb_rest (rs_body page) = rest"
    by (simp_all add: page extend_response_parts_def from_stream_def Let_def split: option.splits)
  have len: "Suc (length rest) = max 1 (length pieces)" by (cases pieces) (simp_all add: rest)
  have chunks: "Chunk (case first of Some c \<Rightarrow> c | None \<Rightarrow> []) # map (Chunk \<circ> snd) rest
      = map Chunk (if pieces = [] then [[]] else map snd pieces)"
    by (cases pieces) (auto simp: first rest)
  have raw: "fst (raw_polls (page_ops (pe_rounds env)) (max 1 (length pieces) + n) (rs_body page))
      = map Chunk (if pieces = [] then [[]] else map snd pieces) @ replicate n End"
    using page_polls [OF body(1) refl, of "pe_rounds env" n]
    unfolding body(2) len chunks [symmetric] by (simp only: append_Cons)
  have parts: "rs_status res = rs_status page" "rs_headers res = rs_headers page"
    "fb_body (rs_body res) = rs_body page" "fb_head_only (rs_body res) \<longleftrightarrow> nr_method req = ''HEAD''"
    by (simp_all add: res terminate_on_body_error_def contain_for_protocol_def)
  show ?thesis
    using status headers raw parts by (cases "nr_method req = ''HEAD''") (simp_all add: polls_head polls_streaming)
qed

section \<open>Properties\<close>

text \<open>Asynchronous rendering sends the page of in-order streaming. Whatever the grouping of ready pieces, as
  long as it keeps their order, the asynchronous mode hands the same HTML to the insertion of meta tags as
  in-order streaming and has the same effects on the response options; but the application's own effects
  all come before the stream begins, so each of them still counts for status and headers. Out-of-order streaming
  that is not supported for a navigation of the islands router is in-order streaming.\<close>

theorem async_sends_in_order_page:
  assumes "\<And>ps. concat (batch ps) = ps"
  shows "case (async_stream_builder islands_router app ooo, in_order_builder islands_router app ooo) of
     ((before_async, async), (before_ordered, ordered)) \<Rightarrow>
       pieces_text (joined batch async) = pieces_text (joined batch ordered)
       \<and> run_pieces (joined batch async) (before_async options) = run_pieces (joined batch ordered) (before_ordered options)
       \<and> before_async = run_pieces (if islands_router then ap_in_order_branching app else ap_in_order app)
       \<and> out_of_order_builder islands_router app False = (before_ordered, ordered)"
proof -
  have "run_pieces ((id, text1) # ps) = run_pieces ps" for text1 and ps :: "'a piece list"
    by (simp add: run_pieces_def fun_eq_iff)
  moreover have "pieces_text ((id, text1) # ps) = text1 @ pieces_text ps" for text1 and ps :: "'a piece list"
    by (simp add: pieces_text_def)
  ultimately show ?thesis
    by (simp add: async_stream_builder_def in_order_builder_def out_of_order_builder_def Let_def run_pieces_joined
        pieces_text_joined assms run_pieces_append pieces_text_append)
qed

theorem async_sends_in_order_page_witness:
  "pieces_text (joined (map (\<lambda>p. [p])) (snd (async_stream_builder False
      (\<lparr>ap_setup = id, ap_out_of_order = [], ap_in_order = [(id, ''<p>''), (\<lambda>r. set_status r 404, ''</p>'')],
       ap_out_of_order_branching = [], ap_in_order_branching = [], ap_chunks = [(id, ''<script>'')], ap_prefetches = [], ap_manifest = None\<rparr> :: unit application) True)))
   = ''<p></p><script>''"
proof -
  let ?app = "\<lparr>ap_setup = id, ap_out_of_order = [], ap_in_order = [(id, ''<p>''), (\<lambda>r. set_status r 404, ''</p>'')],
       ap_out_of_order_branching = [], ap_in_order_branching = [], ap_chunks = [(id, ''<script>'')], ap_prefetches = [], ap_manifest = None\<rparr> :: unit application"
  have "concat (map (\<lambda>p. [p]) ps) = ps" for ps :: "unit piece list" by (induction ps) auto
  from async_sends_in_order_page [where batch = "map (\<lambda>p. [p])" and islands_router = False and app = ?app and ooo = True, OF this]
  have "pieces_text (joined (map (\<lambda>p. [p])) (snd (async_stream_builder False ?app True)))
      = pieces_text (joined (map (\<lambda>p. [p])) (snd (in_order_builder False ?app True)))"
    by (simp only: split_beta fst_conv snd_conv)
  also have "\<dots> = ''<p></p><script>''" by (simp add: in_order_builder_def pieces_text_def joined_def)
  finally show ?thesis .
qed

text \<open>C12: the response of a page is fixed by its first chunk. For a header map that behaves as documented, the
  status and headers are those of the response options at the moment when the first chunk and the work
  deferred until then are done: the status set last, otherwise 200, and each header merged with the content
  type of the page; nothing the application does to its options while later chunks are produced changes
  them. The body consists of all chunks of the stream, in order and once, an empty one when there are none; for
  \<open>HEAD\<close> none of it is produced.\<close>

theorem page_fixed_by_first_chunk:
  assumes "header_laws (pe_headers env)"
    and "handle_response_inner env islands_router additional app_fn build w thread reported req
         = Some (w', reported', logged, Inr (contexts, res))"
    and "app_fn contexts = app" and "build app (\<not> islands_navigation islands_router req) = (awaited, stream)"
    and "pe_inject env (preload_links (ap_prefetches app) (pe_nonce env) (ap_manifest app)) (joined (pe_batch env) stream) = pieces"
    and "await_deferred (pe_rounds env 0) (awaited (ap_setup app (parts_default (pe_headers env)))) = before"
    and "(case pieces of [] \<Rightarrow> before | (f, _) # _ \<Rightarrow> await_deferred (pe_rounds env 1) (f before)) = taken"
  shows "rs_status res = (case rp_status taken of Some s \<Rightarrow> s | None \<Rightarrow> 200)
     \<and> h_get_all (pe_headers env) (rs_headers res) k =
         merged k (if k = ''content-type'' then [pe_html env] else []) (h_get_all (pe_headers env) (rp_headers taken) k)
     \<and> (case polls (page_ops (pe_rounds env)) (max 1 (length pieces) + n) (rs_body res) False of (results, _, _) \<Rightarrow>
          results = (if nr_method req = ''HEAD'' then replicate (max 1 (length pieces) + n) End
                     else map Chunk (if pieces = [] then [[]] else map snd pieces) @ replicate n End))"
  using assms by (rule page_response)

text \<open>A page that sets its status with the first chunk and again with the second.\<close>

definition demo_env :: "((string \<times> string) list, string) page_env" where
  "demo_env = \<lparr>pe_headers = list_headers, pe_html = HTML_TYPE, pe_value = Some, pe_batch = map (\<lambda>p. [p]),
     pe_nonce = None, pe_inject = (\<lambda>_. id), pe_rounds = (\<lambda>_. [])\<rparr>"

definition demo_app :: "(string \<times> string) list application" where
  "demo_app = \<lparr>ap_setup = id, ap_out_of_order = [], ap_in_order = [(\<lambda>r. set_status r 404, ''<p>''), (\<lambda>r. set_status r 500, ''</p>'')],
     ap_out_of_order_branching = [], ap_in_order_branching = [], ap_chunks = [], ap_prefetches = [], ap_manifest = None\<rparr>"

definition demo_request :: native_request where
  "demo_request = \<lparr>nr_path = ''/p'', nr_query = ''q=1'', nr_method = ''GET'', nr_version = HTTP_11, nr_io = True, nr_headers = {}\<rparr>"

definition demo_scope :: "native_request world" where
  "demo_scope = the (open_scope world_init 0)"

theorem page_fixed_by_first_chunk_witness:
  "\<exists>w' tk res. handle_response_inner demo_env False ([] :: unit list) (\<lambda>_. demo_app) (in_order_builder False) demo_scope 0 False demo_request
      = Some (w', False, [], Inr ([Request_Url ''http://leptos/p?q=1'', Meta_Context, Response_Options, Request_Handle tk,
          Server_Redirect, Nonce], res))
    \<and> rs_status res = 404"
proof -
  let ?r = "handle_response_inner demo_env False ([] :: unit list) (\<lambda>_. demo_app) (in_order_builder False) demo_scope 0 False demo_request"
  have "\<exists>w' tk res. ?r = Some (w', False, [], Inr ([Request_Url ''http://leptos/p?q=1'', Meta_Context, Response_Options,
      Request_Handle tk, Server_Redirect, Nonce], res))"
    by (simp add: handle_response_inner_def scoped_request_def try_new_def current_registry_def demo_scope_def open_scope_def
        world_init_def set_scope_def is_open_def usize_max_def provide_contexts_def access_def find_registry_def Let_def
        page_contexts_def islands_navigation_def demo_request_def leptos_corrected_path_def)
  then obtain w' tk res where r: "?r = Some (w', False, [], Inr ([Request_Url ''http://leptos/p?q=1'', Meta_Context, Response_Options,
      Request_Handle tk, Server_Redirect, Nonce], res))" by blast
  have h: "header_laws (pe_headers demo_env)" by (simp add: demo_env_def list_headers_laws)
  have "rs_status res = 404"
    using conjunct1 [OF page_fixed_by_first_chunk [OF h r refl _ refl refl refl, of id "ap_in_order demo_app"]]
    by (simp add: in_order_builder_def demo_app_def demo_env_def joined_def run_pieces_def await_deferred_def set_status_def
        islands_navigation_def)
  with r show ?thesis by blast
qed

text \<open>A request outside every scope is refused without running the application. In every reachable state of
  the scopes, a page request is answered with a bare 500 precisely when its thread has no open scope, and the
  cause is logged with the first such request only. Otherwise the application runs, unless the identifiers of the
  scope are exhausted, with the corrected URL and a handle that reaches this very request among the first of
  its contexts, followed by the caller's own, and the mark of an islands navigation last.\<close>

theorem page_refused_without_scope:
  assumes "scope_reachable w"
  shows "case handle_response_inner env islands_router additional app_fn build w thread reported req of
     None \<Rightarrow> (\<exists>sid sc. current_registry w thread = Some sid \<and> w_scopes w sid = Some sc \<and> usize_max < sc_next sc + 1)
   | Some (w', reported', logged, Inl response) \<Rightarrow>
       current_registry w thread = None \<and> w' = w \<and> response = internal_server_error (pe_headers env)
       \<and> reported' \<and> logged = snd (report_missing_scope reported MissingScope)
   | Some (w', reported', logged, Inr (contexts, res)) \<Rightarrow>
       current_registry w thread \<noteq> None \<and> reported' = reported \<and> logged = []
       \<and> (\<exists>tk. access w' thread tk = Inr req
            \<and> contexts = [Request_Url (leptos_corrected_path req), Meta_Context, Response_Options, Request_Handle tk,
                Server_Redirect, Nonce] @ map Application_Context additional
                @ (if islands_navigation islands_router req then [Islands_Router_Navigation] else []))"
proof -
  have inv: "world_inv w" using assms by (rule scope_reachable_inv)
  show ?thesis
  proof (cases "try_new w thread req")
    case None
    then have "\<exists>sid sc. current_registry w thread = Some sid \<and> w_scopes w sid = Some sc \<and> usize_max < sc_next sc + 1"
      by (auto simp: try_new_def Let_def split: option.splits if_splits)
    with None show ?thesis by (simp add: handle_response_inner_def scoped_request_def)
  next
    case (Some p)
    obtain w' r where p: "p = (w', r)" by fastforce
    show ?thesis
    proof (cases r)
      case (Inl e)
      with Some p have r: "try_new w thread req = Some (w', Inl e)" by simp
      then have none: "current_registry w thread = None" "w' = w" "e = MissingScope" unfolding try_new_refused [OF inv] by auto
      show ?thesis
        using none by (simp add: handle_response_inner_def scoped_request_def r report_missing_scope_def)
    next
      case (Inr tk)
      with Some p have new: "try_new w thread req = Some (w', Inr tk)" by simp
      have "current_registry w thread \<noteq> None" using new by (auto simp: try_new_def split: option.splits)
      moreover have "access w' thread tk = Inr req" by (rule try_new_access [OF inv new])
      ultimately show ?thesis
        by (simp add: handle_response_inner_def scoped_request_def new provide_contexts_def page_contexts_def Let_def)
    qed
  qed
qed

theorem page_refused_without_scope_witness:
  "\<exists>logged. handle_response_inner demo_env False ([] :: unit list) (\<lambda>_. demo_app) (in_order_builder False) world_init 0 False demo_request
     = Some (world_init, True, logged, Inl \<lparr>rs_status = 500, rs_headers = [], rs_body = ()\<rparr>)"
proof -
  have none: "current_registry (world_init :: native_request world) 0 = None" by (simp add: current_registry_def world_init_def)
  let ?r = "handle_response_inner demo_env False ([] :: unit list) (\<lambda>_. demo_app) (in_order_builder False) world_init 0 False demo_request"
  note refused = page_refused_without_scope [OF scope_reachable.start, where env = demo_env and islands_router = False
      and additional = "[] :: unit list" and app_fn = "\<lambda>_. demo_app" and build = "in_order_builder False"
      and thread = 0 and reported = False and req = demo_request]
  show ?thesis
  proof (cases ?r)
    case None
    with refused none show ?thesis by simp
  next
    case (Some p)
    obtain w' reported' logged out where "p = (w', reported', logged, out)" by (cases p)
    with Some refused none have "\<exists>response. out = Inl response \<and> w' = world_init \<and> reported' \<and> response = internal_server_error (pe_headers demo_env)"
      by (cases out) auto
    with Some \<open>p = _\<close> show ?thesis by (auto simp: internal_server_error_def demo_env_def list_headers_def)
  qed
qed

end
