(* ===== verification/Extractors.thy ===== *)
theory Extractors
  imports Page_Render
begin

text \<open>
  Extraction from the request in a server function (\<^verbatim>\<open>src/extract.rs\<close>) and the release of a batch of native requests
  (\<open>drop_entries\<close> of \<^verbatim>\<open>src/request.rs\<close>). The extractor of ntex is an argument: its value, or its error as displayed.
  A destructor of an entry is an argument as well: it returns, or unwinds with a payload.
\<close>

section \<open>Extractors\<close>

datatype server_fn_error = Server_Error string

definition extract_with_err ::
  "'r world \<Rightarrow> nat \<Rightarrow> token option \<Rightarrow> ('r \<Rightarrow> string + 't) \<Rightarrow> server_fn_error + 't" where
  "extract_with_err w thread ctx from_request =
     (case ctx of
        None \<Rightarrow> Inl (Server_Error ''HttpRequest should have been provided via context'')
      | Some tk \<Rightarrow>
          (case access w thread tk of
             Inl e \<Rightarrow> Inl (Server_Error (''Cannot access the request for extraction: '' @ access_error_message e))
           | Inr req \<Rightarrow>
               (case from_request req of
                  Inl e \<Rightarrow> Inl (Server_Error e)
                | Inr v \<Rightarrow> Inr v)))"

lemma access_error_message_inj: "access_error_message e = access_error_message e' \<longleftrightarrow> e = e'"
  by (cases e; cases e') simp_all

section \<open>Releasing a batch\<close>

text \<open>The entries dropped so far and the first panic; entries are dropped in order whatever their destructors do.\<close>

fun drop_loop :: "('e \<Rightarrow> 'p option) \<Rightarrow> 'e list \<Rightarrow> 'e list \<Rightarrow> 'p option \<Rightarrow> 'e list \<times> 'p option" where
  "drop_loop destroy [] dropped first = (dropped, first)"
| "drop_loop destroy (e # es) dropped first =
     drop_loop destroy es (dropped @ [e])
       (case destroy e of Some p \<Rightarrow> (if first = None then Some p else first) | None \<Rightarrow> first)"

text \<open>The panic that is resumed afterwards, if any.\<close>

definition drop_entries :: "bool \<Rightarrow> ('e \<Rightarrow> 'p option) \<Rightarrow> 'e list \<Rightarrow> 'e list \<times> 'p option" where
  "drop_entries unwinding destroy es =
     (case drop_loop destroy es [] None of
        (dropped, first) \<Rightarrow> (dropped, if unwinding then None else first))"

lemma drop_loop_eq:
  "drop_loop destroy es dropped first =
     (dropped @ es,
      case first of Some p \<Rightarrow> Some p | None \<Rightarrow> Option.bind (find (\<lambda>e. destroy e \<noteq> None) es) destroy)"
  by (induction es arbitrary: dropped first) (auto split: option.splits)

text \<open>Every entry of the batch is dropped, once and in order; then the first panic is resumed, unless one is
  under way already.\<close>

lemma drop_entries_complete:
  "drop_entries unwinding destroy es =
     (es, if unwinding then None else Option.bind (find (\<lambda>e. destroy e \<noteq> None) es) destroy)"
  by (simp add: drop_entries_def drop_loop_eq)

section \<open>Properties\<close>

text \<open>An extractor runs exactly when its request is within reach. In every reachable state of the scopes, for
  a handle that has not been dropped, the extractor is applied to the very request of the handle precisely on
  its origin thread and while its scope is open, and its outcome, error text included, is the result; without
  a handle in the context, elsewhere or afterwards the error says which of these was the case.\<close>

theorem extraction_exact:
  assumes "scope_reachable w" and "\<And>tk. ctx = Some tk \<Longrightarrow> w_handles w tk \<noteq> 0"
  shows "extract_with_err w thread ctx from_request =
     (case ctx of
        None \<Rightarrow> Inl (Server_Error ''HttpRequest should have been provided via context'')
      | Some tk \<Rightarrow>
          if thread \<noteq> tk_origin tk
          then Inl (Server_Error ''Cannot access the request for extraction: request access requires its origin thread'')
          else case w_scopes w (tk_scope tk) of
                 Some sc \<Rightarrow>
                   if sc_closed sc
                   then Inl (Server_Error ''Cannot access the request for extraction: request scope is closed'')
                   else (case from_request (the (sc_entries sc (tk_id tk))) of
                           Inl e \<Rightarrow> Inl (Server_Error e) | Inr v \<Rightarrow> Inr v)
               | None \<Rightarrow> Inl (Server_Error ''Cannot access the request for extraction: request scope is closed''))"
proof (cases ctx)
  case (Some tk)
  have inv: "world_inv w" using assms(1) by (rule scope_reachable_inv)
  obtain sc where sc: "w_scopes w (tk_scope tk) = Some sc" "tk_origin tk = sc_thread sc"
    "\<not> sc_closed sc \<Longrightarrow> sc_entries sc (tk_id tk) \<noteq> None"
    using world_invD(2) [OF inv assms(2) [OF Some]] by (auto simp: token_ok_def)
  show ?thesis
  proof (cases "sc_closed sc")
    case True
    then have "\<not> is_open w (tk_scope tk)" using sc by (simp add: is_open_def)
    then have "find_registry w thread (tk_scope tk) = None"
      using find_registry_Some [of w thread "tk_scope tk"] by (cases "find_registry w thread (tk_scope tk)") auto
    with Some True sc show ?thesis by (auto simp: extract_with_err_def access_def)
  next
    case False
    then obtain native where n: "sc_entries sc (tk_id tk) = Some native" using sc(3) by blast
    from Some False sc n find_registry_open [OF inv sc(1)] show ?thesis by (auto simp: extract_with_err_def access_def)
  qed
qed (simp add: extract_with_err_def)

theorem extraction_exact_witness:
  "extract_with_err demo_world 7 (Some demo_token) (\<lambda>r. if r = ''GET /'' then Inr (5 :: nat) else Inl ''no'') = Inr 5"
proof -
  have "w_handles demo_world tk \<noteq> 0" if "Some demo_token = Some tk" for tk
    using that by (simp add: demo_world_unfold)
  from extraction_exact [where ctx = "Some demo_token", OF demo_world_reachable this, where thread = 7 and from_request = "\<lambda>r. if r = ''GET /'' then Inr (5 :: nat) else Inl ''no''"]
  show ?thesis by (simp add: demo_world_unfold demo_token_def)
qed

end
