(* ===== verification/Route_Config.thy ===== *)
theory Route_Config
  imports Page_Render
begin

text \<open>
  Registration on a \<open>ServiceConfig\<close> (the second implementation of \<open>LeptosRoutes\<close> in \<^verbatim>\<open>src/leptos_routes.rs\<close>) and the
  well-formedness of generated lists and registered routes. The configuration grows by one route at a time, on
  top of the routes it already has; \<open>leptos_routes\<close> of \<open>Routes\<close> models the implementation for an \<open>App\<close>.
\<close>

section \<open>Registration on a configuration\<close>

fun config_server_fns ::
  "'f registry \<Rightarrow> ('f \<Rightarrow> string) \<Rightarrow> string list \<Rightarrow> 'f route list \<Rightarrow> (string \<times> string) list \<Rightarrow> 'f route list" where
  "config_server_fns reg method_of excluded router [] = router"
| "config_server_fns reg method_of excluded router ((path, m) # rest) =
     (if path \<notin> set excluded
      then case lookup_server_fn reg path m of
             Some f \<Rightarrow> config_server_fns reg method_of excluded
               (router @ [\<lparr>rt_path = path, rt_guard = (\<lambda>x. x = method_of f), rt_handler = Server_Fn f\<rparr>]) rest
           | None \<Rightarrow> config_server_fns reg method_of excluded router rest
      else config_server_fns reg method_of excluded router rest)"

text \<open>The handler for a listing of a static mode, or by its mode.\<close>

definition config_handler :: "ntex_route_listing \<Rightarrow> 'f handler" where
  "config_handler l =
     (if nl_mode l = Static_Mode then Static_Page (nl_runtime l)
      else case nl_mode l of
             OutOfOrder \<Rightarrow> Stream_Out_Of_Order
           | PartiallyBlocked \<Rightarrow> Stream_Out_Of_Order
           | InOrder \<Rightarrow> Stream_In_Order
           | Async \<Rightarrow> Render_Async
           | _ \<Rightarrow> Unsupported_Mode)"

fun config_methods :: "ntex_route_listing \<Rightarrow> 'f route list \<Rightarrow> router_method list \<Rightarrow> 'f route list" where
  "config_methods l router [] = router"
| "config_methods l router (m # ms) =
     config_methods l (router @ [\<lparr>rt_path = nl_path l, rt_guard = handle_response_guard m, rt_handler = config_handler l\<rparr>]) ms"

fun config_listings :: "'f route list \<Rightarrow> ntex_route_listing list \<Rightarrow> 'f route list" where
  "config_listings router [] = router"
| "config_listings router (l # ls) = config_listings (config_methods l router (nl_methods l)) ls"

definition config_leptos_routes ::
  "'f route list \<Rightarrow> string list \<Rightarrow> 'f registry \<Rightarrow> ('f \<Rightarrow> string) \<Rightarrow> ntex_route_listing list \<Rightarrow> 'f route list" where
  "config_leptos_routes router keys reg method_of paths =
     (let excluded = map nl_path (filter nl_exclude paths);
          router = config_server_fns reg method_of excluded router (server_fn_paths keys reg)
      in config_listings router (filter (\<lambda>p. \<not> nl_exclude p) paths))"

definition register_leptos_routes ::
  "'f route list \<Rightarrow> string list \<Rightarrow> 'f registry \<Rightarrow> ('f \<Rightarrow> string) \<Rightarrow> ntex_route_listing list \<Rightarrow> 'f route list" where
  "register_leptos_routes cfg keys reg method_of paths = config_leptos_routes cfg keys reg method_of paths"

section \<open>Lemmas\<close>

lemma config_server_fns_eq:
  "config_server_fns reg method_of excluded router paths = router @ concat (map (\<lambda>(path, m).
       if path \<in> set excluded then []
       else case lookup_server_fn reg path m of
              None \<Rightarrow> []
            | Some f \<Rightarrow> [\<lparr>rt_path = path, rt_guard = (\<lambda>x. x = method_of f), rt_handler = Server_Fn f\<rparr>]) paths)"
  by (induction reg method_of excluded router paths rule: config_server_fns.induct) (auto split: option.splits)

lemma config_handler_eq: "config_handler l = handler_of (nl_mode l) (nl_runtime l)"
  by (cases "nl_mode l") (simp_all add: config_handler_def)

lemma handle_response_guard_method: "handle_response_guard m = method_guard m"
  by (rule ext) (rule handle_response_guard_eq)

lemma config_methods_eq:
  "config_methods l router ms = router @
     map (\<lambda>m. \<lparr>rt_path = nl_path l, rt_guard = method_guard m, rt_handler = handler_of (nl_mode l) (nl_runtime l)\<rparr>) ms"
  by (induction ms arbitrary: router) (simp_all add: config_handler_eq handle_response_guard_method)

lemma config_listings_eq: "config_listings router ls = router @ concat (map listing_routes ls)"
  by (induction ls arbitrary: router) (simp_all add: config_methods_eq listing_routes_def)

section \<open>Well-formedness\<close>

text \<open>A listing of a generated list: the mark of an excluded path registers nothing and has a runtime of its own; a
  page has a rooted path and the runtime of the list, unless it is the shell of an application without pages.\<close>

definition well_formed_listing :: "nat \<Rightarrow> ssr_mode \<Rightarrow> ntex_route_listing \<Rightarrow> bool" where
  "well_formed_listing runtime default_mode l \<longleftrightarrow>
     (if nl_exclude l then nl_methods l = [] \<and> nl_runtime l = Own
      else take 1 (nl_path l) = ''/''
        \<and> (nl_runtime l = Generated runtime
           \<or> nl_runtime l = Shared \<and> nl_path l = ''/'' \<and> nl_methods l = [RGet] \<and> nl_mode l = default_mode))"

text \<open>A registered route: a server function is bound to a single method; a page has a rooted path and the guard of one of
  the router's methods; a static page is served from the runtime of its list.\<close>

fun well_formed_handler :: "nat \<Rightarrow> ssr_mode \<Rightarrow> 'f route \<Rightarrow> 'f handler \<Rightarrow> bool" where
  "well_formed_handler runtime default_mode r (Server_Fn f) \<longleftrightarrow> (\<exists>m. rt_guard r = (\<lambda>x. x = m))"
| "well_formed_handler runtime default_mode r (Static_Page ref) \<longleftrightarrow>
     take 1 (rt_path r) = ''/'' \<and> rt_guard r \<in> range method_guard
     \<and> (ref = Generated runtime \<or> ref = Shared \<and> default_mode = Static_Mode)"
| "well_formed_handler runtime default_mode r _ \<longleftrightarrow> take 1 (rt_path r) = ''/'' \<and> rt_guard r \<in> range method_guard"

definition well_formed_route :: "nat \<Rightarrow> ssr_mode \<Rightarrow> 'f route \<Rightarrow> bool" where
  "well_formed_route runtime default_mode r \<longleftrightarrow> well_formed_handler runtime default_mode r (rt_handler r)"

lemma segment_text_rooted: "segment_text seg = [] \<or> take 1 (segment_text seg) = ''/''"
  by (cases seg) (auto simp: take_Suc)

lemma to_ntex_path_rooted: "to_ntex_path segments = [] \<or> take 1 (to_ntex_path segments) = ''/''"
  unfolding to_ntex_path_concat
proof (induction segments)
  case (Cons seg rest)
  with segment_text_rooted [of seg] show ?case by (cases "segment_text seg") auto
qed simp

lemma route_path_rooted: "take 1 (route_path segments) = ''/''"
  using to_ntex_path_rooted [of segments] by (auto simp: route_path_def)

lemma listed_well_formed: "l \<in> set (listed expand runtime routes) \<Longrightarrow> well_formed_listing runtime default_mode l"
  using route_path_rooted by (auto simp: listed_def well_formed_listing_def)

lemma generated_well_formed:
  assumes "l \<in> set (generate_route_list expand default_mode runtime routes ex)"
  shows "well_formed_listing runtime default_mode l"
proof -
  let ?served = "if listed expand runtime routes = [] then [listing_new ''/'' default_mode [RGet]] else listed expand runtime routes"
  from assms consider "l \<in> set ?served" | path where "l = (listing_new path default_mode [])\<lparr>nl_exclude := True, nl_runtime := Own\<rparr>"
    by (auto simp: generate_route_list_def Let_def generate_listed split: option.splits if_splits)
  then show ?thesis
  proof cases
    case 1
    then show ?thesis
      using listed_well_formed [of l expand runtime routes default_mode]
      by (auto simp: well_formed_listing_def listing_new_def split: if_splits)
  next
    case 2
    then show ?thesis by (simp add: well_formed_listing_def listing_new_def)
  qed
qed

lemma listing_routes_well_formed:
  assumes "well_formed_listing runtime default_mode l" "\<not> nl_exclude l" "r \<in> set (listing_routes l)"
  shows "well_formed_route runtime default_mode r"
proof -
  from assms(3) obtain m where "r = \<lparr>rt_path = nl_path l, rt_guard = method_guard m, rt_handler = handler_of (nl_mode l) (nl_runtime l)\<rparr>"
    by (auto simp: listing_routes_def)
  with assms(1,2) show ?thesis
    by (cases "nl_mode l") (auto simp: well_formed_listing_def well_formed_route_def)
qed

lemma server_fn_routes_well_formed:
  "r \<in> set (server_fn_routes keys reg method_of excluded) \<Longrightarrow> well_formed_route runtime default_mode r"
  by (auto simp: server_fn_routes_def well_formed_route_def split: if_splits option.splits)

section \<open>Properties\<close>


text \<open>The two implementations of the registration agree. Registering a list on a \<open>ServiceConfig\<close> adds, behind
  the routes it already has, exactly the routes that an \<open>App\<close> gets, in the same order.\<close>

theorem config_registration_agrees:
  "register_leptos_routes router keys reg method_of paths = router @ leptos_routes keys reg method_of paths"
  by (simp add: register_leptos_routes_def config_leptos_routes_def leptos_routes_def server_fn_routes_def Let_def
      config_server_fns_eq config_listings_eq)

end
