(* ===== verification/Owner_Scope.thy ===== *)
theory Owner_Scope
  imports Main
begin

text \<open>
  Lifetime of a request's reactive owner (\<^verbatim>\<open>src/owner.rs\<close>, and the tasks of \<^verbatim>\<open>src/server_fn/mod.rs\<close>): the cleanup guard
  shared by the dispatch, the response body and spawned tasks, and the guards that keep each thread's current
  owner intact around every poll and destructor of third-party code.

  The reactive system is third-party. Of it the model has, for each thread, the current owner, and two operations:
  \<open>ow_set\<close> and \<open>ow_unset\<close> give the current owner after \<open>Owner::set\<close> and \<open>Owner::unset\<close>. What a producer's poll or
  destructor, or a cleanup callback, leaves as current owner is arbitrary, whether it returns or unwinds: every
  guard below is a destructor, which runs either way. (A second panic while unwinding aborts the process.)
\<close>

section \<open>Guards\<close>

record owner_ops =
  ow_set :: "nat \<Rightarrow> nat option \<Rightarrow> nat option"
  ow_unset :: "nat \<Rightarrow> nat option \<Rightarrow> nat option"

text \<open>Setting makes an owner current; unsetting the current one leaves none.\<close>

definition owner_laws :: "owner_ops \<Rightarrow> bool" where
  "owner_laws ops \<longleftrightarrow> (\<forall>w c. ow_set ops w c = Some w) \<and> (\<forall>w. ow_unset ops w (Some w) = None)"

text \<open>Dropping \<open>RestoreOwner\<close>, for the captured and the current owner.\<close>

definition restore :: "owner_ops \<Rightarrow> nat option \<Rightarrow> nat option \<Rightarrow> nat option" where
  "restore ops previous current =
     (case previous of
        Some p \<Rightarrow> ow_set ops p current
      | None \<Rightarrow> (case current of Some c \<Rightarrow> ow_unset ops c current | None \<Rightarrow> None))"

section \<open>Holders of the guard\<close>

text \<open>A response body or chunk stream holds the guard through an \<open>OwnerLease\<close>; a task, like the dispatch itself,
  through its future, which \<open>ScopedWork\<close> keeps in the scope it was created in.\<close>

datatype holder = Lease | Task nat

text \<open>A poll and the destruction of a producer, with the thread, the kind of its holder and the owner current inside.\<close>

datatype owner_event =
    Polled nat holder "nat option"
  | Destroyed nat holder "nat option"
  | Forced
  | Leaked

record owner_state =
  os_origin :: nat
  os_owner :: nat
  os_holders :: "nat \<Rightarrow> holder option"
  os_used :: "nat set"
  os_current :: "nat \<Rightarrow> nat option"
  os_events :: "owner_event list"

text \<open>The current owner inside: \<open>with_context\<close> sets the request's owner on its own thread only, while a scope is
  entered on whatever thread polls it.\<close>

fun entered :: "owner_ops \<Rightarrow> owner_state \<Rightarrow> nat \<Rightarrow> holder \<Rightarrow> nat option" where
  "entered ops s t Lease = (if t = os_origin s then ow_set ops (os_owner s) (os_current s t) else os_current s t)"
| "entered ops s t (Task scope) = ow_set ops scope (os_current s t)"

definition set_current :: "owner_state \<Rightarrow> nat \<Rightarrow> nat option \<Rightarrow> owner_state" where
  "set_current s t c = s\<lparr>os_current := (os_current s)(t := c)\<rparr>"

definition log_event :: "owner_state \<Rightarrow> owner_event \<Rightarrow> owner_state" where
  "log_event s e = s\<lparr>os_events := os_events s @ [e]\<rparr>"

section \<open>Operations\<close>

text \<open>\<open>OwnerLease::poll_next\<close>, \<open>poll_next_chunk\<close> and \<open>ScopedWork::poll_in_scope\<close>: \<open>x\<close> is what the poll leaves.\<close>

definition poll_holder :: "owner_ops \<Rightarrow> owner_state \<Rightarrow> nat \<Rightarrow> holder \<Rightarrow> nat option \<Rightarrow> owner_state" where
  "poll_holder ops s t k x =
     set_current (log_event s (Polled t k (entered ops s t k))) t (restore ops (os_current s t) x)"

text \<open>Dropping the last reference runs \<open>OwnerCleanup::drop\<close>: cleanup on the origin thread, a leak elsewhere.\<close>

definition cleanup_drop :: "owner_ops \<Rightarrow> owner_state \<Rightarrow> nat \<Rightarrow> nat option \<Rightarrow> owner_state" where
  "cleanup_drop ops s t x =
     (if t = os_origin s then set_current (log_event s Forced) t (restore ops (os_current s t) x)
      else log_event s Leaked)"

definition release_guard :: "owner_ops \<Rightarrow> owner_state \<Rightarrow> nat \<Rightarrow> nat \<Rightarrow> nat option \<Rightarrow> owner_state" where
  "release_guard ops s t i x =
     (let s' = s\<lparr>os_holders := (os_holders s)(i := None)\<rparr>
      in if \<forall>j. os_holders s' j = None then cleanup_drop ops s' t x else s')"

text \<open>\<open>OwnerLease::drop\<close> and \<open>ScopedWork::drop\<close>: the producer first, then the guard, then the caller's owner. Only
  the lease restores the caller's owner in between; \<open>x\<close> and \<open>y\<close> are what the destructor and the cleanup leave.\<close>

definition drop_holder :: "owner_ops \<Rightarrow> owner_state \<Rightarrow> nat \<Rightarrow> nat \<Rightarrow> holder \<Rightarrow> nat option \<Rightarrow> nat option \<Rightarrow> owner_state" where
  "drop_holder ops s t i k x y =
     (let previous = os_current s t;
          s1 = log_event s (Destroyed t k (entered ops s t k));
          s2 = set_current s1 t (if k = Lease then restore ops previous x else x);
          s3 = release_guard ops s2 t i y
      in set_current s3 t (restore ops previous (os_current s3 t)))"

text \<open>\<open>Server::spawn\<close>: the weak reference is upgraded while any holder is left; a later task holds nothing.\<close>

definition spawn_task :: "owner_state \<Rightarrow> nat \<Rightarrow> nat \<Rightarrow> owner_state" where
  "spawn_task s i scope =
     (if \<forall>j. os_holders s j = None then s
      else s\<lparr>os_holders := (os_holders s)(i \<mapsto> Task scope), os_used := insert i (os_used s)\<rparr>)"

text \<open>\<open>with_owner_cleanup\<close>: the reference moves from the dispatch into the lease of the body.\<close>

definition hand_over :: "owner_state \<Rightarrow> nat \<Rightarrow> nat \<Rightarrow> owner_state" where
  "hand_over s i j = s\<lparr>os_holders := (os_holders s)(i := None, j \<mapsto> Lease), os_used := insert j (os_used s)\<rparr>"

inductive owner_step :: "owner_ops \<Rightarrow> owner_state \<Rightarrow> owner_state \<Rightarrow> bool" for ops where
  spawned: "i \<notin> os_used s \<Longrightarrow> owner_step ops s (spawn_task s i scope)"
| handed: "os_holders s i = Some (Task scope) \<Longrightarrow> j \<notin> os_used s \<Longrightarrow> owner_step ops s (hand_over s i j)"
| polled: "os_holders s i = Some k \<Longrightarrow> owner_step ops s (poll_holder ops s t k x)"
| dropped: "os_holders s i = Some k \<Longrightarrow> owner_step ops s (drop_holder ops s t i k x y)"

text \<open>A dispatch begins on its origin thread as the only holder, number 0, in the owner's own scope.\<close>

definition owner_start :: "nat \<Rightarrow> nat \<Rightarrow> (nat \<Rightarrow> nat option) \<Rightarrow> owner_state" where
  "owner_start origin owner current =
     \<lparr>os_origin = origin, os_owner = owner, os_holders = [0 \<mapsto> Task owner], os_used = {0}, os_current = current,
      os_events = []\<rparr>"

inductive owner_reachable :: "owner_ops \<Rightarrow> nat \<Rightarrow> nat \<Rightarrow> (nat \<Rightarrow> nat option) \<Rightarrow> owner_state \<Rightarrow> bool"
  for ops origin owner current where
  begun: "owner_reachable ops origin owner current (owner_start origin owner current)"
| stepped: "owner_reachable ops origin owner current s \<Longrightarrow> owner_step ops s s' \<Longrightarrow> owner_reachable ops origin owner current s'"

section \<open>Invariant\<close>

fun ends_owner :: "owner_event \<Rightarrow> bool" where
  "ends_owner Forced \<longleftrightarrow> True"
| "ends_owner Leaked \<longleftrightarrow> True"
| "ends_owner _ \<longleftrightarrow> False"

text \<open>Inside a lease on the origin thread the request's owner is current, elsewhere the caller's; a task is in its scope.\<close>

fun scope_seen :: "nat \<Rightarrow> nat \<Rightarrow> (nat \<Rightarrow> nat option) \<Rightarrow> nat \<Rightarrow> holder \<Rightarrow> nat option" where
  "scope_seen origin owner current t Lease = (if t = origin then Some owner else current t)"
| "scope_seen origin owner current t (Task scope) = Some scope"

fun in_scope :: "nat \<Rightarrow> nat \<Rightarrow> (nat \<Rightarrow> nat option) \<Rightarrow> owner_event \<Rightarrow> bool" where
  "in_scope origin owner current (Polled t k seen) \<longleftrightarrow> seen = scope_seen origin owner current t k"
| "in_scope origin owner current (Destroyed t k seen) \<longleftrightarrow> seen = scope_seen origin owner current t k"
| "in_scope origin owner current _ \<longleftrightarrow> True"

text \<open>How the events end once no holder is left: with the destruction of the last producer and then the cleanup, or
  a leak if that happened away from the origin thread.\<close>

definition settled :: "nat \<Rightarrow> owner_event list \<Rightarrow> bool" where
  "settled origin events \<longleftrightarrow> (\<exists>es t k seen. events = es @ [Destroyed t k seen, if t = origin then Forced else Leaked]
     \<and> (\<forall>e \<in> set es. \<not> ends_owner e))"

definition owner_ok :: "nat \<Rightarrow> nat \<Rightarrow> (nat \<Rightarrow> nat option) \<Rightarrow> owner_state \<Rightarrow> bool" where
  "owner_ok origin owner current s \<longleftrightarrow> os_current s = current \<and> os_origin s = origin \<and> os_owner s = owner
     \<and> (\<forall>i. os_holders s i \<noteq> None \<longrightarrow> i \<in> os_used s)
     \<and> (\<forall>e \<in> set (os_events s). in_scope origin owner current e)
     \<and> (if \<forall>j. os_holders s j = None then settled origin (os_events s) else \<forall>e \<in> set (os_events s). \<not> ends_owner e)"

lemma restore_exact: "owner_laws ops \<Longrightarrow> restore ops previous current = previous"
  by (auto simp: restore_def owner_laws_def split: option.splits)

lemmas owner_defs = set_current_def log_event_def poll_holder_def cleanup_drop_def release_guard_def drop_holder_def
  spawn_task_def hand_over_def

lemma entered_seen:
  assumes "owner_laws ops" "owner_ok origin owner current s"
  shows "entered ops s t k = scope_seen origin owner current t k"
  using assms by (cases k) (auto simp: owner_ok_def owner_laws_def)

lemma owner_ok_start: "owner_ok origin owner current (owner_start origin owner current)"
  by (auto simp: owner_ok_def owner_start_def)

lemma drop_holder_ok:
  assumes "owner_laws ops" "owner_ok origin owner current s" "os_holders s i = Some k"
  shows "owner_ok origin owner current (drop_holder ops s t i k x y)"
proof -
  define h where "h = (os_holders s)(i := None)"
  define r where "r = drop_holder ops s t i k x y"
  define d where "d = Destroyed t k (scope_seen origin owner current t k)"
  have live: "\<not> (\<forall>j. os_holders s j = None)" using assms(3) by auto
  with assms(2) have s: "os_current s = current" "os_origin s = origin" "os_owner s = owner"
    and none: "\<forall>e \<in> set (os_events s). \<not> ends_owner e" and sc: "\<forall>e \<in> set (os_events s). in_scope origin owner current e"
    and used: "\<forall>i. os_holders s i \<noteq> None \<longrightarrow> i \<in> os_used s" by (simp_all add: owner_ok_def)
  have "os_current r = current" "os_holders r = h" "os_used r = os_used s" "os_origin r = origin" "os_owner r = owner"
    by (simp_all add: r_def owner_defs restore_exact [OF assms(1)] s h_def Let_def fun_eq_iff)
  moreover have ev: "os_events r =
      (if \<forall>j. h j = None then os_events s @ [d, if t = origin then Forced else Leaked] else os_events s @ [d])"
    by (simp add: r_def d_def owner_defs h_def s Let_def entered_seen [OF assms(1,2)])
  moreover have "\<forall>i. h i \<noteq> None \<longrightarrow> i \<in> os_used s" using used by (auto simp: h_def)
  moreover have "\<forall>e \<in> set (os_events r). in_scope origin owner current e" using sc by (auto simp: ev d_def)
  moreover have "\<forall>j. h j = None \<Longrightarrow> settled origin (os_events r)" using none by (auto simp: ev d_def settled_def)
  moreover have "\<not> (\<forall>j. h j = None) \<Longrightarrow> \<forall>e \<in> set (os_events r). \<not> ends_owner e" using none by (auto simp: ev d_def)
  ultimately show ?thesis unfolding owner_ok_def r_def [symmetric] by simp
qed

lemma owner_step_ok:
  assumes "owner_laws ops" "owner_step ops s s'" "owner_ok origin owner current s"
  shows "owner_ok origin owner current s'"
  using assms(2)
proof cases
  case (spawned i scope)
  with assms(3) show ?thesis by (auto simp: owner_ok_def spawn_task_def)
next
  case (handed i scope j)
  then have live: "\<not> (\<forall>j. os_holders s j = None)" by auto
  with assms(3) handed show ?thesis unfolding owner_ok_def hand_over_def by auto
next
  case (polled i k t x)
  then have live: "\<not> (\<forall>j. os_holders s j = None)" by auto
  have "(os_current s)(t := os_current s t) = os_current s" by (simp add: fun_eq_iff)
  with assms(3) polled live show ?thesis
    unfolding owner_ok_def by (auto simp: owner_defs restore_exact [OF assms(1)] entered_seen [OF assms(1,3)])
next
  case (dropped i k t x y)
  with drop_holder_ok [OF assms(1,3) dropped(2)] show ?thesis by simp
qed

lemma reachable_owner_ok:
  assumes "owner_reachable ops origin owner current s" "owner_laws ops"
  shows "owner_ok origin owner current s"
  using assms by (induction rule: owner_reachable.induct) (auto intro: owner_step_ok owner_ok_start)

definition plain_owners :: owner_ops where
  "plain_owners = \<lparr>ow_set = (\<lambda>w _. Some w), ow_unset = (\<lambda>w c. if c = Some w then None else c)\<rparr>"

lemma plain_owner_laws: "owner_laws plain_owners"
  by (simp add: owner_laws_def plain_owners_def)

section \<open>Property\<close>

text \<open>C10: a request's owner outlives everything that runs in it, and never escapes. However the response body and any
  number of spawned tasks are polled, moved between threads and destroyed, and whatever third-party code does to the
  current owner, returning or unwinding: every thread has its own owner back after every step; a producer is polled
  and destroyed with the request's owner current (on its thread) or in its own scope; and the owner is cleaned up,
  or leaked if its last holder goes away on a foreign thread, exactly once, after the last producer is gone.\<close>

theorem owner_outlives_producers:
  assumes "owner_laws ops" and "owner_reachable ops origin owner current s"
  shows "os_current s = current \<and> (\<forall>e \<in> set (os_events s). in_scope origin owner current e)
    \<and> (if \<forall>i. os_holders s i = None
       then \<exists>es t k seen. os_events s = es @ [Destroyed t k seen, if t = origin then Forced else Leaked]
         \<and> (\<forall>e \<in> set es. \<not> ends_owner e)
       else \<forall>e \<in> set (os_events s). \<not> ends_owner e)"
  using reachable_owner_ok [OF assms(2,1)] 
  unfolding owner_ok_def settled_def by (elim conjE, intro conjI) assumption+

theorem owner_outlives_producers_witness:
  "\<exists>s. owner_reachable plain_owners 1 9 [2 \<mapsto> 5] s \<and> os_holders s 0 = None \<and> os_current s 2 = Some 5
     \<and> (\<forall>e \<in> set (os_events s). in_scope 1 9 [2 \<mapsto> 5] e)"
proof -
  let ?s = "owner_start 1 9 [2 \<mapsto> 5]"
  let ?d = "drop_holder plain_owners ?s 2 0 (Task 9) None None"
  have "owner_step plain_owners ?s ?d" by (rule dropped) (simp add: owner_start_def)
  then have r: "owner_reachable plain_owners 1 9 [2 \<mapsto> 5] ?d" by (rule stepped [OF begun])
  moreover have "os_holders ?d 0 = None" by (simp add: owner_defs owner_start_def Let_def)
  ultimately show ?thesis using owner_outlives_producers [OF plain_owner_laws r] by (intro exI [of _ ?d]) auto
qed

end
