(* ===== verification/Ws_Lifetime.thy ===== *)
theory Ws_Lifetime
  imports Ws_Connection Response
begin

text \<open>
  What ends the work of a WebSocket connection (\<open>ConnectionScope\<close>, the task of \<open>start\<close>, \<open>Drain\<close> and
  \<open>failure_response\<close> of \<^verbatim>\<open>src/server_fn/websocket.rs\<close>, the selection in \<open>spawn\<close> of \<^verbatim>\<open>src/server_fn/mod.rs\<close> and in
  \<open>dispatch_server_fn\<close> of \<^verbatim>\<open>src/server_fn/handlers.rs\<close>).

  A dispatch has one scope: the sending half of a channel on which nothing is ever sent, and the receiving half,
  which every task spawned by the server function waits for. The task of an upgraded connection takes the sender
  and drops it when its pump is over, on a panic as well. Every step below is one poll, one operation under the
  lock of the sender, or the drop of a task; steps interleave freely. The pump itself is modelled in
  \<open>Ws_Connection\<close>; here only its outcome matters.
\<close>

section \<open>Draining and failures\<close>

definition CLOSE_DRAIN_TIMEOUT :: nat where
  "CLOSE_DRAIN_TIMEOUT = 1000"

text \<open>\<open>Drain::decode\<close>: the item and what is left of the buffer.\<close>

definition drain_decode :: "bytes \<Rightarrow> unit option \<times> bytes" where
  "drain_decode src = (if src = [] then (None, src) else (Some (), []))"

text \<open>What the read loop of a closing connection sees, with the milliseconds since the loop began.\<close>

datatype drain_event = Arrived bytes | Peer_Closed | Read_Failed

text \<open>The loop ends with the peer or with the timeout, whichever comes first: the bytes thrown away and the time.\<close>

fun drain_loop :: "(nat \<times> drain_event) list \<Rightarrow> nat \<Rightarrow> nat \<times> nat" where
  "drain_loop [] discarded = (discarded, CLOSE_DRAIN_TIMEOUT)"
| "drain_loop ((t, e) # es) discarded =
     (if CLOSE_DRAIN_TIMEOUT < t then (discarded, CLOSE_DRAIN_TIMEOUT)
      else case e of
             Arrived b \<Rightarrow> drain_loop es (discarded + length b - length (snd (drain_decode b)))
           | Peer_Closed \<Rightarrow> (discarded, t)
           | Read_Failed \<Rightarrow> (discarded, t))"

lemma drain_loop_bounded: "snd (drain_loop es n) \<le> CLOSE_DRAIN_TIMEOUT"
  by (induction es arbitrary: n) (auto split: drain_event.splits)

text \<open>The error response of the library, with the supported versions when the version was the cause.\<close>

definition failure_response ::
  "('hm, 'hv) header_ops \<Rightarrow> (string \<Rightarrow> 'hv) \<Rightarrow> (handshake_error \<Rightarrow> ('hm, 'b) http_response) \<Rightarrow> handshake_error \<Rightarrow>
   ('hm, 'b) http_response" where
  "failure_response h from_static error_response error =
     (let response = error_response error
      in if error = UnsupportedVersion
         then response\<lparr>rs_headers := h_insert h (rs_headers response) ''sec-websocket-version'' (from_static ''13, 8, 7'')\<rparr>
         else response)"

section \<open>The scope of a connection\<close>

text \<open>Where the sender is: still in the scope, with the task of a connection, or dropped.\<close>

datatype sender_place = In_Scope | With_Connection nat | Dropped_Sender

text \<open>The task of a connection: pumping (with the sender, unless an earlier upgrade took it), about to send a close
  frame with an optional reason, draining, closed, or ended.\<close>

datatype 'c connection_pc = Pumping bool | Closing "'c option" | Draining_Input | Closed_Io | Ended

datatype 'c wire_event = Close_Sent "'c option" | Discarded | Io_Closed

datatype task_state = Running | Cancelled | Completed

record 'c connection_life =
  lt_sender :: sender_place
  lt_context :: bool
  lt_dispatch :: task_state
  lt_connections :: "nat \<Rightarrow> 'c connection_pc option"
  lt_tasks :: "nat \<Rightarrow> task_state option"
  lt_wire :: "nat \<Rightarrow> 'c wire_event list"

text \<open>\<open>ConnectionScope::new\<close>, provided as a context of the dispatch.\<close>

definition connection_scope_new :: "'c connection_life" where
  "connection_scope_new =
     \<lparr>lt_sender = In_Scope, lt_context = True, lt_dispatch = Running, lt_connections = (\<lambda>_. None),
      lt_tasks = (\<lambda>_. None), lt_wire = (\<lambda>_. [])\<rparr>"

text \<open>\<open>take_sender\<close>: whether the connection \<open>p\<close> got the sender, and where it is now.\<close>

definition take_sender :: "nat \<Rightarrow> sender_place \<Rightarrow> bool \<times> sender_place" where
  "take_sender p place = (if place = In_Scope then (True, With_Connection p) else (False, place))"

text \<open>The biased selection between the cancellation and the work.\<close>

definition select_cancelled :: "sender_place \<Rightarrow> bool \<Rightarrow> task_state" where
  "select_cancelled place ready =
     (if place = Dropped_Sender then Cancelled else if ready then Completed else Running)"

definition set_connection :: "'c connection_life \<Rightarrow> nat \<Rightarrow> 'c connection_pc \<Rightarrow> 'c connection_life" where
  "set_connection s p pc = s\<lparr>lt_connections := (lt_connections s)(p \<mapsto> pc)\<rparr>"

definition on_wire :: "'c connection_life \<Rightarrow> nat \<Rightarrow> 'c wire_event \<Rightarrow> 'c connection_life" where
  "on_wire s p e = s\<lparr>lt_wire := (lt_wire s)(p := lt_wire s p @ [e])\<rparr>"

definition drop_sender :: "'c connection_life \<Rightarrow> bool \<Rightarrow> 'c connection_life" where
  "drop_sender s holds = (if holds then s\<lparr>lt_sender := Dropped_Sender\<rparr> else s)"

definition start_connection :: "'c connection_life \<Rightarrow> nat \<Rightarrow> 'c connection_life" where
  "start_connection s p =
     (case take_sender p (lt_sender s) of
        (holds, place) \<Rightarrow> set_connection (s\<lparr>lt_sender := place\<rparr>) p (Pumping holds))"

text \<open>The end of the pump: the sender is dropped first; only with a reason, which may be empty, a close follows.\<close>

definition pump_over :: "'c connection_life \<Rightarrow> nat \<Rightarrow> bool \<Rightarrow> 'c option option \<Rightarrow> 'c connection_life" where
  "pump_over s p holds outcome =
     set_connection (drop_sender s holds) p (case outcome of None \<Rightarrow> Ended | Some reason \<Rightarrow> Closing reason)"

definition poll_task :: "'c connection_life \<Rightarrow> nat \<Rightarrow> bool \<Rightarrow> 'c connection_life" where
  "poll_task s i ready = s\<lparr>lt_tasks := (lt_tasks s)(i \<mapsto> select_cancelled (lt_sender s) ready)\<rparr>"

definition poll_dispatch :: "'c connection_life \<Rightarrow> bool \<Rightarrow> 'c connection_life" where
  "poll_dispatch s ready = s\<lparr>lt_dispatch := select_cancelled (lt_sender s) ready\<rparr>"

inductive life_step :: "'c connection_life \<Rightarrow> 'c connection_life \<Rightarrow> bool" for s where
  spawned: "lt_context s \<Longrightarrow> lt_tasks s i = None \<Longrightarrow> life_step s (s\<lparr>lt_tasks := (lt_tasks s)(i \<mapsto> Running)\<rparr>)"
| upgraded: "lt_context s \<Longrightarrow> lt_connections s p = None \<Longrightarrow> life_step s (start_connection s p)"
| pumped: "lt_connections s p = Some (Pumping holds) \<Longrightarrow> life_step s (pump_over s p holds outcome)"
| dropped: "lt_connections s p = Some pc \<Longrightarrow> life_step s (set_connection (drop_sender s (pc = Pumping True)) p Ended)"
| close_sent: "lt_connections s p = Some (Closing reason) \<Longrightarrow>
     life_step s (on_wire (set_connection s p Draining_Input) p (Close_Sent reason))"
| drained: "lt_connections s p = Some Draining_Input \<Longrightarrow> life_step s (on_wire s p Discarded)"
| drain_over: "lt_connections s p = Some Draining_Input \<Longrightarrow>
     life_step s (on_wire (set_connection s p Closed_Io) p Io_Closed)"
| disconnected: "lt_connections s p = Some Closed_Io \<Longrightarrow> life_step s (set_connection s p Ended)"
| task_polled: "lt_tasks s i = Some Running \<Longrightarrow> life_step s (poll_task s i ready)"
| task_dropped: "lt_tasks s i = Some Running \<Longrightarrow> life_step s (s\<lparr>lt_tasks := (lt_tasks s)(i \<mapsto> Completed)\<rparr>)"
| dispatch_polled: "lt_dispatch s = Running \<Longrightarrow> life_step s (poll_dispatch s ready)"
| dispatch_dropped: "lt_dispatch s = Running \<Longrightarrow> life_step s (s\<lparr>lt_dispatch := Completed\<rparr>)"
| context_dropped: "life_step s (s\<lparr>lt_context := False\<rparr>)"
| scope_dropped: "lt_sender s = In_Scope \<Longrightarrow> \<not> lt_context s \<Longrightarrow> lt_dispatch s \<noteq> Running \<Longrightarrow> (\<forall>i. lt_tasks s i \<noteq> Some Running) \<Longrightarrow>
     life_step s (s\<lparr>lt_sender := Dropped_Sender\<rparr>)"

inductive life_reachable :: "'c connection_life \<Rightarrow> bool" where
  life_start: "life_reachable connection_scope_new"
| life_next: "life_reachable s \<Longrightarrow> life_step s t \<Longrightarrow> life_reachable t"

section \<open>Invariant\<close>

text \<open>The wire of a connection, for its stage.\<close>

fun wire_ok :: "'c connection_pc option \<Rightarrow> 'c wire_event list \<Rightarrow> bool" where
  "wire_ok None wire \<longleftrightarrow> wire = []"
| "wire_ok (Some (Pumping holds)) wire \<longleftrightarrow> wire = []"
| "wire_ok (Some (Closing reason)) wire \<longleftrightarrow> wire = []"
| "wire_ok (Some Draining_Input) wire \<longleftrightarrow> (\<exists>reason n. wire = Close_Sent reason # replicate n Discarded)"
| "wire_ok (Some Closed_Io) wire \<longleftrightarrow> (\<exists>reason n. wire = Close_Sent reason # replicate n Discarded @ [Io_Closed])"
| "wire_ok (Some Ended) wire \<longleftrightarrow> wire = []
     \<or> (\<exists>reason n. wire = Close_Sent reason # replicate n Discarded)
     \<or> (\<exists>reason n. wire = Close_Sent reason # replicate n Discarded @ [Io_Closed])"

fun is_pumping :: "'c connection_pc \<Rightarrow> bool" where
  "is_pumping (Pumping holds) \<longleftrightarrow> True"
| "is_pumping _ \<longleftrightarrow> False"

text \<open>Some connection has left its pump.\<close>

definition pump_left :: "(nat \<Rightarrow> 'c connection_pc option) \<Rightarrow> bool" where
  "pump_left connections \<longleftrightarrow> (\<exists>p pc. connections p = Some pc \<and> \<not> is_pumping pc)"

fun sender_ok :: "sender_place \<Rightarrow> (nat \<Rightarrow> 'c connection_pc option) \<Rightarrow> bool \<Rightarrow> bool" where
  "sender_ok In_Scope connections idle \<longleftrightarrow> (\<forall>p. connections p = None)"
| "sender_ok (With_Connection q) connections idle \<longleftrightarrow>
     connections q = Some (Pumping True) \<and> (\<forall>p. p \<noteq> q \<longrightarrow> connections p \<noteq> Some (Pumping True))"
| "sender_ok Dropped_Sender connections idle \<longleftrightarrow> (\<forall>p. connections p \<noteq> Some (Pumping True))
     \<and> (pump_left connections \<or> (\<forall>p. connections p = None) \<and> idle)"

definition idle :: "'c connection_life \<Rightarrow> bool" where
  "idle s \<longleftrightarrow> \<not> lt_context s \<and> lt_dispatch s \<noteq> Running \<and> (\<forall>i. lt_tasks s i \<noteq> Some Running)"

definition was_cancelled :: "'c connection_life \<Rightarrow> bool" where
  "was_cancelled s \<longleftrightarrow> lt_dispatch s = Cancelled \<or> (\<exists>i. lt_tasks s i = Some Cancelled)"

definition life_ok :: "'c connection_life \<Rightarrow> bool" where
  "life_ok s \<longleftrightarrow> (\<forall>p. wire_ok (lt_connections s p) (lt_wire s p))
     \<and> sender_ok (lt_sender s) (lt_connections s) (idle s)
     \<and> (was_cancelled s \<longrightarrow> lt_sender s = Dropped_Sender \<and> pump_left (lt_connections s))"

lemmas life_defs = set_connection_def on_wire_def drop_sender_def start_connection_def take_sender_def pump_over_def
  poll_task_def poll_dispatch_def

lemma wire_ok_step:
  assumes "life_step s t" "\<And>p. wire_ok (lt_connections s p) (lt_wire s p)"
  shows "wire_ok (lt_connections t p) (lt_wire t p)"
  using assms(1)
proof cases
  case (drained q)
  with assms(2) [of q] obtain reason n where "lt_wire s q = Close_Sent reason # replicate n Discarded" by auto
  then have "lt_wire s q @ [Discarded] = Close_Sent reason # replicate (Suc n) Discarded" by (simp add: replicate_append_same)
  with drained assms(2) [of p] show ?thesis by (auto simp: life_defs intro: exI [of _ "Suc _"])
next
  case (close_sent q reason)
  with assms(2) [of q] assms(2) [of p] show ?thesis by (auto simp: life_defs intro: exI [of _ 0])
next
  case (drain_over q)
  with assms(2) [of q] assms(2) [of p] show ?thesis by (auto simp: life_defs)
next
  case (dropped q pc)
  with assms(2) [of q] assms(2) [of p] show ?thesis by (cases pc) (auto simp: life_defs)
next
  case (pumped q holds outcome)
  with assms(2) [of q] assms(2) [of p] show ?thesis by (auto simp: life_defs split: option.splits)
next
  case (disconnected q)
  with assms(2) [of q] assms(2) [of p] show ?thesis by (auto simp: life_defs)
next
  case (upgraded q)
  with assms(2) [of q] assms(2) [of p] show ?thesis by (auto simp: life_defs)
qed (use assms(2) [of p] in \<open>simp_all add: life_defs\<close>)

lemma pump_left_update [simp]: "\<not> is_pumping pc \<Longrightarrow> pump_left (connections(p \<mapsto> pc))"
  by (auto simp: pump_left_def)

lemma pump_left_fresh: "connections p = None \<Longrightarrow> pump_left connections \<Longrightarrow> pump_left (connections(p \<mapsto> pc))"
  unfolding pump_left_def by (elim exE conjE, rename_tac q pc', rule_tac x = q in exI) auto

lemma pump_left_step:
  assumes "life_step s t" "pump_left (lt_connections s)"
  shows "pump_left (lt_connections t)"
  using assms(1)
proof cases
  case (upgraded p)
  with pump_left_fresh [OF _ assms(2)] show ?thesis by (simp add: life_defs)
next
  case (pumped p holds outcome)
  then show ?thesis by (simp add: life_defs split: option.split)
qed (use assms(2) in \<open>simp_all add: life_defs\<close>)

lemma sender_step_scope:
  assumes "life_step s t" "lt_sender s = In_Scope" "\<forall>p. lt_connections s p = None"
  shows "sender_ok (lt_sender t) (lt_connections t) (idle t)"
  using assms(1)
proof cases
  case (upgraded p)
  with assms(2,3) show ?thesis by (simp add: life_defs)
next
  case scope_dropped
  with assms(2,3) show ?thesis by (simp add: idle_def)
qed (use assms(2,3) in \<open>simp_all add: life_defs\<close>)

lemma sender_step_connection:
  assumes "life_step s t" "lt_sender s = With_Connection q" "lt_connections s q = Some (Pumping True)"
    and other: "\<And>p. p \<noteq> q \<Longrightarrow> lt_connections s p \<noteq> Some (Pumping True)"
  shows "sender_ok (lt_sender t) (lt_connections t) (idle t)"
  using assms(1)
proof cases
  case (upgraded p)
  with assms(3) have "p \<noteq> q" by auto
  with upgraded assms(2,3) other show ?thesis by (simp add: life_defs)
next
  case (pumped p holds outcome)
  show ?thesis
  proof (cases "p = q")
    case True
    with pumped assms(3) have "holds" by simp
    from pumped(1) True \<open>holds\<close> show ?thesis by (simp add: life_defs other split: option.split)
  next
    case False
    have "\<not> holds" using pumped(2) other [of p] False by (cases holds) simp_all
    with pumped(1) False assms(2,3) other show ?thesis by (simp add: life_defs split: option.split)
  qed
next
  case (dropped p pc)
  show ?thesis
  proof (cases "p = q")
    case True
    with dropped assms(3) have "pc = Pumping True" by simp
    from dropped(1) True \<open>pc = _\<close> show ?thesis by (simp add: life_defs other)
  next
    case False
    have "pc \<noteq> Pumping True" using dropped(2) other [of p] False by (cases "pc = Pumping True") simp_all
    with dropped(1) False assms(2,3) other show ?thesis by (simp add: life_defs)
  qed
next
  case (close_sent p reason)
  with assms(3) have "p \<noteq> q" by auto
  with close_sent assms(2,3) other show ?thesis by (simp add: life_defs)
next
  case (drain_over p)
  with assms(3) have "p \<noteq> q" by auto
  with drain_over assms(2,3) other show ?thesis by (simp add: life_defs)
next
  case (disconnected p)
  with assms(3) have "p \<noteq> q" by auto
  with disconnected assms(2,3) other show ?thesis by (simp add: life_defs)
qed (use assms(2,3) other in \<open>simp_all add: life_defs\<close>)

lemma sender_step_dropped:
  assumes "life_step s t" "lt_sender s = Dropped_Sender" "\<And>p. lt_connections s p \<noteq> Some (Pumping True)"
  shows "lt_sender t = Dropped_Sender \<and> (\<forall>p. lt_connections t p \<noteq> Some (Pumping True))"
  using assms(1)
proof cases
  case (upgraded p)
  with assms(2,3) show ?thesis by (simp add: life_defs)
next
  case (pumped p holds outcome)
  with assms(2,3) show ?thesis by (simp add: life_defs split: option.split)
qed (use assms(2,3) in \<open>simp_all add: life_defs\<close>)

lemma idle_step:
  assumes "life_step s t" "\<forall>p. lt_connections s p = None" "idle s"
  shows "(\<forall>p. lt_connections t p = None) \<and> idle t"
  using assms by cases (simp_all add: life_defs idle_def)

lemma sender_ok_step:
  assumes "life_step s t" "sender_ok (lt_sender s) (lt_connections s) (idle s)"
  shows "sender_ok (lt_sender t) (lt_connections t) (idle t)"
proof (cases "lt_sender s")
  case In_Scope
  with assms sender_step_scope show ?thesis by simp
next
  case (With_Connection q)
  with assms(2) show ?thesis by (intro sender_step_connection [OF assms(1) With_Connection]) auto
next
  case Dropped_Sender
  with assms(2) have d: "\<And>p. lt_connections s p \<noteq> Some (Pumping True)"
    "pump_left (lt_connections s) \<or> (\<forall>p. lt_connections s p = None) \<and> idle s" by simp_all
  with sender_step_dropped [OF assms(1) Dropped_Sender d(1)] pump_left_step [OF assms(1)] idle_step [OF assms(1)]
  show ?thesis by auto
qed

lemma cancelled_stays:
  assumes "life_step s t" "was_cancelled t" "\<not> was_cancelled s"
  shows "lt_sender s = Dropped_Sender \<and> lt_sender t = lt_sender s \<and> lt_connections t = lt_connections s \<and> \<not> idle s"
  using assms(1)
proof cases
  case (task_polled i ready)
  with assms(2,3) show ?thesis
    by (auto simp: was_cancelled_def life_defs select_cancelled_def idle_def split: if_splits)
next
  case (dispatch_polled ready)
  with assms(2,3) show ?thesis
    by (auto simp: was_cancelled_def life_defs select_cancelled_def idle_def split: if_splits)
next
  case (spawned i)
  with assms(2,3) show ?thesis by (auto simp: was_cancelled_def split: if_splits)
next
  case (task_dropped i)
  with assms(2,3) show ?thesis by (auto simp: was_cancelled_def split: if_splits)
qed (use assms(2,3) in \<open>simp_all add: was_cancelled_def life_defs split: prod.splits if_splits\<close>)

lemma cancelled_step:
  assumes "life_step s t" "life_ok s" "was_cancelled t"
  shows "lt_sender t = Dropped_Sender \<and> pump_left (lt_connections t)"
proof (cases "was_cancelled s")
  case True
  with assms(2) have d: "lt_sender s = Dropped_Sender" "pump_left (lt_connections s)" "\<And>p. lt_connections s p \<noteq> Some (Pumping True)"
    by (auto simp: life_ok_def)
  from sender_step_dropped [OF assms(1) d(1,3)] pump_left_step [OF assms(1) d(2)] show ?thesis by simp
next
  case False
  from cancelled_stays [OF assms(1,3) False] assms(2) show ?thesis by (auto simp: life_ok_def)
qed

lemma life_ok_step: "life_step s t \<Longrightarrow> life_ok s \<Longrightarrow> life_ok t"
  using wire_ok_step [of s t] sender_ok_step [of s t] cancelled_step [of s t]
  by (simp add: life_ok_def)

lemma life_reachable_ok: "life_reachable s \<Longrightarrow> life_ok s"
proof (induction rule: life_reachable.induct)
  case life_start
  show ?case by (auto simp: life_ok_def connection_scope_new_def was_cancelled_def)
next
  case (life_next s t)
  then show ?case by (blast intro: life_ok_step)
qed

section \<open>Properties\<close>



end
