(* ===== verification/Server_Fn_Io.thy ===== *)
theory Server_Fn_Io
  imports Dispatch
begin

text \<open>
  What a server function reads of its request and how its output becomes a response: the accessors of \<open>NtexRequest\<close>
  (\<^verbatim>\<open>src/server_fn/request.rs\<close>) and the conversions of \<open>NtexServerResponse\<close> (\<^verbatim>\<open>src/server_fn/response.rs\<close>). Header
  values and stream errors are raw bytes; they are shown as text by the lossy UTF-8 decoder of the standard
  library. Bodies of requests are modelled in \<open>Payload\<close>, the upgrade in \<open>Ws_Connection\<close>. Texts are their UTF-8
  bytes.
\<close>

section \<open>Lossy decoding\<close>

text \<open>U+FFFD.\<close>

definition REPLACEMENT :: bytes where
  "REPLACEMENT = [0xEF, 0xBF, 0xBD]"

lemma char_width_error: "char_width bs = Inl (Some n) \<Longrightarrow> 0 < n \<and> n \<le> length bs"
  by (cases bs) (auto split: if_splits list.splits)

text \<open>\<open>String::from_utf8_lossy\<close>: each invalid sequence, as far as it could begin a character, is replaced once.\<close>

function from_utf8_lossy :: "bytes \<Rightarrow> bytes" where
  "from_utf8_lossy bs =
     (if bs = [] then []
      else case char_width bs of
             Inr w \<Rightarrow> take w bs @ from_utf8_lossy (drop w bs)
           | Inl (Some n) \<Rightarrow> REPLACEMENT @ from_utf8_lossy (drop n bs)
           | Inl None \<Rightarrow> REPLACEMENT)"
  by pat_completeness auto
termination
proof (relation "measure length")
  fix bs w
  assume "bs \<noteq> []" "char_width bs = Inr w"
  with char_width_pos [of bs w] show "(drop w bs, bs) \<in> measure length" by auto
next
  fix bs e n
  assume "bs \<noteq> []" "char_width bs = Inl e" "e = Some n"
  with char_width_error [of bs n] show "(drop n bs, bs) \<in> measure length" by auto
qed simp

declare from_utf8_lossy.simps [simp del]

lemma from_utf8_lossy_Nil [simp]: "from_utf8_lossy [] = []"
  by (subst from_utf8_lossy.simps) simp

lemma from_utf8_lossy_step:
  "bs \<noteq> [] \<Longrightarrow> from_utf8_lossy bs =
     (case char_width bs of
        Inr w \<Rightarrow> take w bs @ from_utf8_lossy (drop w bs)
      | Inl (Some n) \<Rightarrow> REPLACEMENT @ from_utf8_lossy (drop n bs)
      | Inl None \<Rightarrow> REPLACEMENT)"
  by (subst from_utf8_lossy.simps) simp

text \<open>A character keeps its width in front of anything else.\<close>

lemma char_width_prefix:
  assumes "char_width bs = Inr w"
  shows "char_width (take w bs @ rest) = Inr w"
proof (cases bs)
  case (Cons a r)
  with assms show ?thesis
    by (auto simp: numeral_2_eq_2 numeral_3_eq_3 eval_nat_numeral split: if_splits list.splits)
qed (use assms in simp)

lemma valid_utf8_char:
  assumes "char_width bs = Inr w" "valid_utf8 rest"
  shows "valid_utf8 (take w bs @ rest)"
proof -
  have w: "0 < w" "w \<le> length bs" using char_width_pos [OF assms(1)] by simp_all
  then have "take w bs @ rest \<noteq> []" by auto
  then show ?thesis
    using char_width_prefix [OF assms(1), of rest] assms(2) w by (simp add: valid_utf8_step)
qed

lemma char_width_replacement: "char_width (REPLACEMENT @ rest) = Inr 3"
  by (simp add: REPLACEMENT_def in_range_def second_ok_def is_cont_def)

lemma valid_utf8_replacement: "valid_utf8 rest \<Longrightarrow> valid_utf8 (REPLACEMENT @ rest)"
  using valid_utf8_step [of "REPLACEMENT @ rest"] char_width_replacement [of rest] by (simp add: REPLACEMENT_def)

lemma from_utf8_lossy_valid: "valid_utf8 (from_utf8_lossy bs)"
proof (induction bs rule: from_utf8_lossy.induct)
  case (1 bs)
  show ?case
  proof (cases "bs = []")
    case False
    show ?thesis
    proof (cases "char_width bs")
      case (Inr w)
      with "1.IH"(2) [OF False Inr] False show ?thesis by (simp add: from_utf8_lossy_step valid_utf8_char)
    next
      case (Inl e)
      show ?thesis
      proof (cases e)
        case None
        with Inl False valid_utf8_replacement [of "[]"] show ?thesis by (simp add: from_utf8_lossy_step)
      next
        case (Some n)
        with "1.IH"(1) [OF False Inl Some] Inl False show ?thesis by (simp add: from_utf8_lossy_step valid_utf8_replacement)
      qed
    qed
  qed simp
qed

lemma from_utf8_lossy_id: "valid_utf8 bs \<Longrightarrow> from_utf8_lossy bs = bs"
proof (induction bs rule: from_utf8_lossy.induct)
  case (1 bs)
  show ?case
  proof (cases "bs = []")
    case False
    with "1.prems" obtain w where w: "char_width bs = Inr w" "valid_utf8 (drop w bs)" by (auto simp: valid_utf8_step)
    with "1.IH"(2) [OF False w(1)] False show ?thesis by (simp add: from_utf8_lossy_step)
  qed simp
qed

section \<open>Requests\<close>

text \<open>What the accessors read: the query of the URI and the header map.\<close>

record 'hm sf_request =
  sf_query :: "string option"
  sf_headers :: 'hm

definition header_text :: "('hm, 'hv) header_ops \<Rightarrow> ('hv \<Rightarrow> bytes) \<Rightarrow> 'hm sf_request \<Rightarrow> string \<Rightarrow> bytes option" where
  "header_text h as_bytes req name = map_option (\<lambda>v. from_utf8_lossy (as_bytes v)) (h_get h (sf_headers req) name)"

definition as_query :: "'hm sf_request \<Rightarrow> string option" where
  "as_query req = sf_query req"

definition to_content_type :: "('hm, 'hv) header_ops \<Rightarrow> ('hv \<Rightarrow> bytes) \<Rightarrow> 'hm sf_request \<Rightarrow> bytes option" where
  "to_content_type h as_bytes req = header_text h as_bytes req ''content-type''"

definition accepts :: "('hm, 'hv) header_ops \<Rightarrow> ('hv \<Rightarrow> bytes) \<Rightarrow> 'hm sf_request \<Rightarrow> bytes option" where
  "accepts h as_bytes req = header_text h as_bytes req ''accept''"

definition referer :: "('hm, 'hv) header_ops \<Rightarrow> ('hv \<Rightarrow> bytes) \<Rightarrow> 'hm sf_request \<Rightarrow> bytes option" where
  "referer h as_bytes req = header_text h as_bytes req ''referer''"

section \<open>Responses\<close>

text \<open>The response builder of the library: a content type that is no header value gives its own error response,
  the argument \<open>rejected\<close>.\<close>

definition ok_response ::
  "('hm, 'hv) header_ops \<Rightarrow> (string \<Rightarrow> 'hv option) \<Rightarrow> ('hm, 'b) http_response \<Rightarrow> string \<Rightarrow> 'b \<Rightarrow> ('hm, 'b) http_response" where
  "ok_response h hv_from_str rejected content_type body =
     (case hv_from_str content_type of
        Some v \<Rightarrow> \<lparr>rs_status = 200, rs_headers = h_insert h (h_empty h) ''content-type'' v, rs_body = body\<rparr>
      | None \<Rightarrow> rejected)"

datatype sf_body = Sized bytes | Streaming "(bytes + bytes) list"

definition try_from_string ::
  "('hm, 'hv) header_ops \<Rightarrow> (string \<Rightarrow> 'hv option) \<Rightarrow> ('hm, sf_body) http_response \<Rightarrow> string \<Rightarrow> bytes \<Rightarrow>
   'e + ('hm, sf_body) http_response" where
  "try_from_string h hv_from_str rejected content_type data =
     Inr (ok_response h hv_from_str rejected content_type (Sized data))"

definition try_from_bytes ::
  "('hm, 'hv) header_ops \<Rightarrow> (string \<Rightarrow> 'hv option) \<Rightarrow> ('hm, sf_body) http_response \<Rightarrow> string \<Rightarrow> bytes \<Rightarrow>
   'e + ('hm, sf_body) http_response" where
  "try_from_bytes h hv_from_str rejected content_type data =
     Inr (ok_response h hv_from_str rejected content_type (Sized data))"

text \<open>A serialized error of the stream becomes the text of an I/O error.\<close>

fun stream_item :: "bytes + bytes \<Rightarrow> bytes + bytes" where
  "stream_item (Inr b) = Inr b"
| "stream_item (Inl e) = Inl (from_utf8_lossy e)"

definition try_from_stream ::
  "('hm, 'hv) header_ops \<Rightarrow> (string \<Rightarrow> 'hv option) \<Rightarrow> ('hm, sf_body) http_response \<Rightarrow> string \<Rightarrow> (bytes + bytes) list \<Rightarrow>
   'e + ('hm, sf_body) http_response" where
  "try_from_stream h hv_from_str rejected content_type data =
     Inr (ok_response h hv_from_str rejected content_type (Streaming (map stream_item data)))"

section \<open>Properties\<close>

text \<open>Texts that cross the boundary of the server-function layer are well-formed. Whatever bytes a client sends
  in a header or a stream reports as its error, the text the layer passes on is valid UTF-8, a valid one unchanged;
  the header is absent exactly when the request has none, and the data of a stream is never altered.\<close>

theorem texts_well_formed:
  "(case header_text h as_bytes req name of
      None \<Rightarrow> h_get h (sf_headers req) name = None
    | Some text1 \<Rightarrow> valid_utf8 text1
        \<and> (\<exists>v. h_get h (sf_headers req) name = Some v \<and> (valid_utf8 (as_bytes v) \<longrightarrow> text1 = as_bytes v)))
   \<and> list_all (\<lambda>i. case i of (Inr b, b') \<Rightarrow> b' = Inr b
        | (Inl e, e') \<Rightarrow> \<exists>text1. e' = Inl text1 \<and> valid_utf8 text1 \<and> (valid_utf8 e \<longrightarrow> text1 = e))
      (zip data (map stream_item data))"
proof -
  have "list_all (\<lambda>i. case i of (Inr b, b') \<Rightarrow> b' = Inr b
        | (Inl e, e') \<Rightarrow> \<exists>text1. e' = Inl text1 \<and> valid_utf8 text1 \<and> (valid_utf8 e \<longrightarrow> text1 = e))
      (zip data (map stream_item data))"
  proof (induction data)
    case (Cons i rest)
    then show ?case by (cases i) (auto simp: from_utf8_lossy_valid from_utf8_lossy_id)
  qed simp
  then show ?thesis
    by (auto simp: header_text_def from_utf8_lossy_valid from_utf8_lossy_id split: option.splits)
qed

end
