(* ===== verification/Managed_Roots.thy ===== *)
theory Managed_Roots
  imports Admission
begin

text \<open>
  Installation of storage policies on a tree (\<open>open_root\<close>, \<open>ancestor_policy\<close> and \<open>Storage::open\<close> of
  \<^verbatim>\<open>src/static_routes/storage.rs\<close>): the roots of two policies must not overlap. The file system is a tree of
  directories and files without links; on it \<open>canonicalize\<close> and \<open>create_dir_all\<close> are those of the standard
  library. Paths are absolute, or relative to the root of the tree.
\<close>

section \<open>Paths on a tree\<close>

text \<open>A name is looked up in the directory reached so far; the parent of a directory is the path without its
  last name.\<close>

fun resolve :: "entries \<Rightarrow> string list \<Rightarrow> component list \<Rightarrow> io_error + string list" where
  "resolve tree cur [] = Inr cur"
| "resolve tree cur (RootDir # cs) = resolve tree [] cs"
| "resolve tree cur (CurDir # cs) = resolve tree cur cs"
| "resolve tree cur (ParentDir # cs) = res_bind (open_dir_at tree cur) (\<lambda>_. resolve tree (butlast cur) cs)"
| "resolve tree cur (Normal n # cs) =
     res_bind (open_dir_at tree cur) (\<lambda>d.
       case map_of d n of
         None \<Rightarrow> Inl (io_err NotFound [])
       | Some (Faulty e) \<Rightarrow> Inl e
       | Some _ \<Rightarrow> resolve tree (cur @ [n]) cs)"

definition canonicalize :: "entries \<Rightarrow> component list \<Rightarrow> io_error + string list" where
  "canonicalize tree path = resolve tree [] path"

definition is_dir :: "entries \<Rightarrow> component list \<Rightarrow> bool" where
  "is_dir tree path \<longleftrightarrow> (\<exists>p d. canonicalize tree path = Inr p \<and> open_dir_at tree p = Inr d)"

text \<open>\<open>mkdir\<close> of the last component below the rest, which is held back to front.\<close>

fun make_dir :: "entries \<Rightarrow> component \<Rightarrow> component list \<Rightarrow> io_error + entries" where
  "make_dir tree (Normal n) rest =
     res_bind (canonicalize tree (rev rest)) (\<lambda>p.
     res_bind (open_dir_at tree p) (\<lambda>d.
       if map_of d n = None then Inr (replace_at tree p (d @ [(n, Dir [])]))
       else Inl (io_err AlreadyExists [])))"
| "make_dir tree c rest = res_bind (canonicalize tree (rev (c # rest))) (\<lambda>_. Inl (io_err AlreadyExists []))"

fun create_dir_all :: "entries \<Rightarrow> component list \<Rightarrow> io_error + entries" where
  "create_dir_all tree [] = Inr tree"
| "create_dir_all tree (c # rest) =
     (case make_dir tree c rest of
        Inr tree1 \<Rightarrow> Inr tree1
      | Inl e \<Rightarrow>
          if io_error_kind e \<noteq> NotFound
          then (if is_dir tree (rev (c # rest)) then Inr tree else Inl e)
          else if c = RootDir then Inl e
          else res_bind (create_dir_all tree rest) (\<lambda>tree1.
                 case make_dir tree1 c rest of
                   Inr tree2 \<Rightarrow> Inr tree2
                 | Inl e \<Rightarrow> if is_dir tree1 (rev (c # rest)) then Inr tree1 else Inl e))"

section \<open>Installation\<close>

text \<open>\<open>active_policy\<close> of an ambient directory.\<close>

definition policy_at :: "lock_call \<Rightarrow> entries \<Rightarrow> string list \<Rightarrow> storage_error + bool" where
  "policy_at lk tree p =
     (case open_dir_at tree p of
        Inl e \<Rightarrow> if io_error_kind e = NotFound then Inr False else Inl (Io e)
      | Inr d \<Rightarrow> active_policy lk d)"

text \<open>The proper ancestors of a path held back to front, up to but without \<open>stop\<close>.\<close>

fun ancestor_policy :: "lock_call \<Rightarrow> entries \<Rightarrow> string list \<Rightarrow> string list option \<Rightarrow> storage_error + bool" where
  "ancestor_policy lk tree [] stop = Inr False"
| "ancestor_policy lk tree (n # up) stop =
     (if stop = Some (rev up) then Inr False
      else res_bind (policy_at lk tree (rev up)) (\<lambda>active.
        if active then Inr True else ancestor_policy lk tree up stop))"

definition open_root ::
  "lock_call \<Rightarrow> entries \<Rightarrow> component list \<Rightarrow> storage_error \<Rightarrow> storage_error + (entries \<times> string list \<times> entries)" where
  "open_root lk tree path overlap =
     res_bind (map_err Io (canonicalize_existing_prefix (canonicalize tree) (\<lambda>e. io_error_kind e = NotFound) path))
       (\<lambda>(ancestor, missing).
     res_bind (if missing \<noteq> [] then policy_at lk tree ancestor else Inr False) (\<lambda>managed.
     res_bind (if managed then Inr True else ancestor_policy lk tree (rev ancestor) None) (\<lambda>overlapping.
       if overlapping then Inl overlap
       else res_bind (map_err Io (create_dir_all tree (rev path))) (\<lambda>tree1.
            res_bind (map_err Io (canonicalize tree1 path)) (\<lambda>canonical.
            res_bind (map_err Io (open_dir_at tree1 canonical)) (\<lambda>dir. Inr (tree1, canonical, dir)))))))"

text \<open>\<open>Storage::open\<close>: the tree with the record of the policy, the canonical root and the handle.\<close>

definition install_policy ::
  "lock_call \<Rightarrow> entries \<Rightarrow> component list \<Rightarrow> storage_limits \<Rightarrow> storage_error + (entries \<times> string list \<times> storage)" where
  "install_policy lk tree path limits =
     res_bind (open_root lk tree path UnsupportedRoot) (\<lambda>(tree1, canonical, dir).
     res_bind (storage_open lk dir limits) (\<lambda>(st, dir1).
       Inr (replace_at tree1 canonical dir1, canonical, st)))"

section \<open>Installed policies\<close>

definition holds_policy :: "entries \<Rightarrow> bool" where
  "holds_policy d \<longleftrightarrow> (\<exists>c r. map_of d CONTROL = Some (Reg 1 c) \<and> read_record (Inr c) = Inr (Some r))"

definition installed :: "entries \<Rightarrow> string list \<Rightarrow> bool" where
  "installed tree p \<longleftrightarrow> (\<exists>d. open_dir_at tree p = Inr d \<and> holds_policy d)"

definition unnested :: "entries \<Rightarrow> bool" where
  "unnested tree \<longleftrightarrow> (\<forall>p q. installed tree p \<longrightarrow> installed tree (p @ q) \<longrightarrow> q = [])"

lemma active_policy_False: "active_policy lk d = Inr False \<Longrightarrow> \<not> holds_policy d"
  by (auto simp: active_policy_def open_lock_entry_def is_regular_entry_def holds_policy_def res_bind_Inr_iff
      split: sum.splits)

lemma policy_at_False: "policy_at lk tree p = Inr False \<Longrightarrow> \<not> installed tree p"
  by (auto simp: policy_at_def installed_def dest: active_policy_False split: sum.splits if_splits)

lemma ancestor_policy_False:
  "ancestor_policy lk tree rp None = Inr False \<Longrightarrow> rev rp = q @ r \<Longrightarrow> r \<noteq> [] \<Longrightarrow> \<not> installed tree q"
proof (induction rp arbitrary: r)
  case (Cons n up)
  then have p: "policy_at lk tree (rev up) = Inr False" "ancestor_policy lk tree up None = Inr False"
    by (auto simp: res_bind_Inr_iff split: if_splits)
  show ?case
  proof (cases "q = rev up")
    case True
    with policy_at_False [OF p(1)] show ?thesis by simp
  next
    case False
    from Cons.prems(2,3) have "rev up = q @ butlast r" by (cases r rule: rev_cases) auto
    moreover from this False have "butlast r \<noteq> []" by auto
    ultimately show ?thesis using Cons.IH p(2) by blast
  qed
qed simp

text \<open>Replacing the contents of a directory changes what is installed below it only.\<close>

lemma installed_Nil: "installed tree [] \<longleftrightarrow> holds_policy tree"
  by (simp add: installed_def)

lemma installed_Cons:
  "installed tree (n # ns) \<longleftrightarrow> (\<exists>sub. map_of tree n = Some (Dir sub) \<and> installed sub ns)"
  by (auto simp: installed_def split: option.splits node.splits)

lemma holds_policy_set_dir:
  "map_of d n = Some (Dir sub) \<Longrightarrow> holds_policy (set_entry n (Dir sub') d) \<longleftrightarrow> holds_policy d"
  by (auto simp: holds_policy_def map_of_set_entry)

lemma installed_replace:
  assumes "open_dir_at tree p = Inr d"
  shows "installed (replace_at tree p ds) q \<longleftrightarrow>
     (case strip_prefix p q of Some r \<Rightarrow> installed ds r | None \<Rightarrow> installed tree q)"
  using assms
proof (induction p arbitrary: tree q)
  case (Cons n ns)
  then obtain sub where sub: "map_of tree n = Some (Dir sub)" "open_dir_at sub ns = Inr d"
    by (auto split: option.splits node.splits)
  show ?case
  proof (cases q)
    case Nil
    with sub(1) show ?thesis by (simp add: installed_Nil holds_policy_set_dir)
  next
    case (Cons m qs)
    with sub Cons.IH [OF sub(2), of qs] show ?thesis
      by (cases "m = n") (auto simp: installed_Cons map_of_set_entry split: option.splits)
  qed
qed simp

lemma installed_new_dir:
  assumes "map_of d n = None"
  shows "installed (d @ [(n, Dir [])]) r \<longleftrightarrow> installed d r"
proof (cases r)
  case Nil
  with assms show ?thesis by (auto simp: installed_Nil holds_policy_def map_add_def split: option.splits if_splits)
next
  case (Cons m rs)
  have "\<not> installed [] rs" by (cases rs) (simp_all add: installed_Nil installed_Cons holds_policy_def)
  with assms Cons show ?thesis by (auto simp: installed_Cons map_add_def split: option.splits if_splits)
qed

lemma open_dir_at_append: "open_dir_at tree p = Inr d \<Longrightarrow> open_dir_at tree (p @ r) = open_dir_at d r"
  by (induction p arbitrary: tree) (auto split: option.splits node.splits)

lemma make_dir_installed:
  assumes "make_dir tree c rest = Inr tree1"
  shows "installed tree1 q \<longleftrightarrow> installed tree q"
proof (cases c)
  case (Normal n)
  with assms obtain p d where p: "open_dir_at tree p = Inr d" "map_of d n = None"
    and t: "tree1 = replace_at tree p (d @ [(n, Dir [])])"
    by (auto simp: res_bind_Inr_iff split: if_splits)
  show ?thesis
  proof (cases "strip_prefix p q")
    case None
    then show ?thesis by (simp add: t installed_replace [OF p(1)])
  next
    case (Some r)
    then have "installed tree q \<longleftrightarrow> installed d r"
      by (auto simp: strip_prefix_Some installed_def open_dir_at_append [OF p(1)])
    then show ?thesis by (simp add: t installed_replace [OF p(1)] Some installed_new_dir [OF p(2)])
  qed
qed (use assms in \<open>auto simp: res_bind_Inr_iff\<close>)

lemma create_dir_all_installed:
  "create_dir_all tree rpath = Inr tree1 \<Longrightarrow> installed tree1 q \<longleftrightarrow> installed tree q"
proof (induction tree rpath arbitrary: tree1 rule: create_dir_all.induct)
  case (2 tree c rest)
  show ?case
  proof (cases "make_dir tree c rest")
    case (Inr t)
    with "2.prems" show ?thesis by (auto simp: make_dir_installed)
  next
    case (Inl e)
    show ?thesis
    proof (cases "io_error_kind e = NotFound \<and> c \<noteq> RootDir")
      case True
      obtain t where t: "create_dir_all tree rest = Inr t"
        using "2.prems" Inl True by (cases "create_dir_all tree rest") auto
      have "tree1 = t \<or> make_dir t c rest = Inr tree1"
        using "2.prems" Inl True t by (cases "make_dir t c rest") (auto split: if_splits)
      then have "installed tree1 q \<longleftrightarrow> installed t q" by (auto simp: make_dir_installed)
      also have "\<dots> \<longleftrightarrow> installed tree q" using "2.IH" Inl True t by simp
      finally show ?thesis .
    next
      case False
      with "2.prems" Inl show ?thesis by (auto split: if_splits)
    qed
  qed
qed simp

text \<open>A plain path resolves to itself.\<close>

lemma resolve_names: "resolve tree cur (map Normal ns) = Inr p \<Longrightarrow> p = cur @ ns"
proof (induction ns arbitrary: cur)
  case (Cons n ns)
  then obtain d nd where d: "open_dir_at tree cur = Inr d" "map_of d n = Some nd"
    by (auto simp: res_bind_Inr_iff split: option.splits)
  with Cons.prems have "resolve tree (cur @ [n]) (map Normal ns) = Inr p" by (cases nd) auto
  from Cons.IH [OF this] show ?case by simp
qed simp

lemma canonicalize_absolute: "canonicalize tree (absolute ns) = Inr p \<Longrightarrow> p = ns"
  using resolve_names [of tree "[]" ns p] by (simp add: canonicalize_def absolute_def)

lemma open_dir_at_prefix: "open_dir_at tree (p @ q) = Inr d \<Longrightarrow> \<exists>d'. open_dir_at tree p = Inr d'"
proof (induction p arbitrary: tree)
  case (Cons n ns)
  then obtain sub where "map_of tree n = Some (Dir sub)" "open_dir_at sub (ns @ q) = Inr d"
    by (auto split: option.splits node.splits)
  with Cons.IH show ?case by simp
qed simp

lemma resolve_dir: "open_dir_at tree (cur @ ns) = Inr d \<Longrightarrow> resolve tree cur (map Normal ns) = Inr (cur @ ns)"
proof (induction ns arbitrary: cur)
  case (Cons n ns)
  obtain d1 where d1: "open_dir_at tree cur = Inr d1" using open_dir_at_prefix [OF Cons.prems] by blast
  with Cons.prems have "open_dir_at d1 (n # ns) = Inr d" by (simp add: open_dir_at_append)
  then obtain sub where "map_of d1 n = Some (Dir sub)" by (auto split: option.splits node.splits)
  with Cons.IH [of "cur @ [n]"] Cons.prems d1 show ?case by simp
qed simp

lemma canonicalize_dir: "open_dir_at tree p = Inr d \<Longrightarrow> canonicalize tree (absolute p) = Inr p"
  using resolve_dir [of tree "[]" p d] by (simp add: canonicalize_def absolute_def)

lemma existing_prefix_absolute:
  assumes "canonicalize_existing_prefix (canonicalize tree) retry (absolute ns) = Inr (ancestor, missing)"
  shows "\<exists>rest. ns = ancestor @ rest \<and> missing = map Normal rest
    \<and> (\<forall>y x d. rest = y @ x \<and> y \<noteq> [] \<longrightarrow> open_dir_at tree (ancestor @ y) \<noteq> Inr d)"
proof -
  obtain pre popped where sound: "rev (rev (absolute ns)) = pre @ popped" "missing = popped @ []"
    "canonicalize tree (if pre = [] then [CurDir] else pre) = Inr ancestor"
    "\<forall>k < length popped. \<exists>e. canonicalize tree (pre @ take (Suc k) popped) = Inl e \<and> retry e" "RootDir \<notin> set popped"
    using existing_prefix_sound [OF assms [unfolded canonicalize_existing_prefix_def]] by blast
  then have pre: "absolute ns = pre @ popped" "missing = popped" "RootDir \<notin> set popped"
    "canonicalize tree (if pre = [] then [CurDir] else pre) = Inr ancestor"
    and gone: "\<And>k. k < length popped \<Longrightarrow> \<exists>e. canonicalize tree (pre @ take (Suc k) popped) = Inl e"
    by auto
  from pre(1,3) have "pre \<noteq> []" by (cases pre) (auto simp: absolute_def)
  then obtain xs where xs: "pre = RootDir # xs" "map Normal ns = xs @ popped"
    using pre(1) by (cases pre) (auto simp: absolute_def)
  from xs(2) obtain as bs where ab: "ns = as @ bs" "map Normal as = xs" "map Normal bs = popped"
    by (metis map_eq_append_conv)
  have as: "ancestor = as"
    using pre(4) xs(1) ab(2) canonicalize_absolute [of tree as ancestor] by (auto simp: absolute_def)
  have "open_dir_at tree (ancestor @ y) \<noteq> Inr d" if "bs = y @ x" "y \<noteq> []" for y x d
  proof
    assume "open_dir_at tree (ancestor @ y) = Inr d"
    then have "canonicalize tree (absolute (as @ y)) = Inr (as @ y)" using as by (simp add: canonicalize_dir)
    moreover have "take (Suc (length y - 1)) popped = map Normal y" using that ab(3) by auto
    moreover have "length y - 1 < length popped" using that ab(3) by (cases y) auto
    ultimately show False using gone [of "length y - 1"] xs(1) ab(2) by (auto simp: absolute_def)
  qed
  with ab as pre(2) show ?thesis by blast
qed

text \<open>The inventory of a root finds every policy below it.\<close>

lemma inventory_unmanaged: "inventory_loop lk u dirs = Inr v \<Longrightarrow> stack_ok lk dirs"
proof (induction lk u dirs rule: inventory_loop.induct)
  case (3 lk u n nd es dirs)
  then show ?case by (cases nd) (auto simp: stack_defs split: sum.splits bool.splits)
qed (auto simp: stack_defs)

lemma scannable_below:
  "list_all (\<lambda>(n, nd). scannable lk nd) d \<Longrightarrow> r \<noteq> [] \<Longrightarrow> \<not> installed d r"
proof (induction r arbitrary: d)
  case (Cons n ns)
  show ?case
  proof
    assume "installed d (n # ns)"
    then obtain sub where sub: "map_of d n = Some (Dir sub)" "installed sub ns" by (auto simp: installed_Cons)
    have "case (n, Dir sub) of (n, nd) \<Rightarrow> scannable lk nd"
      using Cons.prems(1) map_of_SomeD [OF sub(1)] unfolding list_all_iff by (rule bspec)
    then have s: "active_policy lk sub = Inr False" "list_all (\<lambda>(n, nd). scannable lk nd) sub" by simp_all
    show False
    proof (cases "ns = []")
      case True
      with sub(2) active_policy_False [OF s(1)] show ?thesis by (simp add: installed_Nil)
    next
      case False
      with Cons.IH [OF s(2)] sub(2) show ?thesis by blast
    qed
  qed
qed simp

lemma installed_below_cong:
  assumes "\<And>n. n \<noteq> CONTROL \<Longrightarrow> map_of d1 n = map_of d2 n" "\<And>s. map_of d1 CONTROL \<noteq> Some (Dir s)" "\<And>s. map_of d2 CONTROL \<noteq> Some (Dir s)"
  shows "r \<noteq> [] \<Longrightarrow> installed d1 r \<longleftrightarrow> installed d2 r"
  using assms by (cases r; cases "hd r = CONTROL") (auto simp: installed_Cons)

text \<open>What opening a storage leaves in the directory: a policy, and nothing changed below it.\<close>

lemma storage_open_installed:
  assumes "storage_open lk d limits = Inr (st, d2)"
  shows "holds_policy d2" and "r \<noteq> [] \<Longrightarrow> \<not> installed d2 r \<and> \<not> installed d r"
proof -
  obtain contents d1 u0 where oc: "open_control d True = Inr (contents, d1)" and inv: "inventory lk d1 = Inr u0"
    and out: "(\<exists>p. read_record (Inr contents) = Inr (Some p) \<and> d2 = d1)
      \<or> d2 = set_entry CONTROL (Reg 1 (encode limits)) d1"
    using assms by (auto simp: storage_open_def res_bind_Inr_iff split: option.splits if_splits)
  have control: "map_of d1 CONTROL = Some (Reg 1 contents)"
    and created: "d1 = d \<or> map_of d CONTROL = None \<and> d1 = d @ [(CONTROL, Reg 1 [])]"
    using oc
    by (auto simp: open_control_def open_lock_entry_def is_regular_entry_def res_bind_Inr_iff map_add_def
        elim!: checked_lock_file.elims split: option.splits node.splits if_splits bool.splits sum.splits)
  show "holds_policy d2"
    using out control read_record_bytes [of "\<lparr>rec_limits = limits, rec_generation = 0\<rparr>"]
    by (auto simp: holds_policy_def map_of_set_entry encode_record_bytes simp del: read_record.simps)
  assume r: "r \<noteq> []"
  have "\<not> installed d1 r"
    using inventory_unmanaged [OF inv [unfolded inventory_def]] r
    by (intro scannable_below [where lk = lk]) (simp_all add: stack_ok_def)
  moreover have "installed d2 r \<longleftrightarrow> installed d1 r"
    using out control by (intro installed_below_cong r) (auto simp: map_of_set_entry)
  moreover have "installed d r \<longleftrightarrow> installed d1 r"
    using created control by (intro installed_below_cong r) (auto simp: map_add_def split: option.splits)
  ultimately show "\<not> installed d2 r \<and> \<not> installed d r" by simp
qed

text \<open>What opening a root at a plain path ensures: no policy above it, and no policy moved.\<close>

lemma open_root_apart:
  assumes "open_root lk tree (absolute ns) overlap = Inr (tree1, canonical, dir)"
  shows "canonical = ns" and "open_dir_at tree1 ns = Inr dir" and "installed tree1 q \<longleftrightarrow> installed tree q"
    and "ns = p @ x \<Longrightarrow> x \<noteq> [] \<Longrightarrow> \<not> installed tree p"
proof -
  obtain ancestor missing where
    pre: "canonicalize_existing_prefix (canonicalize tree) (\<lambda>e. io_error_kind e = NotFound) (absolute ns) = Inr (ancestor, missing)"
    and m: "missing \<noteq> [] \<Longrightarrow> policy_at lk tree ancestor = Inr False"
    and up: "ancestor_policy lk tree (rev ancestor) None = Inr False"
    and mk: "create_dir_all tree (rev (absolute ns)) = Inr tree1"
    and can: "canonicalize tree1 (absolute ns) = Inr canonical" and dir: "open_dir_at tree1 canonical = Inr dir"
    using assms by (auto simp: open_root_def res_bind_Inr_iff split: if_splits)
  show c: "canonical = ns" by (rule canonicalize_absolute [OF can])
  show "open_dir_at tree1 ns = Inr dir" using dir c by simp
  show "installed tree1 q \<longleftrightarrow> installed tree q" by (rule create_dir_all_installed [OF mk])
  from existing_prefix_absolute [OF pre] obtain rest where rest: "ns = ancestor @ rest" "missing = map Normal rest"
    and gone: "\<And>y x d. rest = y @ x \<Longrightarrow> y \<noteq> [] \<Longrightarrow> open_dir_at tree (ancestor @ y) \<noteq> Inr d" by blast
  assume px: "ns = p @ x" "x \<noteq> []"
  from px(1) rest(1) obtain us where us: "ancestor = p @ us \<and> x = us @ rest \<or> p = ancestor @ us \<and> rest = us @ x"
    by (auto simp: append_eq_append_conv2)
  then consider y where "ancestor = p @ y" "y \<noteq> []" | y where "p = ancestor @ y" "rest = y @ x"
    by (cases "us = []") auto
  then show "\<not> installed tree p"
  proof cases
    case 1
    then show ?thesis using ancestor_policy_False [OF up, of p y] by simp
  next
    case (2 y)
    show ?thesis
    proof (cases "y = []")
      case True
      with 2 px(2) m rest(2) policy_at_False show ?thesis by auto
    next
      case False
      with gone 2 show ?thesis by (auto simp: installed_def)
    qed
  qed
qed

section \<open>Properties\<close>

text \<open>C14: policy roots do not overlap. On a tree without links on which no policy root lies below another, a
  successful installation at an absolute path of plain names puts a policy exactly there, leaves every other
  policy where it was, and again no policy root lies below another: an ancestor with a policy is refused before
  any directory is created, and a policy further down is found by the inventory.\<close>

theorem installation_keeps_roots_apart:
  assumes "unnested tree" and "install_policy lk tree (absolute ns) limits = Inr (tree2, canonical, st)"
  shows "canonical = ns \<and> unnested tree2 \<and> (installed tree2 q \<longleftrightarrow> q = ns \<or> installed tree q)"
proof -
  obtain tree1 dir dir1 where r: "open_root lk tree (absolute ns) UnsupportedRoot = Inr (tree1, canonical, dir)"
    and so: "storage_open lk dir limits = Inr (st, dir1)" and t2: "tree2 = replace_at tree1 canonical dir1"
    using assms(2) by (auto simp: install_policy_def res_bind_Inr_iff)
  note opened = open_root_apart [OF r]
  have member: "installed tree2 q \<longleftrightarrow> q = ns \<or> installed tree q" for q
  proof (cases "strip_prefix ns q")
    case None
    then have "q \<noteq> ns" using strip_prefix_Some [of ns q "[]"] by auto
    with None opened show ?thesis by (simp add: t2 installed_replace)
  next
    case (Some r)
    then have q: "q = ns @ r" by (simp add: strip_prefix_Some)
    have "installed tree1 q \<longleftrightarrow> installed dir r"
      using opened(2) by (simp add: q installed_def open_dir_at_append)
    then have "installed tree q \<longleftrightarrow> installed dir r" using opened(3) by blast
    with storage_open_installed(1) [OF so] storage_open_installed(2) [OF so, of r] Some opened q show ?thesis
      by (cases "r = []") (simp_all add: t2 installed_replace installed_Nil)
  qed
  have "unnested tree2"
    unfolding unnested_def member
  proof (intro allI impI)
    fix p x
    assume p: "p = ns \<or> installed tree p" and px: "p @ x = ns \<or> installed tree (p @ x)"
    show "x = []"
    proof (rule ccontr)
      assume x: "x \<noteq> []"
      show False
      proof (cases "p = ns")
        case True
        with px x have "installed tree (ns @ x)" by simp
        then have "installed tree1 (ns @ x)" using opened(3) by blast
        then have "installed dir x"
          using opened(2) by (simp add: installed_def open_dir_at_append)
        with storage_open_installed(2) [OF so x] show False by simp
      next
        case False
        with p px x opened(4) assms(1) show False by (auto simp: unnested_def)
      qed
    qed
  qed
  with member opened(1) show ?thesis by blast
qed

section \<open>Examples\<close>

text \<open>A tree with a managed root; every lock is free.\<close>

definition free_locks :: lock_call where
  "free_locks = (\<lambda>_ _. Inr ())"

definition managed_tree :: entries where
  "managed_tree = [(''srv'', Dir [(''managed'', Dir [(CONTROL, Reg 1 (encode storage_limits_new))])])]"

lemma installed_managed: "installed managed_tree p \<longleftrightarrow> p = [''srv'', ''managed'']"
proof -
  have "holds_policy [(CONTROL, Reg 1 (encode storage_limits_new))]"
    using read_record_bytes [of "\<lparr>rec_limits = storage_limits_new, rec_generation = 0\<rparr>"]
    by (auto simp: holds_policy_def encode_record_bytes simp del: read_record.simps)
  then show ?thesis
    by (cases p rule: list.exhaust; cases "tl p"; cases "tl (tl p)")
      (auto simp: managed_tree_def installed_Nil installed_Cons holds_policy_def CONTROL_def split: if_splits)
qed

lemma unnested_managed: "unnested managed_tree"
  by (simp add: unnested_def installed_managed)

lemma storage_open_new: "storage_open free_locks [] storage_limits_new =
   Inr (\<lparr>st_limits = storage_limits_new, st_cached = Some \<lparr>cached_generation = 0, cached_usage = \<lparr>usage_bytes = 40, usage_entries = 1\<rparr>\<rparr>\<rparr>,
        [(CONTROL, Reg 1 (encode storage_limits_new))])"
  by (simp add: storage_open_def open_control_def open_lock_entry_def lock_control_def file_lock_acquire_def free_locks_def
      inventory_def charge_def storage_add_def checked_add_def ok_or_def usage_default_def RECORD_LEN_def check_limits_def
      check_limit_def storage_limits_new_def)

lemmas evaluation = install_policy_def open_root_def canonicalize_existing_prefix_def canonicalize_def policy_at_def
  active_policy_def open_lock_entry_def is_regular_entry_def managed_tree_def absolute_def io_err_def CONTROL_def is_dir_def

lemma install_beside:
  "install_policy free_locks managed_tree (absolute [''srv'', ''site'']) storage_limits_new =
     Inr ([(''srv'', Dir [(''managed'', Dir [(CONTROL, Reg 1 (encode storage_limits_new))]),
            (''site'', Dir [(CONTROL, Reg 1 (encode storage_limits_new))])])], [''srv'', ''site''],
       \<lparr>st_limits = storage_limits_new,
        st_cached = Some \<lparr>cached_generation = 0, cached_usage = \<lparr>usage_bytes = 40, usage_entries = 1\<rparr>\<rparr>\<rparr>)"
  by (simp add: evaluation storage_open_new)

theorem installation_keeps_roots_apart_witness:
  "\<exists>tree2 st. install_policy free_locks managed_tree (absolute [''srv'', ''site'']) storage_limits_new = Inr (tree2, [''srv'', ''site''], st)
     \<and> unnested tree2 \<and> installed tree2 [''srv'', ''managed''] \<and> installed tree2 [''srv'', ''site'']"
  using installation_keeps_roots_apart [OF unnested_managed install_beside] install_beside installed_managed by blast

text \<open>C40: the restriction to plain paths is needed. The check of the ancestors looks at the part of a path that exists and
  never at the components that are missing; behind a missing directory, \<open>..\<close> leads back below a managed root. Such
  a path is not refused: its policy is installed below another one, although the path that it denotes is refused
  when it is written without the detour.\<close>

theorem detour_nests_roots:
  "(\<exists>tree2 st. install_policy free_locks managed_tree
       [RootDir, Normal ''srv'', Normal ''new'', ParentDir, Normal ''managed'', Normal ''b''] storage_limits_new
       = Inr (tree2, [''srv'', ''managed'', ''b''], st)
     \<and> installed tree2 [''srv'', ''managed''] \<and> installed tree2 [''srv'', ''managed'', ''b''] \<and> \<not> unnested tree2)
   \<and> install_policy free_locks managed_tree (absolute [''srv'', ''managed'', ''b'']) storage_limits_new = Inl UnsupportedRoot"
proof -
  let ?c = "(CONTROL, Reg 1 (encode storage_limits_new))"
  let ?t = "[(''srv'', Dir [(''managed'', Dir [?c, (''b'', Dir [?c])]), (''new'', Dir [])])]"
  have i: "install_policy free_locks managed_tree
       [RootDir, Normal ''srv'', Normal ''new'', ParentDir, Normal ''managed'', Normal ''b''] storage_limits_new
       = Inr (?t, [''srv'', ''managed'', ''b''], \<lparr>st_limits = storage_limits_new,
        st_cached = Some \<lparr>cached_generation = 0, cached_usage = \<lparr>usage_bytes = 40, usage_entries = 1\<rparr>\<rparr>\<rparr>)"
    by (simp add: evaluation storage_open_new)
  have h: "holds_policy [?c]" "holds_policy [?c, (''b'', Dir [?c])]"
    using read_record_bytes [of "\<lparr>rec_limits = storage_limits_new, rec_generation = 0\<rparr>"]
    by (auto simp: holds_policy_def encode_record_bytes simp del: read_record.simps)
  have n: "installed ?t [''srv'', ''managed'']" "installed ?t [''srv'', ''managed'', ''b'']"
    using h by (simp_all add: installed_Cons installed_Nil CONTROL_def)
  then have "\<not> unnested ?t" unfolding unnested_def by (metis append_Cons append_Nil list.distinct(1))
  with i n have nested: "\<exists>tree2 st. install_policy free_locks managed_tree
       [RootDir, Normal ''srv'', Normal ''new'', ParentDir, Normal ''managed'', Normal ''b''] storage_limits_new
       = Inr (tree2, [''srv'', ''managed'', ''b''], st)
     \<and> installed tree2 [''srv'', ''managed''] \<and> installed tree2 [''srv'', ''managed'', ''b''] \<and> \<not> unnested tree2"
    by blast
  have "read_record (Inr (encode storage_limits_new)) = Inr (Some \<lparr>rec_limits = storage_limits_new, rec_generation = 0\<rparr>)"
    using read_record_bytes [of "\<lparr>rec_limits = storage_limits_new, rec_generation = 0\<rparr>"]
    by (simp add: encode_record_bytes del: read_record.simps)
  then have "install_policy free_locks managed_tree (absolute [''srv'', ''managed'', ''b'']) storage_limits_new = Inl UnsupportedRoot"
    by (simp add: evaluation lock_control_def file_lock_acquire_def free_locks_def del: read_record.simps)
  with nested show ?thesis by blast
qed

end
