(* ===== verification/Scoped_Work.thy ===== *)
theory Scoped_Work
  imports Owner_Scope
begin

text \<open>
  Work kept in its reactive scope (\<open>ScopedWork\<close> and \<open>OwnerContextFuture\<close> of \<^verbatim>\<open>src/owner.rs\<close>). A value is wrapped
  together with the owner and the observer that are current at that moment; every poll and the destructor of the
  value then run with them, and the caller finds its own again. \<open>Owner_Scope\<close> follows the lifetime of a request's
  owner across threads; here one thread runs nested work: polled values create, poll and destroy others, and
  unwind at any point.

  The reactive system is third-party: \<open>so_scoped\<close> is one poll of its \<open>ScopedFuture\<close>, \<open>so_with_owner\<close> and
  \<open>so_with_observer\<close> are \<open>Owner::with\<close> and \<open>with_observer\<close>. Each runs a computation, which returns (\<open>True\<close>) or
  unwinds (\<open>False\<close>). None of them is relied on to give the caller its owner back.
\<close>

section \<open>Scopes\<close>

record scoped =
  sw_owner :: nat
  sw_observer :: "nat option"

text \<open>What happens to the wrapped value \<open>i\<close>: it is wrapped, polled or destroyed with an owner and an observer, and
  finally its owner handle is released.\<close>

datatype scope_event =
    Wrapped nat scoped
  | Polling nat "nat option" "nat option"
  | Destroying nat "nat option" "nat option"
  | Released nat

fun event_item :: "scope_event \<Rightarrow> nat" where
  "event_item (Wrapped i it) = i"
| "event_item (Polling i w ob) = i"
| "event_item (Destroying i w ob) = i"
| "event_item (Released i) = i"

record reactive =
  rx_owner :: "nat option"
  rx_observer :: "nat option"
  rx_fresh :: nat
  rx_items :: "nat \<Rightarrow> scoped option"
  rx_used :: "nat set"
  rx_log :: "scope_event list"

type_synonym computation = "reactive \<Rightarrow> reactive \<times> bool"

record scope_ops =
  so_owner :: owner_ops
  so_scoped :: "nat \<Rightarrow> nat option \<Rightarrow> computation \<Rightarrow> computation"
  so_with_owner :: "nat \<Rightarrow> computation \<Rightarrow> computation"
  so_with_observer :: "nat option \<Rightarrow> computation \<Rightarrow> computation"

text \<open>The documented behaviour: the computation runs once, with that owner or observer current; the observer is
  restored afterwards, the owner may be anything.\<close>

definition scope_laws :: "scope_ops \<Rightarrow> bool" where
  "scope_laws ops \<longleftrightarrow> owner_laws (so_owner ops)
     \<and> (\<forall>w ob f c. \<exists>x. so_scoped ops w ob f c =
          (case f (c\<lparr>rx_owner := Some w, rx_observer := ob\<rparr>) of
             (c', r) \<Rightarrow> (c'\<lparr>rx_owner := x, rx_observer := rx_observer c\<rparr>, r)))
     \<and> (\<forall>w f c. \<exists>x. so_with_owner ops w f c =
          (case f (c\<lparr>rx_owner := Some w\<rparr>) of (c', r) \<Rightarrow> (c'\<lparr>rx_owner := x\<rparr>, r)))
     \<and> (\<forall>ob f c. so_with_observer ops ob f c =
          (case f (c\<lparr>rx_observer := ob\<rparr>) of (c', r) \<Rightarrow> (c'\<lparr>rx_observer := rx_observer c\<rparr>, r)))"

section \<open>Operations\<close>

definition log_scope :: "reactive \<Rightarrow> scope_event \<Rightarrow> reactive" where
  "log_scope c e = c\<lparr>rx_log := rx_log c @ [e]\<rparr>"

text \<open>Dropping the guard \<open>RestoreOwner\<close> that captured \<open>previous\<close>.\<close>

definition restore_owner :: "scope_ops \<Rightarrow> nat option \<Rightarrow> reactive \<Rightarrow> reactive" where
  "restore_owner ops previous c = c\<lparr>rx_owner := restore (so_owner ops) previous (rx_owner c)\<rparr>"

text \<open>\<open>OwnerContextFuture\<close>: its poll and its destructor put the guard around those of the future.\<close>

definition context_future_poll :: "scope_ops \<Rightarrow> computation \<Rightarrow> computation" where
  "context_future_poll ops f c = (case f c of (c', r) \<Rightarrow> (restore_owner ops (rx_owner c) c', r))"

definition context_future_drop :: "scope_ops \<Rightarrow> computation \<Rightarrow> computation" where
  "context_future_drop ops f c = (case f c of (c', r) \<Rightarrow> (restore_owner ops (rx_owner c) c', r))"

text \<open>\<open>from_pin_with_owner\<close>: the value \<open>i\<close> is wrapped with the current observer.\<close>

definition wrap_with_owner :: "nat \<Rightarrow> nat \<Rightarrow> reactive \<Rightarrow> reactive" where
  "wrap_with_owner i w c =
     (let it = \<lparr>sw_owner = w, sw_observer = rx_observer c\<rparr>
      in log_scope (c\<lparr>rx_items := (rx_items c)(i \<mapsto> it), rx_used := insert i (rx_used c)\<rparr>) (Wrapped i it))"

text \<open>\<open>ScopedWork::new\<close>: with the current owner, or a new one.\<close>

definition wrap_new :: "nat \<Rightarrow> reactive \<Rightarrow> reactive" where
  "wrap_new i c =
     (case rx_owner c of
        Some w \<Rightarrow> wrap_with_owner i w c
      | None \<Rightarrow> wrap_with_owner i (rx_fresh c) (c\<lparr>rx_fresh := Suc (rx_fresh c)\<rparr>))"

definition poll_in_scope :: "scope_ops \<Rightarrow> scoped \<Rightarrow> computation \<Rightarrow> computation" where
  "poll_in_scope ops it f c =
     (case so_scoped ops (sw_owner it) (sw_observer it) f c of
        (c', r) \<Rightarrow> (restore_owner ops (rx_owner c) c', r))"

text \<open>A poll borrows the value: until it is over nobody else reaches it.\<close>

definition scoped_poll :: "scope_ops \<Rightarrow> nat \<Rightarrow> scoped \<Rightarrow> computation \<Rightarrow> computation" where
  "scoped_poll ops i it f c =
     (case poll_in_scope ops it (\<lambda>c. f (log_scope c (Polling i (rx_owner c) (rx_observer c)))) (c\<lparr>rx_items := (rx_items c)(i := None)\<rparr>) of
        (c', r) \<Rightarrow> (c'\<lparr>rx_items := (rx_items c')(i \<mapsto> it)\<rparr>, r))"

text \<open>\<open>ScopedWork::drop\<close>: the value first, then the handle of its owner, whether or not the value unwinds.\<close>

definition scoped_drop :: "scope_ops \<Rightarrow> nat \<Rightarrow> scoped \<Rightarrow> computation \<Rightarrow> computation" where
  "scoped_drop ops i it f c =
     (case so_with_owner ops (sw_owner it)
             (so_with_observer ops (sw_observer it) (\<lambda>c. f (log_scope c (Destroying i (rx_owner c) (rx_observer c)))))
             (c\<lparr>rx_items := (rx_items c)(i := None)\<rparr>) of
        (c', r) \<Rightarrow> (restore_owner ops (rx_owner c) (log_scope c' (Released i)), r))"

section \<open>Nested work\<close>

text \<open>What a poll or a destructor may do: third-party code that leaves any owner and observer behind, a panic,
  a sequence, a caught panic, and the operations above around further work. Identifiers are not used twice.\<close>

datatype work =
    Leave "nat option" "nat option"
  | Unwind
  | Then work work
  | Catch work
  | Wrap nat
  | Wrap_In nat nat
  | Poll nat work
  | Destroy nat work
  | Context_Poll work
  | Context_Drop work

primrec run :: "scope_ops \<Rightarrow> work \<Rightarrow> computation" where
  "run ops (Leave w ob) c = (c\<lparr>rx_owner := w, rx_observer := ob\<rparr>, True)"
| "run ops Unwind c = (c, False)"
| "run ops (Then a b) c = (case run ops a c of (c', r) \<Rightarrow> if r then run ops b c' else (c', False))"
| "run ops (Catch a) c = (fst (run ops a c), True)"
| "run ops (Wrap i) c = (if i \<in> rx_used c then c else wrap_new i c, True)"
| "run ops (Wrap_In i w) c = (if i \<in> rx_used c then c else wrap_with_owner i w c, True)"
| "run ops (Poll i a) c = (case rx_items c i of None \<Rightarrow> (c, True) | Some it \<Rightarrow> scoped_poll ops i it (run ops a) c)"
| "run ops (Destroy i a) c = (case rx_items c i of None \<Rightarrow> (c, True) | Some it \<Rightarrow> scoped_drop ops i it (run ops a) c)"
| "run ops (Context_Poll a) c = context_future_poll ops (run ops a) c"
| "run ops (Context_Drop a) c = context_future_drop ops (run ops a) c"

definition reactive_start :: "nat option \<Rightarrow> nat option \<Rightarrow> nat \<Rightarrow> reactive" where
  "reactive_start owner observer fresh =
     \<lparr>rx_owner = owner, rx_observer = observer, rx_fresh = fresh, rx_items = (\<lambda>_. None), rx_used = {}, rx_log = []\<rparr>"

section \<open>The scope of every event\<close>

lemma owner_laws_ops: "scope_laws ops \<Longrightarrow> owner_laws (so_owner ops)"
  by (simp add: scope_laws_def)

lemma restore_owner_exact: "scope_laws ops \<Longrightarrow> restore_owner ops previous c = c\<lparr>rx_owner := previous\<rparr>"
  by (simp add: restore_owner_def restore_exact owner_laws_ops)

text \<open>What a poll and a destructor amount to under the laws.\<close>

definition enter :: "scoped \<Rightarrow> reactive \<Rightarrow> reactive" where
  "enter it c = c\<lparr>rx_owner := Some (sw_owner it), rx_observer := sw_observer it\<rparr>"

definition leave :: "reactive \<Rightarrow> reactive \<Rightarrow> reactive" where
  "leave c c' = c'\<lparr>rx_owner := rx_owner c, rx_observer := rx_observer c\<rparr>"

definition borrowed :: "nat \<Rightarrow> reactive \<Rightarrow> reactive" where
  "borrowed i c = c\<lparr>rx_items := (rx_items c)(i := None)\<rparr>"

definition put_back :: "nat \<Rightarrow> scoped \<Rightarrow> reactive \<Rightarrow> reactive" where
  "put_back i it c = c\<lparr>rx_items := (rx_items c)(i \<mapsto> it)\<rparr>"

lemma enter_log: "log_scope (enter it c) e = enter it (log_scope c e)"
  by (simp add: enter_def log_scope_def)

lemma log_update:
  "log_scope (c\<lparr>rx_owner := w\<rparr>) e = (log_scope c e)\<lparr>rx_owner := w\<rparr>"
  "log_scope (c\<lparr>rx_observer := ob\<rparr>) e = (log_scope c e)\<lparr>rx_observer := ob\<rparr>"
  "c\<lparr>rx_observer := ob, rx_owner := w\<rparr> = c\<lparr>rx_owner := w, rx_observer := ob\<rparr>"
  by (simp_all add: log_scope_def)

lemma leave_simps [simp]:
  "rx_owner (leave c c') = rx_owner c" "rx_observer (leave c c') = rx_observer c" "rx_items (leave c c') = rx_items c'"
  by (simp_all add: leave_def)

lemma scoped_poll_run:
  assumes "scope_laws ops"
  shows "scoped_poll ops i it f c = (c', r) \<longleftrightarrow>
    (\<exists>c2. f (enter it (log_scope (borrowed i c) (Polling i (Some (sw_owner it)) (sw_observer it)))) = (c2, r)
       \<and> c' = leave c (put_back i it c2))"
proof -
  let ?g = "\<lambda>c. f (log_scope c (Polling i (rx_owner c) (rx_observer c)))"
  obtain x where "so_scoped ops (sw_owner it) (sw_observer it) ?g (borrowed i c) =
      (case ?g (enter it (borrowed i c)) of
             (c', r) \<Rightarrow> (c'\<lparr>rx_owner := x, rx_observer := rx_observer (borrowed i c)\<rparr>, r))"
    using assms unfolding scope_laws_def enter_def by blast
  moreover have "rx_owner (enter it d) = Some (sw_owner it)" "rx_observer (enter it d) = sw_observer it" for d
    by (simp_all add: enter_def)
  ultimately show ?thesis
    unfolding scoped_poll_def poll_in_scope_def borrowed_def [symmetric]
    by (auto simp: restore_owner_exact [OF assms] enter_log leave_def put_back_def borrowed_def split: prod.split)
qed

lemma scoped_drop_run:
  assumes "scope_laws ops"
  shows "scoped_drop ops i it f c = (c', r) \<longleftrightarrow>
    (\<exists>c2. f (enter it (log_scope (borrowed i c) (Destroying i (Some (sw_owner it)) (sw_observer it)))) = (c2, r)
       \<and> c' = leave c (log_scope c2 (Released i)))"
proof -
  let ?g = "\<lambda>c. f (log_scope c (Destroying i (rx_owner c) (rx_observer c)))"
  let ?o = "so_with_observer ops (sw_observer it) ?g"
  obtain x where w: "so_with_owner ops (sw_owner it) ?o (borrowed i c) =
      (case ?o ((borrowed i c)\<lparr>rx_owner := Some (sw_owner it)\<rparr>) of (c', r) \<Rightarrow> (c'\<lparr>rx_owner := x\<rparr>, r))"
    using assms unfolding scope_laws_def by blast
  have ob: "?o ((borrowed i c)\<lparr>rx_owner := Some (sw_owner it)\<rparr>) =
      (case ?g (enter it (borrowed i c)) of (c', r) \<Rightarrow> (c'\<lparr>rx_observer := rx_observer c\<rparr>, r))"
    using assms unfolding scope_laws_def enter_def by (simp add: borrowed_def)
  have "rx_owner (enter it d) = Some (sw_owner it)" "rx_observer (enter it d) = sw_observer it" for d
    by (simp_all add: enter_def)
  then show ?thesis
    unfolding scoped_drop_def borrowed_def [symmetric] w ob
    by (auto simp: restore_owner_exact [OF assms] enter_log leave_def log_update split: prod.split)
qed

text \<open>After the release of a value's owner nothing happens to the value, and it was destroyed before.\<close>

definition ended_ok :: "scope_event list \<Rightarrow> bool" where
  "ended_ok es \<longleftrightarrow> (\<forall>xs i ys. es = xs @ Released i # ys \<longrightarrow>
     (\<forall>e \<in> set ys. event_item e \<noteq> i) \<and> (\<exists>w ob. Destroying i w ob \<in> set xs))"

text \<open>A value is wrapped once, and every poll and its destruction see what it was wrapped with.\<close>

definition seen_ok :: "scope_event list \<Rightarrow> bool" where
  "seen_ok es \<longleftrightarrow> (\<forall>i it it'. Wrapped i it \<in> set es \<longrightarrow> Wrapped i it' \<in> set es \<longrightarrow> it = it')
     \<and> (\<forall>i w ob. Polling i w ob \<in> set es \<or> Destroying i w ob \<in> set es \<longrightarrow>
          (\<exists>it. Wrapped i it \<in> set es \<and> w = Some (sw_owner it) \<and> ob = sw_observer it))"

definition scoped_ok :: "reactive \<Rightarrow> bool" where
  "scoped_ok c \<longleftrightarrow> (\<forall>e \<in> set (rx_log c). event_item e \<in> rx_used c)
     \<and> (\<forall>i it. rx_items c i = Some it \<longrightarrow> i \<in> rx_used c \<and> Wrapped i it \<in> set (rx_log c) \<and> Released i \<notin> set (rx_log c))
     \<and> seen_ok (rx_log c) \<and> ended_ok (rx_log c)"

text \<open>Work only adds to the log, and nothing that is borrowed or gone is touched by it.\<close>

definition extends :: "reactive \<Rightarrow> reactive \<Rightarrow> bool" where
  "extends c c' \<longleftrightarrow> (\<exists>es. rx_log c' = rx_log c @ es \<and> rx_used c \<subseteq> rx_used c'
     \<and> (\<forall>i \<in> rx_used c. rx_items c i = None \<longrightarrow> rx_items c' i = None \<and> (\<forall>e \<in> set es. event_item e \<noteq> i)))"

lemma ended_ok_Nil [simp]: "ended_ok []"
  by (simp add: ended_ok_def)

lemma ended_ok_snoc:
  "ended_ok (es @ [e]) \<longleftrightarrow> ended_ok es \<and> (\<forall>i. Released i \<in> set es \<longrightarrow> event_item e \<noteq> i)
     \<and> (\<forall>i. e = Released i \<longrightarrow> (\<exists>w ob. Destroying i w ob \<in> set es))" (is "?l \<longleftrightarrow> ?r")
proof
  assume l: ?l
  have "ended_ok es"
    unfolding ended_ok_def
  proof (intro allI impI)
    fix xs i ys
    assume "es = xs @ Released i # ys"
    then have "es @ [e] = xs @ Released i # (ys @ [e])" by simp
    with l show "(\<forall>e \<in> set ys. event_item e \<noteq> i) \<and> (\<exists>w ob. Destroying i w ob \<in> set xs)" unfolding ended_ok_def by fastforce
  qed
  moreover have "event_item e \<noteq> i" if "Released i \<in> set es" for i
  proof -
    from that obtain xs ys where "es = xs @ Released i # ys" by (meson split_list)
    then have "es @ [e] = xs @ Released i # (ys @ [e])" by simp
    with l show ?thesis unfolding ended_ok_def by fastforce
  qed
  moreover have "\<exists>w ob. Destroying i w ob \<in> set es" if "e = Released i" for i
    using l that unfolding ended_ok_def by blast
  ultimately show ?r by blast
next
  assume r: ?r
  show ?l
    unfolding ended_ok_def
  proof (intro allI impI)
    fix xs i ys
    assume eq: "es @ [e] = xs @ Released i # ys"
    show "(\<forall>e \<in> set ys. event_item e \<noteq> i) \<and> (\<exists>w ob. Destroying i w ob \<in> set xs)"
    proof (cases ys rule: rev_cases)
      case Nil
      with eq have "es = xs" "e = Released i" by simp_all
      with r Nil show ?thesis by auto
    next
      case (snoc zs z)
      with eq have "es = xs @ Released i # zs" "z = e" by simp_all
      with r snoc show ?thesis unfolding ended_ok_def by auto
    qed
  qed
qed

lemma seen_ok_snoc:
  "seen_ok es \<Longrightarrow> (\<forall>i it it'. e = Wrapped i it \<longrightarrow> Wrapped i it' \<notin> set es) \<Longrightarrow>
   (\<forall>i w ob. e = Polling i w ob \<or> e = Destroying i w ob \<longrightarrow>
      (\<exists>it. Wrapped i it \<in> set es \<and> w = Some (sw_owner it) \<and> ob = sw_observer it)) \<Longrightarrow> seen_ok (es @ [e])"
  unfolding seen_ok_def by auto blast+

lemma extends_refl [simp]: "extends c c"
  by (simp add: extends_def)

lemma extends_trans: "extends a b \<Longrightarrow> extends b c \<Longrightarrow> extends a c"
  unfolding extends_def by (elim exE conjE, rule_tac x = "es @ esa" in exI) (simp, blast)

lemma current_irrelevant [simp]:
  "scoped_ok (c\<lparr>rx_owner := w\<rparr>) = scoped_ok c" "scoped_ok (c\<lparr>rx_observer := ob\<rparr>) = scoped_ok c"
  "extends (c\<lparr>rx_owner := w\<rparr>) c' = extends c c'" "extends (c\<lparr>rx_observer := ob\<rparr>) c' = extends c c'"
  "extends c (c'\<lparr>rx_owner := w\<rparr>) = extends c c'" "extends c (c'\<lparr>rx_observer := ob\<rparr>) = extends c c'"
  "scoped_ok (c\<lparr>rx_fresh := n\<rparr>) = scoped_ok c" "extends (c\<lparr>rx_fresh := n\<rparr>) c' = extends c c'"
  "scoped_ok (enter it c) = scoped_ok c" "extends (enter it c) c' = extends c c'"
  "scoped_ok (leave d c) = scoped_ok c" "extends c (leave d c') = extends c c'"
  by (simp_all add: scoped_ok_def extends_def enter_def leave_def)

lemma wrap_ok:
  assumes "scoped_ok c" "i \<notin> rx_used c"
  shows "scoped_ok (wrap_with_owner i w c) \<and> extends c (wrap_with_owner i w c)"
proof -
  have "rx_items c i = None" using assms by (cases "rx_items c i") (auto simp: scoped_ok_def)
  then have fresh: "\<forall>e \<in> set (rx_log c). event_item e \<noteq> i" "rx_items c i = None" using assms by (auto simp: scoped_ok_def)
  have "ended_ok (rx_log c @ [Wrapped i it])" for it
    unfolding ended_ok_snoc using assms(1) fresh(1) by (auto simp: scoped_ok_def)
  moreover have "seen_ok (rx_log c @ [Wrapped i it])" for it
    using assms(1) fresh(1) by (intro seen_ok_snoc) (auto simp: scoped_ok_def)
  ultimately show ?thesis
    using assms fresh by (auto simp: wrap_with_owner_def log_scope_def Let_def scoped_ok_def extends_def)
qed

text \<open>Beginning a poll or a destruction of a value that nobody has borrowed.\<close>

lemma begin_ok:
  assumes "scoped_ok c" "rx_items c i = Some it"
    and e: "e = Polling i (Some (sw_owner it)) (sw_observer it) \<or> e = Destroying i (Some (sw_owner it)) (sw_observer it)"
    and c1: "c1 = log_scope (borrowed i c) e"
  shows "scoped_ok c1" and "\<And>c'. extends c1 c' \<Longrightarrow> rx_items c' i = None \<and> Released i \<notin> set (rx_log c')
      \<and> Wrapped i it \<in> set (rx_log c') \<and> e \<in> set (rx_log c') \<and> i \<in> rx_used c'
      \<and> extends c (put_back i it c') \<and> extends c c'"
proof -
  have s: "i \<in> rx_used c" "Wrapped i it \<in> set (rx_log c)" "Released i \<notin> set (rx_log c)" "seen_ok (rx_log c)" "ended_ok (rx_log c)"
    using assms(1,2) by (auto simp: scoped_ok_def)
  have item: "event_item e = i" using e by auto
  have "ended_ok (rx_log c @ [e])"
    unfolding ended_ok_snoc using s(3,5) e by auto
  moreover have "seen_ok (rx_log c @ [e])"
    using s(2,4) e by (intro seen_ok_snoc) auto
  ultimately show "scoped_ok c1"
    using assms(1) s item e by (auto simp: c1 scoped_ok_def log_scope_def borrowed_def)
  fix c'
  assume x: "extends c1 c'"
  then obtain es where es: "rx_log c' = rx_log c @ e # es" "rx_used c \<subseteq> rx_used c'"
    and none: "\<forall>j \<in> rx_used c. j = i \<or> rx_items c j = None \<longrightarrow> rx_items c' j = None \<and> (\<forall>x \<in> set es. event_item x \<noteq> j)"
    unfolding extends_def by (auto simp: c1 log_scope_def borrowed_def)
  have "Released i \<notin> set es" using none s(1) by force
  moreover have "extends c (put_back i it c')" "extends c c'"
    unfolding extends_def by (intro exI [of _ "e # es"], use es none assms(2) item in \<open>auto simp: put_back_def\<close>)+
  ultimately show "rx_items c' i = None \<and> Released i \<notin> set (rx_log c') \<and> Wrapped i it \<in> set (rx_log c')
      \<and> e \<in> set (rx_log c') \<and> i \<in> rx_used c'
      \<and> extends c (put_back i it c') \<and> extends c c'"
    using es none s e by auto
qed

lemma release_ok:
  assumes "scoped_ok c" "rx_items c i = None" "Released i \<notin> set (rx_log c)" "Destroying i w ob \<in> set (rx_log c)" "i \<in> rx_used c"
  shows "scoped_ok (log_scope c (Released i))"
proof -
  have "ended_ok (rx_log c @ [Released i])"
    unfolding ended_ok_snoc using assms by (auto simp: scoped_ok_def)
  moreover have "seen_ok (rx_log c @ [Released i])"
    using assms(1) by (intro seen_ok_snoc) (auto simp: scoped_ok_def)
  ultimately show ?thesis using assms by (auto simp: scoped_ok_def log_scope_def)
qed

lemma put_back_ok:
  "scoped_ok c \<Longrightarrow> Wrapped i it \<in> set (rx_log c) \<Longrightarrow> Released i \<notin> set (rx_log c) \<Longrightarrow> i \<in> rx_used c \<Longrightarrow>
   scoped_ok (put_back i it c)"
  by (auto simp: scoped_ok_def put_back_def)

lemma release_extends:
  "extends c c' \<Longrightarrow> rx_items c i \<noteq> None \<Longrightarrow> extends c (log_scope c' (Released i))"
  unfolding extends_def by (elim exE conjE, rule_tac x = "es @ [Released i]" in exI) (auto simp: log_scope_def)

lemma poll_ok:
  assumes "scope_laws ops" "scoped_ok c" "rx_items c i = Some it" "scoped_poll ops i it (run ops a) c = (c', r)"
    and IH: "\<And>c c' r. run ops a c = (c', r) \<Longrightarrow> scoped_ok c \<Longrightarrow> scoped_ok c' \<and> extends c c'"
  shows "scoped_ok c' \<and> extends c c'"
proof -
  define e where "e = Polling i (Some (sw_owner it)) (sw_observer it)"
  define c1 where "c1 = log_scope (borrowed i c) e"
  note begun = begin_ok [OF assms(2,3) disjI1 [OF e_def] c1_def]
  obtain c2 where c2: "run ops a (enter it c1) = (c2, r)" and c': "c' = leave c (put_back i it c2)"
    using assms(4) unfolding scoped_poll_run [OF assms(1)] c1_def e_def by blast
  from IH [OF c2] begun(1) have ok: "scoped_ok c2" "extends c1 c2" by simp_all
  from begun(2) [OF ok(2)] put_back_ok [OF ok(1)] show ?thesis by (simp add: c')
qed

lemma drop_ok:
  assumes "scope_laws ops" "scoped_ok c" "rx_items c i = Some it" "scoped_drop ops i it (run ops a) c = (c', r)"
    and IH: "\<And>c c' r. run ops a c = (c', r) \<Longrightarrow> scoped_ok c \<Longrightarrow> scoped_ok c' \<and> extends c c'"
  shows "scoped_ok c' \<and> extends c c'"
proof -
  define e where "e = Destroying i (Some (sw_owner it)) (sw_observer it)"
  define c1 where "c1 = log_scope (borrowed i c) e"
  note begun = begin_ok [OF assms(2,3) disjI2 [OF e_def] c1_def]
  obtain c2 where c2: "run ops a (enter it c1) = (c2, r)" and c': "c' = leave c (log_scope c2 (Released i))"
    using assms(4) unfolding scoped_drop_run [OF assms(1)] c1_def e_def by blast
  from IH [OF c2] begun(1) have ok: "scoped_ok c2" "extends c1 c2" by simp_all
  from begun(2) [OF ok(2)] have b: "rx_items c2 i = None" "Released i \<notin> set (rx_log c2)" "e \<in> set (rx_log c2)" "i \<in> rx_used c2"
    "extends c c2" by simp_all
  show ?thesis
    using release_ok [OF ok(1) b(1,2) b(3) [unfolded e_def] b(4)] release_extends [OF b(5), of i] assms(3) by (simp add: c')
qed

lemma run_ok:
  assumes "scope_laws ops"
  shows "run ops w c = (c', r) \<Longrightarrow> scoped_ok c \<Longrightarrow> scoped_ok c' \<and> extends c c'"
proof (induction w arbitrary: c c' r)
  case (Leave w ob)
  then have "c' = c\<lparr>rx_owner := w\<rparr>\<lparr>rx_observer := ob\<rparr>" by simp
  with Leave.prems(2) show ?case by (simp only: current_irrelevant extends_refl)
next
  case (Then a b)
  then obtain c1 r1 where a: "run ops a c = (c1, r1)" and b: "if r1 then run ops b c1 = (c', r) else c' = c1"
    by (auto split: prod.splits if_splits)
  from Then.IH(1) [OF a Then.prems(2)] have c1: "scoped_ok c1" "extends c c1" by simp_all
  show ?case
  proof (cases r1)
    case True
    with b have "run ops b c1 = (c', r)" by simp
    from Then.IH(2) [OF this c1(1)] extends_trans [OF c1(2)] show ?thesis by blast
  qed (use b c1 in simp)
next
  case (Catch a)
  then obtain r1 where "run ops a c = (c', r1)" by (cases "run ops a c") auto
  from Catch.IH [OF this Catch.prems(2)] show ?case .
next
  case (Wrap i)
  then show ?case
    using wrap_ok [of c i] wrap_ok [of "c\<lparr>rx_fresh := Suc (rx_fresh c)\<rparr>" i]
    by (auto simp: wrap_new_def split: if_splits option.splits)
next
  case (Wrap_In i w)
  then show ?case using wrap_ok [of c i w] by (auto split: if_splits)
next
  case (Poll i a)
  show ?case
  proof (cases "rx_items c i")
    case (Some it)
    with Poll.prems(1) have "scoped_poll ops i it (run ops a) c = (c', r)" by simp
    from poll_ok [OF assms Poll.prems(2) Some this Poll.IH] show ?thesis .
  qed (use Poll.prems in simp)
next
  case (Destroy i a)
  show ?case
  proof (cases "rx_items c i")
    case (Some it)
    with Destroy.prems(1) have "scoped_drop ops i it (run ops a) c = (c', r)" by simp
    from drop_ok [OF assms Destroy.prems(2) Some this Destroy.IH] show ?thesis .
  qed (use Destroy.prems in simp)
next
  case (Context_Poll a)
  then obtain c1 where a: "run ops a c = (c1, r)" and c': "c' = c1\<lparr>rx_owner := rx_owner c\<rparr>"
    by (auto simp: context_future_poll_def restore_owner_exact [OF assms] split: prod.splits)
  from Context_Poll.IH [OF a Context_Poll.prems(2)] show ?case by (simp add: c')
next
  case (Context_Drop a)
  then obtain c1 where a: "run ops a c = (c1, r)" and c': "c' = c1\<lparr>rx_owner := rx_owner c\<rparr>"
    by (auto simp: context_future_drop_def restore_owner_exact [OF assms] split: prod.splits)
  from Context_Drop.IH [OF a Context_Drop.prems(2)] show ?case by (simp add: c')
qed simp

section \<open>Property\<close>

text \<open>C11: wrapped work runs in the scope it was created in, and nowhere leaks a scope of its own. Whatever nested
  work does, sets and unwinds: each poll of a wrapped value and its destructor see exactly the owner and the
  observer with which the value was wrapped; the handle of the owner is released after the value was destroyed,
  and nothing happens to the value afterwards; and the caller of a poll or of the destructor has its own owner
  and observer back, on return as on unwinding, as it has its owner back from a context future.\<close>

theorem wrapped_work_keeps_scope:
  assumes "scope_laws ops" and "run ops w (reactive_start owner observer fresh) = (c, r)"
    and "run ops around c = (c', r')"
  shows "(\<forall>i x ob. Polling i x ob \<in> set (rx_log c) \<or> Destroying i x ob \<in> set (rx_log c) \<longrightarrow>
            (\<exists>it. Wrapped i it \<in> set (rx_log c) \<and> (\<forall>it'. Wrapped i it' \<in> set (rx_log c) \<longrightarrow> it' = it)
               \<and> x = Some (sw_owner it) \<and> ob = sw_observer it))
     \<and> (\<forall>xs i ys. rx_log c = xs @ Released i # ys \<longrightarrow>
            (\<forall>e \<in> set ys. event_item e \<noteq> i) \<and> (\<exists>x ob. Destroying i x ob \<in> set xs))
     \<and> (case around of
          Poll i a \<Rightarrow> rx_owner c' = rx_owner c \<and> rx_observer c' = rx_observer c
        | Destroy i a \<Rightarrow> rx_owner c' = rx_owner c \<and> rx_observer c' = rx_observer c \<and> rx_items c' i = None
        | Context_Poll a \<Rightarrow> rx_owner c' = rx_owner c
        | Context_Drop a \<Rightarrow> rx_owner c' = rx_owner c
        | _ \<Rightarrow> True)"
proof -
  have "scoped_ok (reactive_start owner observer fresh)" by (simp add: scoped_ok_def reactive_start_def seen_ok_def)
  with run_ok [OF assms(1,2)] have ok: "scoped_ok c" by blast
  have boundary: "rx_owner c' = rx_owner c \<and> rx_observer c' = rx_observer c" if "around = Poll i a \<or> around = Destroy i a" for i a
    using assms(3) that by (cases "rx_items c i") (auto simp: scoped_poll_run [OF assms(1)] scoped_drop_run [OF assms(1)])
  have gone: "rx_items c' i = None" if d: "around = Destroy i a" for i a
  proof (cases "rx_items c i")
    case (Some it)
    let ?c1 = "log_scope (borrowed i c) (Destroying i (Some (sw_owner it)) (sw_observer it))"
    obtain c2 where c2: "run ops a (enter it ?c1) = (c2, r')" and c': "rx_items c' = rx_items c2"
      using assms(3) Some d by (auto simp: scoped_drop_run [OF assms(1)] log_scope_def)
    note begun = begin_ok [OF ok Some disjI2 [OF refl] refl]
    from run_ok [OF assms(1) c2] begun(1) have "extends ?c1 c2" by simp
    from begun(2) [OF this] c' show ?thesis by simp
  qed (use assms(3) d in simp)
  have future: "rx_owner c' = rx_owner c" if "around = Context_Poll a \<or> around = Context_Drop a" for a
    using assms(3) that
    by (auto simp: context_future_poll_def context_future_drop_def restore_owner_exact [OF assms(1)] split: prod.splits)
  have seen: "\<exists>it. Wrapped i it \<in> set (rx_log c) \<and> (\<forall>it'. Wrapped i it' \<in> set (rx_log c) \<longrightarrow> it' = it)
      \<and> x = Some (sw_owner it) \<and> ob = sw_observer it"
    if "Polling i x ob \<in> set (rx_log c) \<or> Destroying i x ob \<in> set (rx_log c)" for i x ob
    using ok that unfolding scoped_ok_def seen_ok_def by blast
  have "ended_ok (rx_log c)" using ok by (simp add: scoped_ok_def)
  with seen show ?thesis
    unfolding ended_ok_def by (cases around) (use boundary gone future in auto)
qed

text \<open>A reactive system that never restores an owner by itself. The polled value destroys another one, leaves an
  owner of its own behind and unwinds.\<close>

definition leaky_scopes :: scope_ops where
  "leaky_scopes = \<lparr>so_owner = plain_owners,
     so_scoped = (\<lambda>w ob f c. case f (c\<lparr>rx_owner := Some w, rx_observer := ob\<rparr>) of
        (c', r) \<Rightarrow> (c'\<lparr>rx_owner := rx_owner c', rx_observer := rx_observer c\<rparr>, r)),
     so_with_owner = (\<lambda>w f c. case f (c\<lparr>rx_owner := Some w\<rparr>) of (c', r) \<Rightarrow> (c'\<lparr>rx_owner := rx_owner c'\<rparr>, r)),
     so_with_observer = (\<lambda>ob f c. case f (c\<lparr>rx_observer := ob\<rparr>) of (c', r) \<Rightarrow> (c'\<lparr>rx_observer := rx_observer c\<rparr>, r))\<rparr>"

lemma leaky_scope_laws: "scope_laws leaky_scopes"
proof -
  have "\<exists>x. so_scoped leaky_scopes w ob f c =
      (case f (c\<lparr>rx_owner := Some w, rx_observer := ob\<rparr>) of (c', r) \<Rightarrow> (c'\<lparr>rx_owner := x, rx_observer := rx_observer c\<rparr>, r))"
    for w ob f c
    by (rule exI [of _ "rx_owner (fst (f (c\<lparr>rx_owner := Some w, rx_observer := ob\<rparr>)))"])
      (simp add: leaky_scopes_def split: prod.split)
  moreover have "\<exists>x. so_with_owner leaky_scopes w f c =
      (case f (c\<lparr>rx_owner := Some w\<rparr>) of (c', r) \<Rightarrow> (c'\<lparr>rx_owner := x\<rparr>, r))" for w f c
    by (rule exI [of _ "rx_owner (fst (f (c\<lparr>rx_owner := Some w\<rparr>)))"]) (simp add: leaky_scopes_def split: prod.split)
  ultimately show ?thesis by (simp add: scope_laws_def plain_owner_laws leaky_scopes_def)
qed

definition nested_polls :: work where
  "nested_polls = Then (Wrap_In 1 9) (Then (Leave (Some 3) (Some 6)) (Then (Wrap 2)
     (Catch (Poll 1 (Then (Destroy 2 (Leave (Some 4) None)) (Then (Leave (Some 8) (Some 8)) Unwind))))))"

theorem wrapped_work_keeps_scope_witness:
  "\<exists>c. run leaky_scopes nested_polls (reactive_start None (Some 7) 0) = (c, True)
     \<and> rx_log c = [Wrapped 1 \<lparr>sw_owner = 9, sw_observer = Some 7\<rparr>, Wrapped 2 \<lparr>sw_owner = 3, sw_observer = Some 6\<rparr>,
         Polling 1 (Some 9) (Some 7), Destroying 2 (Some 3) (Some 6), Released 2]
     \<and> rx_owner (fst (run leaky_scopes (Poll 1 Unwind) c)) = Some 3"
proof -
  let ?c = "fst (run leaky_scopes nested_polls (reactive_start None (Some 7) 0))"
  have r: "run leaky_scopes nested_polls (reactive_start None (Some 7) 0) = (?c, True)"
    by (simp add: nested_polls_def reactive_start_def wrap_with_owner_def wrap_new_def log_scope_def Let_def split: prod.split)
  have c: "rx_owner ?c = Some 3" "rx_log ?c = [Wrapped 1 \<lparr>sw_owner = 9, sw_observer = Some 7\<rparr>, Wrapped 2 \<lparr>sw_owner = 3, sw_observer = Some 6\<rparr>,
         Polling 1 (Some 9) (Some 7), Destroying 2 (Some 3) (Some 6), Released 2]"
    by (simp_all add: nested_polls_def reactive_start_def wrap_with_owner_def wrap_new_def log_scope_def Let_def
        scoped_poll_def poll_in_scope_def scoped_drop_def leaky_scopes_def restore_owner_def restore_def plain_owners_def)
  obtain c' r' where p: "run leaky_scopes (Poll 1 Unwind) ?c = (c', r')" by fastforce
  have "rx_owner c' = rx_owner ?c"
    using wrapped_work_keeps_scope [OF leaky_scope_laws r p] by simp
  with c r p show ?thesis by (intro exI [of _ ?c]) simp
qed

end
