(* ===== verification/Staging.thy ===== *)
theory Staging
  imports Admission Static_Path
begin

text \<open>
  Staging of a publication in the directory of its page (\<open>prepare_file\<close>, \<open>create_temporary\<close>, \<open>TempFileGuard\<close>,
  \<open>publish_file\<close> and the part of \<open>write_static_route_managed\<close> that follows admission, \<^verbatim>\<open>src/static_routes.rs\<close>), when
  any system call may fail. \<open>Publication\<close> interleaves publishers and readers; here one publisher, which the root
  and entry locks make the only one, works on the entries of the directory, call by call.

  The entry \<^verbatim>\<open>.leptos-static-metadata\<close> is a directory or absent. The digest is an argument. The private names are
  those the publisher makes up: temporary files, locks and that directory.
\<close>

section \<open>Names\<close>

definition hex_digit :: "nat \<Rightarrow> char" where
  "hex_digit n = (if n < 10 then char_of (48 + n) else char_of (87 + n))"

text \<open>The format \<open>{:x}\<close> of a digest.\<close>

definition to_hex :: "bytes \<Rightarrow> string" where
  "to_hex bs = concat (map (\<lambda>b. [hex_digit (unat b div 16), hex_digit (unat b mod 16)]) bs)"

definition temp_name :: "(string \<Rightarrow> bytes) \<Rightarrow> nat \<Rightarrow> string \<Rightarrow> u64 \<Rightarrow> string" where
  "temp_name sha256 pid name seq =
     ''.leptos-'' @ to_hex (sha256 name) @ ''.tmp.'' @ show_nat pid @ ''.'' @ show_nat (unat seq)"

definition metadata_name :: "string \<Rightarrow> string" where
  "metadata_name name = METADATA_DIRECTORY @ ''/'' @ name"

section \<open>System calls\<close>

text \<open>\<open>sf_call n\<close> is the failure of the \<open>n\<close>-th call, \<open>sf_stuck name\<close> that the removal of \<open>name\<close> fails, which the
  destructor of the guard ignores. \<open>sg_seq\<close> is the counter \<open>TEMP_SEQ\<close>.\<close>

record faults =
  sf_call :: "nat \<Rightarrow> io_error option"
  sf_stuck :: "string \<Rightarrow> bool"

record staging =
  sg_seq :: u64
  sg_calls :: nat
  sg_dir :: entries

type_synonym 'a staged = "staging \<times> (io_error + 'a)"

definition attempt :: "faults \<Rightarrow> (entries \<Rightarrow> io_error + entries) \<Rightarrow> staging \<Rightarrow> unit staged" where
  "attempt fl op s =
     (let s' = s\<lparr>sg_calls := Suc (sg_calls s)\<rparr>
      in case sf_call fl (sg_calls s) of
           Some e \<Rightarrow> (s', Inl e)
         | None \<Rightarrow> (case op (sg_dir s) of Inl e \<Rightarrow> (s', Inl e) | Inr d \<Rightarrow> (s'\<lparr>sg_dir := d\<rparr>, Inr ())))"

definition and_then :: "'a staged \<Rightarrow> (staging \<Rightarrow> 'a \<Rightarrow> 'b staged) \<Rightarrow> 'b staged" where
  "and_then r k = (case r of (s, Inl e) \<Rightarrow> (s, Inl e) | (s, Inr x) \<Rightarrow> k s x)"

text \<open>An early return drops what is in scope.\<close>

definition on_error :: "(staging \<Rightarrow> staging) \<Rightarrow> 'a staged \<Rightarrow> 'a staged" where
  "on_error cleanup r = (case r of (s, Inl e) \<Rightarrow> (cleanup s, Inl e) | (s, Inr x) \<Rightarrow> (s, Inr x))"

definition remove_entry :: "string \<Rightarrow> entries \<Rightarrow> entries" where
  "remove_entry n d = filter (\<lambda>(m, _). m \<noteq> n) d"

definition create_new :: "string \<Rightarrow> entries \<Rightarrow> io_error + entries" where
  "create_new n d = (if map_of d n = None then Inr (d @ [(n, Reg 1 [])]) else Inl (io_err AlreadyExists []))"

fun replaceable :: "node option \<Rightarrow> bool" where
  "replaceable (Some (Dir _)) \<longleftrightarrow> False"
| "replaceable (Some (Sealed _)) \<longleftrightarrow> False"
| "replaceable _ \<longleftrightarrow> True"

definition rename_entry :: "string \<Rightarrow> string \<Rightarrow> entries \<Rightarrow> io_error + entries" where
  "rename_entry n to_name d =
     (case map_of d n of
        None \<Rightarrow> Inl (io_err NotFound [])
      | Some nd \<Rightarrow>
          if replaceable (map_of d to_name) then Inr (set_entry to_name nd (remove_entry n d)) else Inl (io_err OtherKind []))"

definition rename_into :: "string \<Rightarrow> string \<Rightarrow> string \<Rightarrow> entries \<Rightarrow> io_error + entries" where
  "rename_into n sub to_name d =
     (case (map_of d n, map_of d sub) of
        (Some nd, Some (Dir ds)) \<Rightarrow>
          if replaceable (map_of ds to_name) then Inr (set_entry sub (Dir (set_entry to_name nd ds)) (remove_entry n d))
          else Inl (io_err OtherKind [])
      | (None, Some (Dir _)) \<Rightarrow> Inl (io_err NotFound [])
      | (_, None) \<Rightarrow> Inl (io_err NotFound [])
      | _ \<Rightarrow> Inl (io_err NotADirectory []))"

definition create_dir :: "string \<Rightarrow> entries \<Rightarrow> io_error + entries" where
  "create_dir n d =
     (case map_of d n of
        None \<Rightarrow> Inr (d @ [(n, Dir [])])
      | Some (Dir _) \<Rightarrow> Inr d
      | Some (Sealed _) \<Rightarrow> Inr d
      | Some _ \<Rightarrow> Inl (io_err AlreadyExists []))"

definition reopen_dir :: "string \<Rightarrow> entries \<Rightarrow> io_error + entries" where
  "reopen_dir n d = res_bind (open_dir_at d [n]) (\<lambda>_. Inr d)"

section \<open>Temporary files\<close>

text \<open>Dropping the guard of an unpublished file.\<close>

definition drop_temp :: "faults \<Rightarrow> string \<Rightarrow> staging \<Rightarrow> staging" where
  "drop_temp fl n s = (if sf_stuck fl n then s else s\<lparr>sg_dir := remove_entry n (sg_dir s)\<rparr>)"

text \<open>The guard exists from the moment the file has been created, not before.\<close>

definition create_temporary :: "faults \<Rightarrow> string \<Rightarrow> bytes \<Rightarrow> staging \<Rightarrow> string staged" where
  "create_temporary fl temp contents s =
     and_then (attempt fl (create_new temp) s) (\<lambda>s _.
       on_error (drop_temp fl temp)
         (and_then (attempt fl (\<lambda>d. Inr (set_entry temp (Reg 1 contents) d)) s) (\<lambda>s _.
          and_then (attempt fl Inr s) (\<lambda>s _. (s, Inr temp)))))"

definition prepare_file ::
  "faults \<Rightarrow> (string \<Rightarrow> bytes) \<Rightarrow> nat \<Rightarrow> string \<Rightarrow> bytes \<Rightarrow> staging \<Rightarrow> string staged" where
  "prepare_file fl sha256 pid name contents s =
     create_temporary fl (temp_name sha256 pid name (sg_seq s)) contents (s\<lparr>sg_seq := sg_seq s + 1\<rparr>)"

definition publish_file :: "faults \<Rightarrow> string \<Rightarrow> (entries \<Rightarrow> io_error + entries) \<Rightarrow> staging \<Rightarrow> unit staged" where
  "publish_file fl temp rename s = on_error (drop_temp fl temp) (attempt fl rename s)"

text \<open>\<open>lock_entry\<close> for writing: the entry is opened or created, then the lock is taken.\<close>

definition lock_for_writing :: "faults \<Rightarrow> lock_call \<Rightarrow> string \<Rightarrow> staging \<Rightarrow> unit staged" where
  "lock_for_writing fl lk n s =
     and_then (attempt fl (\<lambda>d. map_err lock_entry_io (map_sum id snd (open_lock_entry d n True))) s) (\<lambda>s _.
       attempt fl (\<lambda>d. case file_lock_acquire lk Exclusive True of
           Inl LockWouldBlock \<Rightarrow> Inl (io_err WouldBlock [])
         | Inl (LockFailed e) \<Rightarrow> Inl e
         | Inr _ \<Rightarrow> Inr d) s)"

text \<open>\<open>write_static_route_managed\<close>, from the lock of the entry to the last sync.\<close>

definition stage_metadata ::
  "faults \<Rightarrow> lock_call \<Rightarrow> (string \<Rightarrow> bytes) \<Rightarrow> nat \<Rightarrow> string \<Rightarrow> bytes \<Rightarrow> staging \<Rightarrow> unit staged" where
  "stage_metadata fl lk sha256 pid name metadata s =
     and_then (prepare_file fl sha256 pid (metadata_name name) metadata s) (\<lambda>s temp.
     and_then (on_error (drop_temp fl temp)
         (and_then (lock_for_writing fl lk PUBLICATION_LOCK s) (\<lambda>s _. attempt fl (create_dir METADATA_DIRECTORY) s))) (\<lambda>s _.
     and_then (publish_file fl temp (rename_into temp METADATA_DIRECTORY name) s) (\<lambda>s _.
     and_then (attempt fl (reopen_dir METADATA_DIRECTORY) s) (\<lambda>s _. attempt fl Inr s))))"

definition stage_page ::
  "faults \<Rightarrow> lock_call \<Rightarrow> (string \<Rightarrow> bytes) \<Rightarrow> nat \<Rightarrow> string \<Rightarrow> bytes \<Rightarrow> bytes \<Rightarrow> staging \<Rightarrow> unit staged" where
  "stage_page fl lk sha256 pid name html metadata s =
     and_then (lock_for_writing fl lk (lock_name sha256 name) s) (\<lambda>s _.
     and_then (prepare_file fl sha256 pid name html s) (\<lambda>s temp.
     and_then (on_error (drop_temp fl temp) (stage_metadata fl lk sha256 pid name metadata s)) (\<lambda>s _.
     and_then (publish_file fl temp (rename_entry temp name) s) (\<lambda>s _. attempt fl Inr s))))"

section \<open>Outcomes\<close>

text \<open>What holds of the directory after a success and after a failure.\<close>

definition outcome :: "('a \<Rightarrow> staging \<Rightarrow> bool) \<Rightarrow> (staging \<Rightarrow> bool) \<Rightarrow> 'a staged \<Rightarrow> bool" where
  "outcome P E r = (case r of (s, Inl e) \<Rightarrow> E s | (s, Inr x) \<Rightarrow> P x s)"

lemma outcome_and_then:
  assumes "outcome Q E r" "\<And>x s. Q x s \<Longrightarrow> outcome P E (k s x)"
  shows "outcome P E (and_then r k)"
proof -
  obtain s y where r: "r = (s, y)" by (cases r)
  show ?thesis
  proof (cases y)
    case (Inl e)
    with assms(1) show ?thesis by (simp add: r outcome_def and_then_def)
  next
    case (Inr x)
    with assms(1) have "Q x s" by (simp add: r outcome_def)
    with assms(2) Inr show ?thesis by (simp add: r and_then_def)
  qed
qed

lemma outcome_on_error:
  "outcome P E' r \<Longrightarrow> (\<And>s. E' s \<Longrightarrow> E (cleanup s)) \<Longrightarrow> outcome P E (on_error cleanup r)"
  by (auto simp: outcome_def on_error_def split: prod.splits sum.splits)

lemma outcome_weaken:
  "outcome Q E' r \<Longrightarrow> (\<And>x s. Q x s \<Longrightarrow> P x s) \<Longrightarrow> (\<And>s. E' s \<Longrightarrow> E s) \<Longrightarrow> outcome P E r"
  by (auto simp: outcome_def split: prod.splits sum.splits)

text \<open>Conditions on the names of the directory only.\<close>

definition names_are :: "((string \<rightharpoonup> node) \<Rightarrow> bool) \<Rightarrow> staging \<Rightarrow> bool" where
  "names_are P s \<longleftrightarrow> P (map_of (sg_dir s))"

lemma outcome_attempt:
  assumes "names_are E s" "\<And>d'. op (sg_dir s) = Inr d' \<Longrightarrow> P (map_of d')"
  shows "outcome (\<lambda>_. names_are P) (names_are E) (attempt fl op s)"
  using assms by (auto simp: outcome_def attempt_def names_are_def Let_def split: option.splits sum.splits)

lemma map_of_remove_entry: "map_of (remove_entry n d) = (map_of d)(n := None)"
  by (induction d) (auto simp: remove_entry_def fun_eq_iff)

lemma map_of_add_entry: "map_of d n = None \<Longrightarrow> [n \<mapsto> x] ++ map_of d = (map_of d)(n \<mapsto> x)"
  by (auto simp: fun_eq_iff map_add_def split: option.splits)

lemma map_of_set: "map_of (set_entry n x d) = (map_of d)(n \<mapsto> x)"
  by (auto simp: fun_eq_iff map_of_set_entry)

lemma names_drop_temp:
  "\<not> sf_stuck fl n \<Longrightarrow> names_are (\<lambda>m. P (m(n := None))) s \<Longrightarrow> names_are P (drop_temp fl n s)"
  by (simp add: names_are_def drop_temp_def map_of_remove_entry)

lemma map_snd_Inr: "map_sum id snd r = Inr d' \<longleftrightarrow> (\<exists>c. r = Inr (c, d'))"
  by (cases r) auto

lemma outcome_lock:
  assumes "names_are (\<lambda>m. m = m0) s"
  shows "outcome (\<lambda>_. names_are (\<lambda>m. m = m0 \<or> m0 n = None \<and> m = m0(n \<mapsto> Reg 1 [])))
    (names_are (\<lambda>m. m = m0 \<or> m0 n = None \<and> m = m0(n \<mapsto> Reg 1 []))) (lock_for_writing fl lk n s)"
proof -
  let ?P = "\<lambda>m. m = m0 \<or> m0 n = None \<and> m = m0(n \<mapsto> Reg 1 [])"
  have dir: "map_of (sg_dir s) = m0" using assms by (simp add: names_are_def)
  have "?P (map_of d')" if "map_err lock_entry_io (map_sum id snd (open_lock_entry (sg_dir s) n True)) = Inr d'" for d'
    using that dir
    by (auto simp: open_lock_entry_def map_snd_Inr map_of_add_entry res_bind_Inr_iff split: if_splits sum.splits bool.splits)
  then have "outcome (\<lambda>_. names_are ?P) (names_are ?P)
      (attempt fl (\<lambda>d. map_err lock_entry_io (map_sum id snd (open_lock_entry d n True))) s)"
    using assms by (intro outcome_attempt) (auto simp: names_are_def)
  then show ?thesis
    unfolding lock_for_writing_def
    by (rule outcome_and_then) (auto intro!: outcome_attempt simp: names_are_def split: sum.splits lock_error.splits)
qed

lemma outcome_prepare:
  assumes "names_are (\<lambda>m. m = m0) s" "\<And>n. \<not> sf_stuck fl n"
  shows "outcome (\<lambda>temp. names_are (\<lambda>m. temp = temp_name sha256 pid name (sg_seq s) \<and> m0 temp = None \<and> m = m0(temp \<mapsto> Reg 1 contents)))
    (names_are (\<lambda>m. m = m0)) (prepare_file fl sha256 pid name contents s)"
proof -
  define temp where "temp = temp_name sha256 pid name (sg_seq s)"
  let ?C = "\<lambda>m. m0 temp = None \<and> m = m0(temp \<mapsto> Reg 1 [])"
  let ?W = "\<lambda>m. m0 temp = None \<and> m = m0(temp \<mapsto> Reg 1 contents)"
  let ?E = "names_are (\<lambda>m. m0 temp = None \<and> (\<exists>c. m = m0(temp \<mapsto> Reg 1 c)))"
  have dir: "map_of (sg_dir s) = m0" using assms(1) by (simp add: names_are_def)
  have created: "outcome (\<lambda>_. names_are ?C) (names_are (\<lambda>m. m = m0)) (attempt fl (create_new temp) (s\<lparr>sg_seq := sg_seq s + 1\<rparr>))"
    using dir by (intro outcome_attempt) (auto simp: create_new_def names_are_def map_of_add_entry split: if_splits)
  have written: "outcome (\<lambda>_. names_are ?W) ?E (attempt fl (\<lambda>d. Inr (set_entry temp (Reg 1 contents) d)) t)" if "names_are ?C t" for t
    using that by (intro outcome_attempt) (auto simp: names_are_def map_of_set)
  have synced: "outcome (\<lambda>_. names_are ?W) ?E (attempt fl Inr t)" if "names_are ?W t" for t
    using that by (intro outcome_attempt) (auto simp: names_are_def)
  have "outcome (\<lambda>x. names_are (\<lambda>m. x = temp \<and> m0 x = None \<and> m = m0(x \<mapsto> Reg 1 contents))) ?E
      (and_then (attempt fl (\<lambda>d. Inr (set_entry temp (Reg 1 contents) d)) t) (\<lambda>s _. and_then (attempt fl Inr s) (\<lambda>s _. (s, Inr temp))))"
    if "names_are ?C t" for t
    by (rule outcome_and_then [OF written [OF that]], rule outcome_and_then [OF synced], assumption)
      (simp add: outcome_def names_are_def)
  moreover have "names_are (\<lambda>m. m = m0) (drop_temp fl temp t)" if "?E t" for t
    using that assms(2) by (intro names_drop_temp) (auto simp: names_are_def fun_eq_iff)
  ultimately show ?thesis
    unfolding prepare_file_def create_temporary_def temp_def [symmetric]
    by (intro outcome_and_then [OF created] outcome_on_error)
qed

section \<open>Private names\<close>

lemma digit_char: "n < 10 \<Longrightarrow> is_ascii_digit (char_of (48 + n :: nat))"
  by (simp add: is_ascii_digit_def)

lemma show_nat_digits: "show_nat n \<noteq> [] \<and> (\<forall>c \<in> set (show_nat n). is_ascii_digit c)"
proof (induction n rule: show_nat.induct)
  case (1 n)
  then show ?case
    by (cases "n < 10") (auto simp: show_nat.simps [of n] digit_char)
qed

lemma hex_digit_small: "n < 16 \<Longrightarrow> hex_digit n \<in> set ''0123456789abcdef''"
proof -
  assume "n < 16"
  then have "n \<in> {..<16}" by simp
  moreover have "\<forall>k \<in> {..<16}. hex_digit k \<in> set ''0123456789abcdef''"
    by (simp add: lessThan_nat_numeral hex_digit_def char_of_def bit_simps)
  ultimately show ?thesis by blast
qed

lemma first_hex: "bs \<noteq> [] \<Longrightarrow> \<exists>c r. to_hex bs = c # r \<and> c \<noteq> CHR ''s''"
proof (cases bs)
  case (Cons b r)
  have "unat b < 2 ^ LENGTH(8)" by (rule unsigned_less)
  then have "unat b div 16 < 16" by simp
  from hex_digit_small [OF this] Cons show ?thesis by (auto simp: to_hex_def)
qed simp

lemma lock_name_shape: "\<exists>c r. lock_name sha256 name = ''.leptos-static-'' @ c # r \<and> is_ascii_digit c"
proof -
  obtain k where k: "lock_name sha256 name = ''.leptos-static-'' @ (if k < 10 then ''0'' else []) @ show_nat k @ ''.lock''"
    by (auto simp: lock_name_def Let_def)
  obtain c r where "show_nat k = c # r" "is_ascii_digit c" using show_nat_digits [of k] by (cases "show_nat k") auto
  with k show ?thesis by (cases "k < 10") (auto simp: is_ascii_digit_def)
qed

lemma private_distinct:
  assumes "\<forall>n. sha256 n \<noteq> []"
  shows "temp_name sha256 pid n seq \<noteq> METADATA_DIRECTORY" "temp_name sha256 pid n seq \<noteq> PUBLICATION_LOCK"
    "temp_name sha256 pid n seq \<noteq> lock_name sha256 name" "lock_name sha256 name \<noteq> METADATA_DIRECTORY"
    "PUBLICATION_LOCK \<noteq> METADATA_DIRECTORY"
proof -
  obtain c r where hex: "to_hex (sha256 n) = c # r" "c \<noteq> CHR ''s''" using first_hex assms by blast
  obtain d q where lock: "lock_name sha256 name = ''.leptos-static-'' @ d # q" "is_ascii_digit d"
    using lock_name_shape by blast
  show "temp_name sha256 pid n seq \<noteq> METADATA_DIRECTORY" "temp_name sha256 pid n seq \<noteq> PUBLICATION_LOCK"
    "temp_name sha256 pid n seq \<noteq> lock_name sha256 name"
    using hex lock by (simp_all add: temp_name_def METADATA_DIRECTORY_def PUBLICATION_LOCK_def)
  show "lock_name sha256 name \<noteq> METADATA_DIRECTORY" using lock by (auto simp: METADATA_DIRECTORY_def is_ascii_digit_def)
  show "PUBLICATION_LOCK \<noteq> METADATA_DIRECTORY" by (simp add: METADATA_DIRECTORY_def PUBLICATION_LOCK_def)
qed

section \<open>Staging\<close>

text \<open>The entries of the metadata directory.\<close>

definition metadata_of :: "(string \<rightharpoonup> node) \<Rightarrow> string \<rightharpoonup> node" where
  "metadata_of m = (case m METADATA_DIRECTORY of Some (Dir ds) \<Rightarrow> map_of ds | _ \<Rightarrow> Map.empty)"

definition same_but :: "string set \<Rightarrow> (string \<rightharpoonup> node) \<Rightarrow> (string \<rightharpoonup> node) \<Rightarrow> bool" where
  "same_but X m0 m \<longleftrightarrow> (\<forall>n. n \<notin> X \<longrightarrow> m n = m0 n)"

lemma metadata_of_other [simp]: "n \<noteq> METADATA_DIRECTORY \<Longrightarrow> metadata_of (m(n := x)) = metadata_of m"
  by (simp add: metadata_of_def)

definition metadata_staged :: "(string \<rightharpoonup> node) \<Rightarrow> string \<Rightarrow> bytes \<Rightarrow> (string \<rightharpoonup> node) \<Rightarrow> bool" where
  "metadata_staged m1 temp metadata m \<longleftrightarrow> m temp = Some (Reg 1 metadata) \<and> m1 temp = None
     \<and> same_but {METADATA_DIRECTORY, PUBLICATION_LOCK, temp} m1 m \<and> metadata_of m = metadata_of m1"

definition metadata_done :: "(string \<rightharpoonup> node) \<Rightarrow> string \<Rightarrow> bytes \<Rightarrow> (string \<rightharpoonup> node) \<Rightarrow> bool" where
  "metadata_done m1 name metadata m \<longleftrightarrow> same_but {METADATA_DIRECTORY, PUBLICATION_LOCK} m1 m
     \<and> metadata_of m = (metadata_of m1)(name \<mapsto> Reg 1 metadata)"

definition metadata_kept :: "(string \<rightharpoonup> node) \<Rightarrow> string \<Rightarrow> bytes \<Rightarrow> (string \<rightharpoonup> node) \<Rightarrow> bool" where
  "metadata_kept m1 name metadata m \<longleftrightarrow> same_but {METADATA_DIRECTORY, PUBLICATION_LOCK} m1 m
     \<and> (metadata_of m = metadata_of m1 \<or> metadata_of m = (metadata_of m1)(name \<mapsto> Reg 1 metadata))"

lemma staged_drop:
  "metadata_staged m1 temp metadata m \<Longrightarrow> temp \<noteq> METADATA_DIRECTORY \<Longrightarrow> metadata_kept m1 name metadata (m(temp := None))"
  by (auto simp: metadata_staged_def metadata_kept_def same_but_def)

lemma rename_into_Inr:
  "rename_into n sub to_name d = Inr d' \<longleftrightarrow> (\<exists>nd ds. map_of d n = Some nd \<and> map_of d sub = Some (Dir ds)
     \<and> replaceable (map_of ds to_name) \<and> d' = set_entry sub (Dir (set_entry to_name nd ds)) (remove_entry n d))"
  by (auto simp: rename_into_def split: option.splits node.splits)

lemma create_dir_Inr:
  "create_dir n d = Inr d' \<Longrightarrow> map_of d' = map_of d \<or> map_of d n = None \<and> map_of d' = (map_of d)(n \<mapsto> Dir [])"
  by (auto simp: create_dir_def map_of_add_entry split: option.splits node.splits)

lemma outcome_stage_metadata:
  assumes "names_are (\<lambda>m. m = m1) s" "\<And>n. \<not> sf_stuck fl n" "\<forall>n. sha256 n \<noteq> []"
  shows "outcome (\<lambda>_. names_are (metadata_done m1 name metadata)) (names_are (metadata_kept m1 name metadata))
    (stage_metadata fl lk sha256 pid name metadata s)"
proof -
  define temp where "temp = temp_name sha256 pid (metadata_name name) (sg_seq s)"
  have distinct: "temp \<noteq> METADATA_DIRECTORY" "temp \<noteq> PUBLICATION_LOCK" "PUBLICATION_LOCK \<noteq> METADATA_DIRECTORY"
    unfolding temp_def using private_distinct [OF assms(3)] by auto
  let ?S = "names_are (metadata_staged m1 temp metadata)"
  let ?D = "names_are (metadata_done m1 name metadata)"
  let ?K = "names_are (metadata_kept m1 name metadata)"
  have kept: "?K t" if "names_are (\<lambda>m. m = m1) t" for t
    using that by (simp add: names_are_def metadata_kept_def same_but_def)
  have dropped: "?K (drop_temp fl temp t)" if "?S t" for t
    using that assms(2) staged_drop distinct(1) by (intro names_drop_temp) (auto simp: names_are_def)
  have prepared: "outcome (\<lambda>x s. x = temp \<and> ?S s) ?K (prepare_file fl sha256 pid (metadata_name name) metadata s)"
    by (rule outcome_weaken [OF outcome_prepare [OF assms(1,2)]])
      (use kept in \<open>auto simp: names_are_def temp_def [symmetric] metadata_staged_def same_but_def distinct\<close>)
  have locked: "outcome (\<lambda>_. ?S) ?S (lock_for_writing fl lk PUBLICATION_LOCK t)" if "?S t" for t
  proof -
    from that have "names_are (\<lambda>m. m = map_of (sg_dir t)) t" "metadata_staged m1 temp metadata (map_of (sg_dir t))"
      by (simp_all add: names_are_def)
    then show ?thesis
      using distinct by (intro outcome_weaken [OF outcome_lock]) (auto simp: names_are_def metadata_staged_def same_but_def)
  qed
  have created: "outcome (\<lambda>_. ?S) ?S (attempt fl (create_dir METADATA_DIRECTORY) t)" if "?S t" for t
  proof (rule outcome_attempt [OF that])
    fix d'
    assume "create_dir METADATA_DIRECTORY (sg_dir t) = Inr d'"
    note made = create_dir_Inr [OF this]
    have "metadata_staged m1 temp metadata (map_of (sg_dir t))" using that by (simp add: names_are_def)
    with made distinct show "metadata_staged m1 temp metadata (map_of d')"
      by (elim disjE conjE) (simp_all add: metadata_staged_def same_but_def metadata_of_def)
  qed
  have published: "outcome (\<lambda>_. ?D) ?K (publish_file fl temp (rename_into temp METADATA_DIRECTORY name) t)" if "?S t" for t
    unfolding publish_file_def
  proof (rule outcome_on_error [OF outcome_attempt])
    show "?S t" by (rule that)
  next
    fix d'
    assume r: "rename_into temp METADATA_DIRECTORY name (sg_dir t) = Inr d'"
    have "metadata_staged m1 temp metadata (map_of (sg_dir t))" using that by (simp add: names_are_def)
    moreover obtain nd ds where "map_of (sg_dir t) temp = Some nd" "map_of (sg_dir t) METADATA_DIRECTORY = Some (Dir ds)"
      "map_of d' = (map_of (sg_dir t))(temp := None, METADATA_DIRECTORY \<mapsto> Dir (set_entry name nd ds))"
      using r unfolding rename_into_Inr by (auto simp: map_of_set map_of_remove_entry)
    ultimately show "metadata_done m1 name metadata (map_of d')"
      by (simp add: metadata_staged_def metadata_done_def same_but_def map_of_set metadata_of_def)
  qed (rule dropped)
  have settled: "outcome (\<lambda>_. ?D) ?K (attempt fl op t)" if "?D t" "\<And>d d'. op d = Inr d' \<Longrightarrow> d' = d" for op t
    using that by (intro outcome_attempt) (auto simp: names_are_def metadata_done_def metadata_kept_def)
  show ?thesis
    unfolding stage_metadata_def
    apply (rule outcome_and_then [OF prepared])
    apply (rule outcome_and_then [where Q = "\<lambda>_. ?S"])
     apply (rule outcome_on_error [where E' = ?S])
      apply (auto intro: outcome_and_then [OF locked] created dropped)[2]
    apply (rule outcome_and_then [where Q = "\<lambda>_. ?D"])
     apply (auto intro: published)[1]
    apply (rule outcome_and_then [where Q = "\<lambda>_. ?D"])
    apply (auto intro!: settled simp: reopen_dir_def res_bind_Inr_iff)
    done
qed

definition page_staged :: "(string \<rightharpoonup> node) \<Rightarrow> string \<Rightarrow> string \<Rightarrow> bytes \<Rightarrow> (string \<rightharpoonup> node) \<Rightarrow> bool" where
  "page_staged m0 lock temp html m \<longleftrightarrow> m temp = Some (Reg 1 html) \<and> m0 temp = None
     \<and> same_but {lock, temp} m0 m \<and> metadata_of m = metadata_of m0"

text \<open>What a publication can leave behind: nothing of it, only its metadata, or all of it; besides, the entries
  that it creates for good.\<close>

definition page_left :: "(string \<rightharpoonup> node) \<Rightarrow> string \<Rightarrow> string \<Rightarrow> bytes \<Rightarrow> bytes \<Rightarrow> (string \<rightharpoonup> node) \<Rightarrow> bool" where
  "page_left m0 lock name html metadata m \<longleftrightarrow> same_but {lock, METADATA_DIRECTORY, PUBLICATION_LOCK, name} m0 m
     \<and> (m name = m0 name \<and> (metadata_of m = metadata_of m0 \<or> metadata_of m = (metadata_of m0)(name \<mapsto> Reg 1 metadata))
        \<or> m name = Some (Reg 1 html) \<and> metadata_of m = (metadata_of m0)(name \<mapsto> Reg 1 metadata))"

definition page_published :: "(string \<rightharpoonup> node) \<Rightarrow> string \<Rightarrow> string \<Rightarrow> bytes \<Rightarrow> bytes \<Rightarrow> (string \<rightharpoonup> node) \<Rightarrow> bool" where
  "page_published m0 lock name html metadata m \<longleftrightarrow> same_but {lock, METADATA_DIRECTORY, PUBLICATION_LOCK, name} m0 m
     \<and> m name = Some (Reg 1 html) \<and> metadata_of m = (metadata_of m0)(name \<mapsto> Reg 1 metadata)"

definition is_private :: "string \<Rightarrow> bool" where
  "is_private n \<longleftrightarrow> take 8 n = ''.leptos-''"

lemma private_names:
  "is_private (temp_name sha256 pid n seq)" "is_private (lock_name sha256 n)" "is_private METADATA_DIRECTORY"
  "is_private PUBLICATION_LOCK" "is_private CONTROL"
  by (simp_all add: is_private_def temp_name_def lock_name_def METADATA_DIRECTORY_def PUBLICATION_LOCK_def CONTROL_def Let_def)

text \<open>The lock of the entry: its file may be new.\<close>

definition lock_taken :: "(string \<rightharpoonup> node) \<Rightarrow> string \<Rightarrow> (string \<rightharpoonup> node) \<Rightarrow> bool" where
  "lock_taken m0 lock m \<longleftrightarrow> m = m0 \<or> m0 lock = None \<and> m = m0(lock \<mapsto> Reg 1 [])"

lemma outcome_stage_page:
  assumes start: "names_are (\<lambda>m. m = m0) s" and removal: "\<And>n. \<not> sf_stuck fl n" and digest: "\<forall>n. sha256 n \<noteq> []"
    and name: "\<not> is_private name"
  shows "outcome (\<lambda>_. names_are (page_published m0 (lock_name sha256 name) name html metadata))
    (names_are (page_left m0 (lock_name sha256 name) name html metadata))
    (stage_page fl lk sha256 pid name html metadata s)"
proof -
  define lock where "lock = lock_name sha256 name"
  let ?P = "names_are (page_published m0 lock name html metadata)"
  let ?E = "names_are (page_left m0 lock name html metadata)"
  let ?L = "names_are (lock_taken m0 lock)"
  have lock: "lock \<noteq> METADATA_DIRECTORY" "lock \<noteq> name" "name \<noteq> METADATA_DIRECTORY" "name \<noteq> PUBLICATION_LOCK"
    using private_distinct [OF digest] private_names name unfolding lock_def by metis+
  have left: "?E t" if "?L t" for t
    using that lock by (auto simp: names_are_def lock_taken_def page_left_def same_but_def)
  have locked: "outcome (\<lambda>_. ?L) ?E (lock_for_writing fl lk lock s)"
  proof (rule outcome_weaken [OF outcome_lock [OF start]])
    fix x :: unit and t
    assume "names_are (\<lambda>m. m = m0 \<or> m0 lock = None \<and> m = m0(lock \<mapsto> Reg 1 [])) t"
    then show "?L t" by (simp add: names_are_def lock_taken_def)
  next
    fix t
    assume "names_are (\<lambda>m. m = m0 \<or> m0 lock = None \<and> m = m0(lock \<mapsto> Reg 1 [])) t"
    then show "?E t" by (intro left) (simp add: names_are_def lock_taken_def)
  qed
  let ?H = "\<lambda>temp. names_are (\<lambda>m. page_staged m0 lock temp html m \<and> temp \<noteq> METADATA_DIRECTORY \<and> temp \<noteq> PUBLICATION_LOCK
      \<and> temp \<noteq> name \<and> temp \<noteq> lock)"
  have prepared: "outcome ?H ?E (prepare_file fl sha256 pid name html t)" if "?L t" for t
  proof -
    define temp where "temp = temp_name sha256 pid name (sg_seq t)"
    define m1 where "m1 = map_of (sg_dir t)"
    have temp: "temp \<noteq> METADATA_DIRECTORY" "temp \<noteq> PUBLICATION_LOCK" "temp \<noteq> lock" "temp \<noteq> name"
      using private_distinct [OF digest] private_names name unfolding temp_def lock_def by metis+
    have m1: "names_are (\<lambda>m. m = m1) t" "lock_taken m0 lock m1"
      using that by (simp_all add: names_are_def m1_def)
    have "metadata_of m1 = metadata_of m0" using m1(2) lock(1) by (auto simp: lock_taken_def)
    with m1(2) temp show ?thesis
      by (intro outcome_weaken [OF outcome_prepare [OF m1(1) removal]] left)
        (auto simp: names_are_def page_staged_def same_but_def lock_taken_def temp_def [symmetric] split: if_splits)
  qed
  let ?M = "\<lambda>temp. names_are (\<lambda>m. m temp = Some (Reg 1 html) \<and> m0 temp = None
      \<and> same_but {lock, temp, METADATA_DIRECTORY, PUBLICATION_LOCK} m0 m
      \<and> metadata_of m = (metadata_of m0)(name \<mapsto> Reg 1 metadata)
      \<and> temp \<noteq> METADATA_DIRECTORY \<and> temp \<noteq> PUBLICATION_LOCK \<and> temp \<noteq> name \<and> temp \<noteq> lock)"
  have described: "outcome (\<lambda>_. ?M temp) ?E (on_error (drop_temp fl temp) (stage_metadata fl lk sha256 pid name metadata t))"
    if h: "?H temp t" for temp t
  proof -
    define m1 where "m1 = map_of (sg_dir t)"
    have m1: "names_are (\<lambda>m. m = m1) t" "page_staged m0 lock temp html m1" "temp \<noteq> METADATA_DIRECTORY"
      "temp \<noteq> PUBLICATION_LOCK" "temp \<noteq> name" "temp \<noteq> lock"
      using h by (simp_all add: names_are_def m1_def)
    have "?E (drop_temp fl temp u)" if "names_are (metadata_kept m1 name metadata) u" for u
    proof (rule names_drop_temp [OF removal])
      from that have "metadata_kept m1 name metadata (map_of (sg_dir u))" by (simp add: names_are_def)
      with m1(2-) lock have "page_left m0 lock name html metadata ((map_of (sg_dir u))(temp := None))"
        by (auto simp: page_staged_def metadata_kept_def page_left_def same_but_def)
      then show "names_are (\<lambda>m. page_left m0 lock name html metadata (m(temp := None))) u" by (simp add: names_are_def)
    qed
    moreover have "outcome (\<lambda>_. ?M temp) (names_are (metadata_kept m1 name metadata)) (stage_metadata fl lk sha256 pid name metadata t)"
      by (rule outcome_weaken [OF outcome_stage_metadata [OF m1(1) removal digest]])
        (use m1(2-) in \<open>auto simp: names_are_def metadata_done_def page_staged_def same_but_def\<close>)
    ultimately show ?thesis by (intro outcome_on_error)
  qed
  have published: "outcome (\<lambda>_. ?P) ?E (publish_file fl temp (rename_entry temp name) t)" if m: "?M temp t" for temp t
    unfolding publish_file_def
  proof (rule outcome_on_error [OF outcome_attempt])
    show "?M temp t" by (rule m)
  next
    fix d'
    assume "rename_entry temp name (sg_dir t) = Inr d'"
    with m lock show "page_published m0 lock name html metadata (map_of d')"
      by (auto simp: names_are_def rename_entry_def page_published_def same_but_def map_of_set map_of_remove_entry
          split: option.splits if_splits)
  next
    fix u
    assume "?M temp u"
    with lock show "?E (drop_temp fl temp u)"
      by (intro names_drop_temp removal) (auto simp: names_are_def page_left_def same_but_def)
  qed
  have synced: "outcome (\<lambda>_. ?P) ?E (attempt fl Inr t)" if "?P t" for t
    using that by (intro outcome_attempt) (auto simp: names_are_def page_published_def page_left_def)
  show ?thesis
    unfolding stage_page_def lock_def [symmetric]
    by (rule outcome_and_then [OF locked], rule outcome_and_then [OF prepared], assumption,
        rule outcome_and_then [OF described], assumption, rule outcome_and_then [OF published], assumption, rule synced)
qed

section \<open>Properties\<close>

text \<open>C9: a publication leaves the old page, or a page with its metadata, and no litter. Whichever system call of a
  publication fails, and at whatever point, as long as files can be removed: no temporary file is left, every entry
  besides the page, its metadata and the files of the locks is as before, also other pages' metadata, and a temporary
  name that is taken already stays untouched. After a success both the page and its metadata are the new ones;
  after a failure the page is the old one, with its old or the new metadata, or both are new.\<close>

theorem failed_publication_leaves_no_litter:
  assumes "stage_page fl lk sha256 pid name html metadata s = (s', r)"
    and "\<And>n. \<not> sf_stuck fl n" and "\<forall>n. sha256 n \<noteq> []" and "\<not> is_private name"
  shows "(\<forall>n. n \<notin> {lock_name sha256 name, METADATA_DIRECTORY, PUBLICATION_LOCK, name} \<longrightarrow>
            map_of (sg_dir s') n = map_of (sg_dir s) n)
     \<and> (\<forall>n. n \<noteq> name \<longrightarrow> metadata_of (map_of (sg_dir s')) n = metadata_of (map_of (sg_dir s)) n)
     \<and> (let page = map_of (sg_dir s') name; described = metadata_of (map_of (sg_dir s')) name
        in if isl r
           then page = map_of (sg_dir s) name \<and> described \<in> {metadata_of (map_of (sg_dir s)) name, Some (Reg 1 metadata)}
             \<or> page = Some (Reg 1 html) \<and> described = Some (Reg 1 metadata)
           else page = Some (Reg 1 html) \<and> described = Some (Reg 1 metadata))"
proof -
  have "names_are (\<lambda>m. m = map_of (sg_dir s)) s" by (simp add: names_are_def)
  from outcome_stage_page [OF this assms(2-4), of html metadata lk pid] assms(1)
  show ?thesis
    by (cases r) (auto simp: outcome_def names_are_def page_left_def page_published_def same_but_def Let_def)
qed

text \<open>The third system call, the first write, fails while an older page is in place.\<close>

definition failing_write :: faults where
  "failing_write = \<lparr>sf_call = (\<lambda>n. if n = 3 then Some (io_err OtherKind ''no space'') else None), sf_stuck = (\<lambda>_. False)\<rparr>"

definition old_page :: staging where
  "old_page = \<lparr>sg_seq = 5, sg_calls = 0, sg_dir = [(''a.html'', Reg 1 [1])]\<rparr>"

theorem failed_publication_leaves_no_litter_witness:
  "\<exists>s' e. stage_page failing_write (\<lambda>_ _. Inr ()) (\<lambda>_. [0, 1]) 7 ''a.html'' [2] [3] old_page = (s', Inl e)
     \<and> sg_seq s' = 6 \<and> map_of (sg_dir s') ''a.html'' = Some (Reg 1 [1])
     \<and> map_of (sg_dir s') (temp_name (\<lambda>_. [0, 1]) 7 ''a.html'' 5) = None"
proof -
  let ?sha = "\<lambda>_ :: string. [0, 1] :: bytes"
  let ?t = "temp_name ?sha 7 ''a.html'' 5" and ?l = "lock_name ?sha ''a.html''"
  have names: "\<not> is_private ''a.html''" "?t \<noteq> ''a.html''" "?l \<noteq> ''a.html''" "?t \<noteq> ?l" "?l \<noteq> ?t"
    using private_distinct(3) [of ?sha 7 "''a.html''" 5 "''a.html''"] private_names
    by (auto simp: is_private_def temp_name_def lock_name_def Let_def)
  have reserved: "?t \<noteq> METADATA_DIRECTORY" "?t \<noteq> PUBLICATION_LOCK" using private_distinct [of ?sha] by auto
  obtain s' r where r: "stage_page failing_write (\<lambda>_ _. Inr ()) ?sha 7 ''a.html'' [2] [3] old_page = (s', r)" by fastforce
  then have "s' = \<lparr>sg_seq = 6, sg_calls = 4, sg_dir = [(''a.html'', Reg 1 [1]), (?l, Reg 1 [])]\<rparr>" "isl r"
    using names
    by (auto simp: stage_page_def lock_for_writing_def attempt_def and_then_def on_error_def prepare_file_def create_temporary_def
        drop_temp_def create_new_def remove_entry_def failing_write_def old_page_def open_lock_entry_def file_lock_acquire_def Let_def)
  moreover have "map_of (sg_dir s') ?t = map_of (sg_dir old_page) ?t"
    using failed_publication_leaves_no_litter [OF r] names reserved by (simp add: failing_write_def)
  ultimately show ?thesis using r names by (cases r) (auto simp: old_page_def)
qed

lemma show_nat_length: "n < 10 ^ Suc k \<Longrightarrow> length (show_nat n) \<le> Suc k"
proof (induction n arbitrary: k rule: show_nat.induct)
  case (1 n)
  show ?case
  proof (cases "n < 10")
    case False
    with "1.prems" obtain j where k: "k = Suc j" by (cases k) auto
    with "1.prems" have "n div 10 < 10 ^ Suc j" by (simp add: less_mult_imp_div_less)
    from "1.IH" [OF False this] False show ?thesis by (simp add: show_nat.simps [of n] k)
  qed (simp add: show_nat.simps [of n])
qed

lemma show_nat_digit_eq: "char_of (48 + a mod 10 :: nat) = char_of (48 + b mod 10 :: nat) \<Longrightarrow> a mod 10 = b mod 10"
proof -
  assume "char_of (48 + a mod 10 :: nat) = char_of (48 + b mod 10 :: nat)"
  then have "byte_of (char_of (48 + a mod 10)) = byte_of (char_of (48 + b mod 10))" by simp
  moreover have "a mod 10 < 10" "b mod 10 < 10" by simp_all
  ultimately show ?thesis by simp
qed

lemma show_nat_inj: "show_nat a = show_nat b \<Longrightarrow> a = b"
proof (induction a arbitrary: b rule: show_nat.induct)
  case (1 a)
  have ne: "show_nat n \<noteq> []" for n using show_nat_digits by simp
  show ?case
  proof (cases "a < 10"; cases "b < 10")
    assume "a < 10" "b < 10"
    with "1.prems" show ?thesis using show_nat_digit_eq [of a b] by (simp add: show_nat.simps [of a] show_nat.simps [of b])
  next
    assume "\<not> a < 10" "\<not> b < 10"
    with "1.prems" have "show_nat (a div 10) = show_nat (b div 10)" "a mod 10 = b mod 10"
      using show_nat_digit_eq [of a b] by (simp_all add: show_nat.simps [of a] show_nat.simps [of b])
    with "1.IH" [OF \<open>\<not> a < 10\<close>] show ?thesis by (metis div_mult_mod_eq)
  next
    assume "a < 10" "\<not> b < 10"
    with "1.prems" ne [of "b div 10"] show ?thesis by (simp add: show_nat.simps [of a] show_nat.simps [of b])
  next
    assume "\<not> a < 10" "b < 10"
    with "1.prems" ne [of "a div 10"] show ?thesis by (simp add: show_nat.simps [of a] show_nat.simps [of b])
  qed
qed

lemma to_hex_length: "length (to_hex bs) = 2 * length bs"
  by (induction bs) (simp_all add: to_hex_def)

lemma temp_transient:
  assumes "length (sha256 n) = 32"
  shows "is_transient_publication_name (temp_name sha256 pid n seq)"
proof -
  let ?t = "temp_name sha256 pid n seq"
  have "length (to_hex (sha256 n)) = 64" using assms by (simp add: to_hex_length)
  then have "take 5 (drop 72 ?t) = ''.tmp.''" "72 < length ?t" by (simp_all add: temp_name_def)
  then have "list_ex (\<lambda>i. take 5 (drop i ?t) = ''.tmp.'') [0..<length ?t]"
    unfolding list_ex_iff by (intro bexI [of _ 72]) simp_all
  then show ?thesis using private_names(1) by (simp add: is_transient_publication_name_def is_private_def)
qed

text \<open>The private names of a publisher stay private. No address of a static page leads to them: the
  components that an address adds to the site root never start with \<^verbatim>\<open>.leptos-\<close>, which all temporary files, locks, the
  control record and the metadata directory do. A temporary name is recognised as transient, fits into 255 bytes
  whatever the length of the page's name, and two of one process with different sequence numbers differ.\<close>

theorem private_names_unreachable:
  assumes "\<forall>n. length (sha256 n) = 32" and "pid < 2 ^ 32"
  shows "(\<forall>full. static_path pct site path = Some full \<longrightarrow>
            (\<exists>names. full = site @ map Normal names \<and> (\<forall>n \<in> set names. \<not> is_private n)))
     \<and> (\<forall>t \<in> {temp_name sha256 pid n seq, lock_name sha256 n, METADATA_DIRECTORY, PUBLICATION_LOCK, CONTROL}. is_private t)
     \<and> is_transient_publication_name (temp_name sha256 pid n seq)
     \<and> length (temp_name sha256 pid n seq) \<le> 255
     \<and> (temp_name sha256 pid n seq = temp_name sha256 pid n' seq' \<longrightarrow> seq = seq')"
proof (intro conjI allI impI)
  fix full
  assume "static_path pct site path = Some full"
  then obtain rel where rel: "full = site @ rel" "list_all acceptable_component rel"
    by (auto simp: static_path_def Let_def bind_eq_Some_conv split: if_splits)
  have "\<exists>names. rel = map Normal names \<and> (\<forall>n \<in> set names. \<not> is_private n)"
    using rel(2)
  proof (induction rel)
    case (Cons c rel)
    then obtain names n where c: "c = Normal n" "\<not> is_blocked_dot_segment n" and ih: "rel = map Normal names" "\<forall>n \<in> set names. \<not> is_private n"
      by (cases c) auto
    have "\<not> is_private n"
    proof
      assume "is_private n"
      then have p: "take 8 n = ''.leptos-''" by (simp add: is_private_def)
      then have "take 1 (take 8 n) = ''.''" by simp
      then have "take 1 n = ''.''" by simp
      with p c(2) show False by (auto simp: is_blocked_dot_segment_def WELL_KNOWN_SEGMENT_def)
    qed
    with c ih show ?case by (intro exI [of _ "n # names"]) simp
  qed simp
  with rel(1) show "\<exists>names. full = site @ map Normal names \<and> (\<forall>n \<in> set names. \<not> is_private n)" by blast
next
  show "\<forall>t \<in> {temp_name sha256 pid n seq, lock_name sha256 n, METADATA_DIRECTORY, PUBLICATION_LOCK, CONTROL}. is_private t"
    using private_names by blast
  show "is_transient_publication_name (temp_name sha256 pid n seq)" using assms(1) by (simp add: temp_transient)
  have "length (show_nat pid) \<le> Suc 9" using assms(2) by (intro show_nat_length) simp
  moreover have "unat seq < 2 ^ LENGTH(64)" by (rule unsigned_less)
  then have "length (show_nat (unat seq)) \<le> Suc 19" by (intro show_nat_length) simp
  ultimately show "length (temp_name sha256 pid n seq) \<le> 255" using assms(1) by (simp add: temp_name_def to_hex_length)
next
  assume "temp_name sha256 pid n seq = temp_name sha256 pid n' seq'"
  then have "show_nat (unat seq) = show_nat (unat seq')"
    using assms(1) by (simp add: temp_name_def append_eq_append_conv to_hex_length)
  then have "unat seq = unat seq'" by (rule show_nat_inj)
  then show "seq = seq'" by (rule unsigned_word_eqI)
qed

theorem private_names_unreachable_witness:
  "static_path Some [RootDir, Normal ''srv''] ''/.leptos-x.lock'' = None
     \<and> length (temp_name (\<lambda>_. replicate 32 7) 9 (replicate 300 CHR ''a'') 4) \<le> 255
     \<and> (\<forall>full. static_path Some [RootDir, Normal ''srv''] ''/about'' = Some full \<longrightarrow>
          (\<exists>names. full = [RootDir, Normal ''srv''] @ map Normal names \<and> (\<forall>n \<in> set names. \<not> is_private n)))"
proof -
  have "static_path Some [RootDir, Normal ''srv''] ''/.leptos-x.lock'' = None"
    by (simp add: static_path_def logical_path_def normalized_path_def is_blocked_dot_segment_def WELL_KNOWN_SEGMENT_def)
  then show ?thesis
    using private_names_unreachable [of "\<lambda>_. replicate 32 7" 9 Some "[RootDir, Normal ''srv'']" "''/about''" "replicate 300 CHR ''a''" 4]
    by simp
qed

end
