(* ===== verification/Static_Render.thy ===== *)
theory Static_Render
  imports Page_Render Permits
begin

text \<open>
  Rendering of a static page (\<open>StaticRouteGenerator::render_route\<close> of \<^verbatim>\<open>src/static_routes.rs\<close>). Nobody asks for the
  page: a synthetic request with its path joins the scope of the worker, the application runs with the contexts of a
  page, and the whole stream is collected into one document. The application and its environment are those of
  \<open>Page_Render\<close>; \<open>parse\<close> splits the address of the synthetic request into its path and its query.
\<close>

section \<open>The synthetic request\<close>

definition mock_request :: "(string \<Rightarrow> string \<times> string) \<Rightarrow> string \<Rightarrow> native_request" where
  "mock_request parse path =
     (case parse (if path = [] then ''/'' else path) of
        (p, q) \<Rightarrow> \<lparr>nr_path = p, nr_query = q, nr_method = ''GET'', nr_version = HTTP_11, nr_io = False,
                   nr_headers = {''accept''}\<rparr>)"

section \<open>Rendering\<close>

text \<open>\<open>RenderedRoute\<close>: the reactive owner, which here is what the page made of the response options and the
  contexts it saw, with the document.\<close>

type_synonym ('hm, 'c) rendered_route = "static_policy_error + 'c context_value list \<times> 'hm response_parts \<times> string"

definition collect_document ::
  "('hm, 'hv) page_env \<Rightarrow> bool \<Rightarrow> 'hm application \<Rightarrow> 'hm response_parts \<Rightarrow> 'hm response_parts \<times> string" where
  "collect_document env islands_router app options =
     (case async_stream_builder islands_router app False of
        (awaited, stream) \<Rightarrow>
          let options1 = await_deferred (pe_rounds env 0) (awaited (ap_setup app options));
              document = pe_inject env [] stream
          in (run_pieces document options1, pieces_text document))"

text \<open>\<open>render_route\<close>, with the flag of the report on missing scopes and what is logged. \<open>None\<close> is a panic.\<close>

definition render_route ::
  "('hm, 'hv) page_env \<Rightarrow> bool \<Rightarrow> (string \<Rightarrow> string \<times> string) \<Rightarrow> 'c list \<Rightarrow> ('c context_value list \<Rightarrow> 'hm application) \<Rightarrow>
   native_request world \<Rightarrow> nat \<Rightarrow> bool \<Rightarrow> string \<Rightarrow>
   (native_request world \<times> bool \<times> string list \<times> ('hm, 'c) rendered_route) option" where
  "render_route env islands_router parse additional app_fn w thread reported path =
     (case try_new w thread (mock_request parse path) of
        None \<Rightarrow> None
      | Some (w', Inl e) \<Rightarrow>
          (case report_missing_scope reported e of (reported', logged) \<Rightarrow>
             Some (w', reported', logged, Inl (Render (access_error_message e))))
      | Some (w', Inr tk) \<Rightarrow>
          (case provide_contexts w' thread tk of
             None \<Rightarrow> None
           | Some provided \<Rightarrow>
               let contexts = page_contexts provided additional False
               in case collect_document env islands_router (app_fn contexts) (parts_default (pe_headers env)) of
                    (options, html) \<Rightarrow> Some (w', reported, [], Inr (contexts, options, html))))"

section \<open>Lemmas\<close>

text \<open>A handle leads to the request that it was made for, whichever that was.\<close>

lemma try_new_same:
  "try_new w thread a = Some (w1, Inr t1) \<Longrightarrow> try_new w thread b = Some (w2, Inr t2) \<Longrightarrow> t1 = t2"
  by (auto simp: try_new_def Let_def split: option.splits if_splits)

lemma page_contexts_of:
  assumes "scope_reachable w" "handle_response_inner env islands_router additional app_fn build w thread reported req
      = Some (w', reported', logged, Inr (contexts, res))"
  shows "\<exists>tk. try_new w thread req = Some (w', Inr tk)
      \<and> contexts = page_contexts [Request_Url (leptos_corrected_path req), Meta_Context, Response_Options, Request_Handle tk,
          Server_Redirect, Nonce] additional (islands_navigation islands_router req)"
proof -
  obtain tk where tk: "try_new w thread req = Some (w', Inr tk)"
    using assms(2) by (auto simp: handle_response_inner_def scoped_request_def Let_def split: option.splits prod.splits sum.splits)
  have "access w' thread tk = Inr req" by (rule try_new_access [OF scope_reachable_inv [OF assms(1)] tk])
  with tk assms(2) show ?thesis
    by (auto simp: handle_response_inner_def scoped_request_def provide_contexts_def Let_def)
qed

lemma route_contexts_of:
  assumes "scope_reachable w" "render_route env islands_router parse additional app_fn w thread reported path
      = Some (w', reported', logged, Inr (contexts, options, html))"
  shows "\<exists>tk. try_new w thread (mock_request parse path) = Some (w', Inr tk)
      \<and> contexts = page_contexts [Request_Url (leptos_corrected_path (mock_request parse path)), Meta_Context, Response_Options,
          Request_Handle tk, Server_Redirect, Nonce] additional False
      \<and> collect_document env islands_router (app_fn contexts) (parts_default (pe_headers env)) = (options, html)"
proof -
  obtain tk where tk: "try_new w thread (mock_request parse path) = Some (w', Inr tk)"
    using assms(2) by (auto simp: render_route_def Let_def split: option.splits prod.splits sum.splits)
  have "access w' thread tk = Inr (mock_request parse path)" by (rule try_new_access [OF scope_reachable_inv [OF assms(1)] tk])
  with tk assms(2) show ?thesis
    by (auto simp: render_route_def provide_contexts_def Let_def split: prod.splits)
qed

lemma render_refused:
  assumes "scope_reachable w" "current_registry w thread = None"
  shows "render_route env islands_router parse additional app_fn w thread reported path =
     (case report_missing_scope reported MissingScope of
        (reported', logged) \<Rightarrow> Some (w, reported', logged, Inl (Render ''no active RequestScope on this thread'')))"
proof -
  have "try_new w thread (mock_request parse path) = Some (w, Inl MissingScope)"
    using assms by (simp add: try_new_def)
  then show ?thesis by (simp add: render_route_def)
qed

section \<open>Property\<close>


text \<open>Two pages that render nothing but their address.\<close>

definition static_demo_app :: "unit context_value list \<Rightarrow> (string \<times> string) list application" where
  "static_demo_app contexts = \<lparr>ap_setup = id, ap_out_of_order = [], ap_in_order = [(id, ''<p>''), (id, ''</p>'')],
     ap_out_of_order_branching = [], ap_in_order_branching = [], ap_chunks = [(id, ''<script>'')], ap_prefetches = [], ap_manifest = None\<rparr>"


end
