(* ===== verification/Policy_Handle.thy ===== *)
theory Policy_Handle
  imports Permits Managed_Roots
begin

text \<open>
  The policy handle that applications share (\<open>StaticRoutePolicy\<close> of \<^verbatim>\<open>src/static_routes/policy.rs\<close>): how it is
  opened, what it admits, and how its errors read; and the subscriptions of a generation, each of which holds one
  permit (\<open>Generation::subscribe\<close> and the reservation in \<open>Generation::run\<close>, \<^verbatim>\<open>src/static_routes.rs\<close>). Pools and
  permits are those of \<open>Permits\<close>, the installation in a tree of directories is that of \<open>Managed_Roots\<close>.
\<close>

section \<open>Errors\<close>

fun storage_error_message :: "storage_error \<Rightarrow> string" where
  "storage_error_message Busy = ''static storage publication is busy''"
| "storage_error_message (LimitExceeded resource limit required) =
     ''static storage '' @ resource @ '' limit '' @ show_nat (unat limit) @ '' would require '' @ show_nat (unat required)"
| "storage_error_message PolicyMismatch = ''static storage policy does not match the installed policy''"
| "storage_error_message BindingRequired = ''static publication requires the installed storage policy''"
| "storage_error_message InvalidPolicy = ''invalid static storage policy record''"
| "storage_error_message UnsupportedRoot = ''unsupported or overlapping static storage root''"
| "storage_error_message UnsupportedPlatform = ''bounded static storage is not implemented on this platform''"
| "storage_error_message (Io e) = io_message e"
| "storage_error_message Overflow = ''static storage accounting overflow''"

fun storage_error_source :: "storage_error \<Rightarrow> io_error option" where
  "storage_error_source (Io e) = Some e"
| "storage_error_source _ = None"

fun policy_error_message :: "static_policy_error \<Rightarrow> string" where
  "policy_error_message (StorageFailure e) = storage_error_message e"
| "policy_error_message (WorkCapacity resource limit) =
     ''static '' @ resource @ '' capacity exhausted (limit '' @ show_nat (unat limit) @ '')''"
| "policy_error_message AlreadyStarted = ''static runtime has already started''"
| "policy_error_message ConflictingPolicy = ''static runtime already has a different policy''"
| "policy_error_message (Render message) = message"

fun policy_error_source :: "static_policy_error \<Rightarrow> storage_error option" where
  "policy_error_source (StorageFailure e) = Some e"
| "policy_error_source _ = None"

section \<open>The handle\<close>

record policy_handle =
  ph_storage :: storage
  ph_root :: "string list"
  ph_renders :: permit_pool
  ph_subscriptions :: permit_pool
  ph_waiters :: permit_pool

text \<open>\<open>StaticRoutePolicy::open\<close>: inside an ntex system the installation runs on the blocking pool, whose failure to
  run it is \<open>join\<close>; elsewhere it runs inline.\<close>

definition policy_open ::
  "bool \<Rightarrow> string option \<Rightarrow> lock_call \<Rightarrow> entries \<Rightarrow> component list \<Rightarrow> storage_limits \<Rightarrow> static_work_limits \<Rightarrow>
   static_policy_error + (entries \<times> policy_handle)" where
  "policy_open in_system join lk tree path limits work =
     (let installed = map_err StorageFailure (install_policy lk tree path limits)
      in res_bind (if in_system then (case join of Some message \<Rightarrow> Inl (Render message) | None \<Rightarrow> installed) else installed)
           (\<lambda>(tree1, canonical, st). Inr (tree1,
              \<lparr>ph_storage = st, ph_root = canonical, ph_renders = pool_new ''renders'' (renders work),
               ph_subscriptions = pool_new ''subscriptions'' (subscriptions work), ph_waiters = pool_new ''waiters'' (waiters work)\<rparr>)))"

definition policy_render :: "policy_handle \<Rightarrow> static_policy_error + policy_handle" where
  "policy_render h = res_bind (acquire (ph_renders h) 1) (\<lambda>p. Inr (h\<lparr>ph_renders := p\<rparr>))"

definition policy_waiter :: "policy_handle \<Rightarrow> static_policy_error + policy_handle" where
  "policy_waiter h = res_bind (acquire (ph_waiters h) 1) (\<lambda>p. Inr (h\<lparr>ph_waiters := p\<rparr>))"

text \<open>\<open>u64::try_from\<close> of a size, or the largest number.\<close>

definition amount_of :: "nat \<Rightarrow> u64" where
  "amount_of n = (if n < 2 ^ 64 then word_of_nat n else - 1)"

definition policy_subscribe :: "policy_handle \<Rightarrow> nat \<Rightarrow> static_policy_error + policy_handle" where
  "policy_subscribe h amount = res_bind (acquire (ph_subscriptions h) (amount_of amount)) (\<lambda>p. Inr (h\<lparr>ph_subscriptions := p\<rparr>))"

definition render_capacity_error :: "policy_handle \<Rightarrow> static_policy_error" where
  "render_capacity_error h = pool_error (ph_renders h)"

section \<open>Subscriptions\<close>

text \<open>The reservation of a generation: the policy afterwards and the permit, if there is a policy.\<close>

definition reserve_subscriptions ::
  "policy_handle option \<Rightarrow> nat \<Rightarrow> static_policy_error + (policy_handle \<times> u64) option" where
  "reserve_subscriptions policy n =
     (case policy of
        None \<Rightarrow> Inr None
      | Some h \<Rightarrow> res_bind (policy_subscribe h n) (\<lambda>h'. Inr (Some (h', amount_of n))))"

text \<open>One stream after the other: each is made from the parameters of the page and keeps the permit that is split off
  for it. \<open>None\<close> is the failed assertion of \<open>split_one\<close>.\<close>

fun subscribe_streams ::
  "'p \<Rightarrow> ('p \<Rightarrow> 's) list \<Rightarrow> u64 option \<Rightarrow> (u64 option \<times> ('s \<times> u64 option) list) option" where
  "subscribe_streams params [] permit = Some (permit, [])"
| "subscribe_streams params (r # rs) None =
     map_option (\<lambda>(left, streams). (left, (r params, None) # streams)) (subscribe_streams params rs None)"
| "subscribe_streams params (r # rs) (Some amount) =
     Option.bind (split_one amount) (\<lambda>(rest, one).
       map_option (\<lambda>(left, streams). (left, (r params, Some one) # streams)) (subscribe_streams params rs (Some rest)))"

definition subscribe ::
  "'p option \<Rightarrow> ('p \<Rightarrow> 's) list \<Rightarrow> u64 option \<Rightarrow> (u64 option \<times> ('s \<times> u64 option) list) option" where
  "subscribe params regenerate permit =
     (case params of None \<Rightarrow> Some (permit, []) | Some p \<Rightarrow> subscribe_streams p regenerate permit)"

text \<open>The permits of a generation are dropped one by one, in any order.\<close>

definition drop_all :: "(nat \<Rightarrow> bool) \<Rightarrow> permit_pool \<Rightarrow> u64 list \<Rightarrow> permit_pool" where
  "drop_all alive p amounts = foldl (\<lambda>p amount. fst (permit_drop alive p amount)) p amounts"

section \<open>Lemmas\<close>

lemma amount_of_small: "n < 2 ^ 64 \<Longrightarrow> unat (amount_of n) = n"
  by (simp add: amount_of_def unsigned_of_nat take_bit_nat_eq_self)

lemma subscribe_streams_split:
  "length rs \<le> n \<Longrightarrow> n < 2 ^ 64 \<Longrightarrow> subscribe_streams params rs (Some (word_of_nat n)) =
     Some (Some (word_of_nat (n - length rs)), map (\<lambda>r. (r params, Some 1)) rs)"
proof (induction rs arbitrary: n)
  case (Cons r rs)
  then obtain k where n: "n = Suc k" by (cases n) auto
  have "unat (word_of_nat n :: u64) = n" using Cons.prems(2) by (simp add: unsigned_of_nat take_bit_nat_eq_self)
  with n have "(0 :: u64) < word_of_nat n" by (simp only: word_less_nat_alt unsigned_0 zero_less_Suc)
  then have "split_one (word_of_nat n :: u64) = Some (word_of_nat k, 1)" by (simp add: split_one_def n)
  with Cons n show ?case by simp
qed simp

lemma drop_all_used: "pool_used (drop_all alive p amounts) = pool_used p - sum_list amounts"
  by (induction amounts arbitrary: p) (simp_all add: drop_all_def permit_drop_def Let_def diff_diff_eq)

section \<open>Property\<close>

text \<open>C18: a generation holds exactly one subscription permit per stream. When the reservation for its streams is admitted,
  the pool counts that many more, without wrapping and within the limit, and no other pool changes; splitting never
  fails: if the page has parameters, every stream is made from them, in order, with a permit of its own, and nothing
  is left over; without parameters there is no stream and the reservation stays with the generation. In
  whatever order the permits are dropped, the count is then what it was before.\<close>

theorem subscription_permits_exact:
  assumes "reserve_subscriptions (Some h) (length regenerate) = Inr reserved" and "length regenerate < 2 ^ 64"
  shows "\<exists>h' left streams. reserved = Some (h', amount_of (length regenerate))
     \<and> subscribe params regenerate (Some (amount_of (length regenerate))) = Some (Some left, streams)
     \<and> (case params of
          Some p \<Rightarrow> left = 0 \<and> streams = map (\<lambda>r. (r p, Some 1)) regenerate
        | None \<Rightarrow> streams = [] \<and> unat left = length regenerate)
     \<and> unat (pool_used (ph_subscriptions h')) = unat (pool_used (ph_subscriptions h)) + length regenerate
     \<and> (\<forall>limit. pool_limit (ph_subscriptions h) = Some limit \<longrightarrow> pool_used (ph_subscriptions h') \<le> limit)
     \<and> ph_renders h' = ph_renders h \<and> ph_waiters h' = ph_waiters h
     \<and> (\<forall>amounts. mset amounts = mset (left # map (the \<circ> snd) streams) \<longrightarrow>
          pool_used (drop_all alive (ph_subscriptions h') amounts) = pool_used (ph_subscriptions h))"
proof -
  let ?n = "length regenerate"
  obtain p' where a: "acquire (ph_subscriptions h) (amount_of ?n) = Inr p'"
    and r: "reserved = Some (h\<lparr>ph_subscriptions := p'\<rparr>, amount_of ?n)"
    using assms(1) by (auto simp: reserve_subscriptions_def policy_subscribe_def res_bind_Inr_iff)
  have n: "amount_of ?n = word_of_nat ?n" "unat (amount_of ?n) = ?n"
    using assms(2) amount_of_small by (simp_all add: amount_of_def)
  have used: "unat (pool_used p') = unat (pool_used (ph_subscriptions h)) + ?n"
    using acquire_used [OF a] n(2) by simp
  have limit: "pool_used p' \<le> limit" if "pool_limit (ph_subscriptions h) = Some limit" for limit
    using a that by (auto simp: acquire_def res_bind_Inr_iff split: if_splits)
  have sum: "pool_used p' = pool_used (ph_subscriptions h) + amount_of ?n"
    using a by (simp add: acquire_Inr)
  define left where "left = (case params of Some p \<Rightarrow> 0 | None \<Rightarrow> amount_of ?n)"
  define streams where "streams = (case params of Some p \<Rightarrow> map (\<lambda>r. (r p, Some (1 :: u64))) regenerate | None \<Rightarrow> [])"
  have "subscribe params regenerate (Some (amount_of ?n)) = Some (Some left, streams)"
    using subscribe_streams_split [of regenerate ?n] assms(2)
    by (simp add: subscribe_def left_def streams_def n(1) split: option.split)
  moreover have "case params of Some p \<Rightarrow> left = 0 \<and> streams = map (\<lambda>r. (r p, Some 1)) regenerate
      | None \<Rightarrow> streams = [] \<and> unat left = ?n"
    by (simp add: left_def streams_def n(2) split: option.split)
  moreover have "pool_used (drop_all alive p' amounts) = pool_used (ph_subscriptions h)"
    if "mset amounts = mset (left # map (the \<circ> snd) streams)" for amounts
  proof -
    have "sum_list amounts = sum_list (left # map (the \<circ> snd) streams)"
      using that by (metis sum_mset_sum_list)
    also have "\<dots> = amount_of ?n"
      by (simp add: left_def streams_def n(1) comp_def sum_list_triv split: option.split)
    finally show ?thesis by (simp add: drop_all_used sum)
  qed
  ultimately show ?thesis
    using r used limit by (intro exI [of _ "h\<lparr>ph_subscriptions := p'\<rparr>"] exI [of _ left] exI [of _ streams]) simp
qed

text \<open>Two streams within a limit of three.\<close>

theorem subscription_permits_exact_witness:
  "\<exists>h' streams. reserve_subscriptions (Some \<lparr>ph_storage = \<lparr>st_limits = storage_limits_new, st_cached = None\<rparr>, ph_root = [],
       ph_renders = pool_new ''renders'' None, ph_subscriptions = pool_new ''subscriptions'' (Some 3), ph_waiters = pool_new ''waiters'' None\<rparr>)
       2 = Inr (Some (h', 2))
     \<and> subscribe (Some ''slug'') [\<lambda>p. p @ ''1'', \<lambda>p. p @ ''2''] (Some 2) = Some (Some 0, streams)
     \<and> streams = [(''slug1'', Some 1), (''slug2'', Some 1)] \<and> pool_used (ph_subscriptions h') \<le> 3"
proof -
  let ?h = "\<lparr>ph_storage = \<lparr>st_limits = storage_limits_new, st_cached = None\<rparr>, ph_root = [],
       ph_renders = pool_new ''renders'' None, ph_subscriptions = pool_new ''subscriptions'' (Some 3), ph_waiters = pool_new ''waiters'' None\<rparr>"
  let ?rs = "[\<lambda>p. p @ ''1'', \<lambda>p. p @ ''2''] :: (string \<Rightarrow> string) list"
  obtain reserved where r: "reserve_subscriptions (Some ?h) (length ?rs) = Inr reserved"
    by (simp add: reserve_subscriptions_def policy_subscribe_def acquire_def checked_add_def pool_new_def amount_of_def)
  have n: "length ?rs < 2 ^ 64" "length ?rs = 2" "amount_of (length ?rs) = 2" by (simp_all add: amount_of_def)
  obtain h' left streams where "reserved = Some (h', amount_of (length ?rs))"
    "subscribe (Some ''slug'') ?rs (Some (amount_of (length ?rs))) = Some (Some left, streams)"
    "left = 0" "streams = map (\<lambda>r. (r ''slug'', Some 1)) ?rs" "pool_used (ph_subscriptions h') \<le> 3"
    using subscription_permits_exact [OF r n(1), where params = "Some ''slug''" and alive = "\<lambda>_. True"] by (auto simp: pool_new_def)
  with r n(2,3) show ?thesis by (intro exI [of _ h'] exI [of _ streams]) (simp only: list.map append.simps simp_thms)
qed

end
