(* ===== verification/Route_Generation.thy ===== *)
theory Route_Generation
  imports Route_Config Page_Render Policy Policy_Handle
begin

text \<open>
  What \<open>generate_route_list\<close> and its variants return (\<^verbatim>\<open>src/routes.rs\<close>): the listings and a generator of static pages
  that share one runtime; and what the generator does with a policy, the paths and its failures
  (\<open>StaticRouteGenerator\<close>, \<open>StaticGenerationError\<close>, \<^verbatim>\<open>src/static_routes.rs\<close>). The walk of the router's tree is an
  argument: it sees the contexts provided to it and may find no router.
\<close>

section \<open>Generation of lists\<close>

record static_route_generator =
  sg_routes :: "route_listing list"
  sg_runtime :: nat

definition generate_route_list_with_exclusions_and_ssg_and_context ::
  "(path_segment list \<Rightarrow> path_segment list list) \<Rightarrow> ssr_mode \<Rightarrow> nat \<Rightarrow> ('c context_value list \<Rightarrow> route_listing list option) \<Rightarrow>
   string list option \<Rightarrow> 'c list \<Rightarrow> ntex_route_listing list \<times> static_route_generator" where
  "generate_route_list_with_exclusions_and_ssg_and_context expand default_mode runtime walk excluded additional =
     (let routes = (case walk ([Request_Url [], Response_Options, Meta_Context] @ map Application_Context additional) of
                      Some rs \<Rightarrow> rs | None \<Rightarrow> [])
      in (Routes.generate_route_list expand default_mode runtime routes excluded, \<lparr>sg_routes = routes, sg_runtime = runtime\<rparr>))"

definition generate_route_list_with_exclusions_and_ssg where
  "generate_route_list_with_exclusions_and_ssg expand default_mode runtime walk excluded =
     generate_route_list_with_exclusions_and_ssg_and_context expand default_mode runtime walk excluded []"

definition generate_route_list_with_exclusions where
  "generate_route_list_with_exclusions expand default_mode runtime walk excluded =
     fst (generate_route_list_with_exclusions_and_ssg expand default_mode runtime walk excluded)"

definition generate_route_list_with_ssg where
  "generate_route_list_with_ssg expand default_mode runtime walk =
     generate_route_list_with_exclusions_and_ssg expand default_mode runtime walk None"

definition generate_list where
  "generate_list expand default_mode runtime walk =
     fst (generate_route_list_with_exclusions_and_ssg expand default_mode runtime walk None)"

section \<open>Policies of a list\<close>

text \<open>The addresses of the runtimes behind a list: that of the process, those of generated lists, and for the \<open>i\<close>-th
  listing one of its own.\<close>

fun runtime_addr :: "nat \<Rightarrow> (nat \<Rightarrow> nat) \<Rightarrow> nat \<Rightarrow> runtime_ref \<Rightarrow> nat" where
  "runtime_addr shared own i Shared = shared"
| "runtime_addr shared own i (Generated r) = r"
| "runtime_addr shared own i Own = own i"

definition runtimes_of :: "nat \<Rightarrow> (nat \<Rightarrow> nat) \<Rightarrow> ntex_route_listing list \<Rightarrow> nat list" where
  "runtimes_of shared own listings = map (\<lambda>(i, l). runtime_addr shared own i (nl_runtime l)) (enumerate 0 listings)"

definition with_static_policy ::
  "runtimes \<Rightarrow> static_route_generator \<Rightarrow> route_policy \<Rightarrow> runtimes \<times> (static_policy_error + static_route_generator)" where
  "with_static_policy rt g policy =
     (case bind_runtime rt policy (sg_runtime g) of
        (rt', Inl e) \<Rightarrow> (rt', Inl e)
      | (rt', Inr _) \<Rightarrow> (rt', Inr g))"

section \<open>Running a generator\<close>

text \<open>The error of a generation with failures.\<close>

record generation_error =
  ge_completed :: nat
  ge_failures :: "(string \<times> static_policy_error) list"

definition generation_error_message :: "generation_error \<Rightarrow> string" where
  "generation_error_message e =
     show_nat (length (ge_failures e)) @ '' static generation failures after '' @ show_nat (ge_completed e) @ '' completed paths''"

definition generation_error_source :: "generation_error \<Rightarrow> static_policy_error option" where
  "generation_error_source e = (case ge_failures e of [] \<Rightarrow> None | (path, error) # _ \<Rightarrow> Some error)"

text \<open>A run starts the root, which makes it managed if a policy is bound, and then renders the paths: \<open>paths\<close> are
  those of each route with the outcome of rendering them, which may depend on the policy.\<close>

definition run_generator ::
  "runtimes \<Rightarrow> static_route_generator \<Rightarrow> io_error + string list \<Rightarrow>
   (route_policy option \<Rightarrow> route_listing \<Rightarrow> 'o path_render list option) \<Rightarrow>
   runtimes \<times> route_policy option \<times> (generation_error + nat)" where
  "run_generator rt g site_root paths =
     (case policy_start (rt (sg_runtime g)) site_root of
        (s, policy) \<Rightarrow>
          (rt(sg_runtime g := s), policy,
           case try_generate (policy \<noteq> None) (map (paths policy) (sg_routes g)) of
             Inl (completed, failures) \<Rightarrow> Inl \<lparr>ge_completed = completed, ge_failures = failures\<rparr>
           | Inr completed \<Rightarrow> Inr completed))"

text \<open>\<open>generate\<close> reports the text of each failure.\<close>

definition generate_reports :: "generation_error + nat \<Rightarrow> string list" where
  "generate_reports r = (case r of Inl e \<Rightarrow> map (policy_error_message \<circ> snd) (ge_failures e) | Inr _ \<Rightarrow> [])"

section \<open>Lemmas\<close>

text \<open>Exclusions affect the listings only.\<close>

theorem exclusions_keep_generator:
  "snd (generate_route_list_with_exclusions_and_ssg_and_context expand default_mode runtime walk excluded additional) =
   snd (generate_route_list_with_exclusions_and_ssg_and_context expand default_mode runtime walk None additional)"
  by (simp add: generate_route_list_with_exclusions_and_ssg_and_context_def Let_def)

text \<open>A bound policy stays bound, whatever is bound or started afterwards.\<close>

definition governs :: "runtimes \<Rightarrow> nat \<Rightarrow> route_policy \<Rightarrow> bool" where
  "governs rt r policy \<longleftrightarrow> (\<exists>b. rt r (pol_root policy) = Some b \<and> b_policy b = Some policy)"

lemma bind_keeps:
  assumes "policy_check (rt r) q = Inr ()" "governs rt r policy"
  shows "\<exists>b. policy_bind (rt r) q (pol_root policy) = Some b \<and> b_policy b = Some policy"
proof (cases "pol_root q = pol_root policy")
  case True
  with assms have "pol_id q = pol_id policy"
    by (auto simp: policy_check_def governs_def split: option.splits if_splits)
  with True have "q = policy" by simp
  then show ?thesis by (simp add: policy_bind_def)
next
  case False
  with assms(2) show ?thesis by (auto simp: policy_bind_def governs_def)
qed

lemma governs_step:
  assumes "policy_step rt rt'" "governs rt r policy"
  shows "governs rt' r policy"
  using assms
proof (induction rule: policy_step.induct)
  case (configured rt q routes)
  then show ?case
    using bind_keeps [of rt r q policy]
    by (auto simp: configure_routes_def Let_def bind_all_distinct distinct_guards check_all_Inr governs_def split: sum.splits)
next
  case (bound rt q r')
  then show ?case
    using bind_keeps [of rt r q policy] by (auto simp: bind_runtime_def governs_def split: sum.splits)
next
  case (started rt r' resolved)
  then show ?case by (auto simp: policy_start_def or_default_def governs_def split: sum.splits)
qed

lemma governs_steps:
  assumes "policy_step\<^sup>*\<^sup>* rt rt'" "governs rt r policy"
  shows "governs rt' r policy"
  using assms by (induction rule: rtranclp_induct) (auto dest: governs_step)

lemma configured_governs:
  assumes "configure_routes rt policy routes = (rt', Inr ())" "r \<in> set routes"
  shows "governs rt' r policy"
proof -
  have "rt' r = policy_bind (rt r) policy"
    using assms by (auto simp: configure_routes_def Let_def bind_all_distinct distinct_guards split: sum.splits)
  then show ?thesis by (simp add: governs_def policy_bind_def)
qed

lemma bound_governs: "bind_runtime rt policy r = (rt', Inr ()) \<Longrightarrow> governs rt' r policy"
  by (auto simp: bind_runtime_def governs_def policy_bind_def split: sum.splits)

lemma generated_runtime:
  assumes "concat (map (into_route_listing expand) routes) \<noteq> []"
    and "l \<in> set (concat (map (into_route_listing expand) routes))" "nl_path l \<notin> set (case ex of None \<Rightarrow> [] | Some e \<Rightarrow> e)"
  shows "runtime \<in> set (runtimes_of shared own (Routes.generate_route_list expand default_mode runtime routes ex))"
proof -
  let ?l = "l\<lparr>nl_runtime := Generated runtime\<rparr>"
  have "?l \<in> set (Routes.generate_route_list expand default_mode runtime routes ex)"
    using assms by (cases ex) (auto simp: Routes.generate_route_list_def Let_def)
  then obtain i where "i < length (Routes.generate_route_list expand default_mode runtime routes ex)"
    "Routes.generate_route_list expand default_mode runtime routes ex ! i = ?l" by (auto simp: in_set_conv_nth)
  then have "(i, ?l) \<in> set (enumerate 0 (Routes.generate_route_list expand default_mode runtime routes ex))"
    by (auto simp: in_set_enumerate_eq)
  then show ?thesis unfolding runtimes_of_def by force
qed

lemma run_generator_started:
  assumes "policy_start (rt (sg_runtime g)) site_root = (st, Some policy)"
  shows "run_generator rt g site_root paths =
     (rt(sg_runtime g := st), Some policy,
      let outcomes = paths_of (map (paths (Some policy)) (sg_routes g));
          failures = concat (map (\<lambda>(p, r). case r of Inl e \<Rightarrow> [(p, e)] | Inr _ \<Rightarrow> []) outcomes);
          completed = length (filter (\<lambda>(_, r). ok r) outcomes)
      in if failures = [] then Inr completed else Inl \<lparr>ge_completed = completed, ge_failures = failures\<rparr>)"
proof -
  have "(case if b then Inr n else Inl (n, f) of
           Inl (completed, failures) \<Rightarrow> Inl \<lparr>ge_completed = completed, ge_failures = failures\<rparr>
         | Inr completed \<Rightarrow> Inr completed) =
        (if b then Inr n else Inl \<lparr>ge_completed = n, ge_failures = f\<rparr>)"
    for b :: bool and n :: nat and f :: "(string \<times> static_policy_error) list" by simp
  then show ?thesis using assms by (simp add: run_generator_def generation_report_exact Let_def)
qed

section \<open>Property\<close>

text \<open>C26: a policy bound to the listings of an application governs its generation. Once binding a policy to the runtimes
  behind a generated list, of which some page of the router has not been excluded, or to the generator that came with
  the list, has succeeded, then whatever other policies are bound and whatever is started on any runtime afterwards,
  a run of the generator into the policy's root runs under exactly this policy: its paths are rendered as those of
  a managed root, and its report counts the renders that succeeded under it and lists those that failed, in
  order.\<close>

theorem bound_policy_governs_generation:
  assumes "generate_route_list_with_exclusions_and_ssg_and_context expand default_mode runtime walk excluded additional = (listings, g)"
    and "(\<exists>l \<in> set (concat (map (into_route_listing expand) (sg_routes g))).
            nl_path l \<notin> set (case excluded of None \<Rightarrow> [] | Some e \<Rightarrow> e))
         \<and> configure_routes rt policy (runtimes_of shared own listings) = (rt1, Inr ())
       \<or> with_static_policy rt g policy = (rt1, Inr g)"
    and "policy_step\<^sup>*\<^sup>* rt1 rt2"
  shows "\<exists>rt3 report. run_generator rt2 g (Inr (pol_root policy)) paths = (rt3, Some policy, report)
     \<and> (let outcomes = concat (map (\<lambda>r. case paths (Some policy) r of Some ps \<Rightarrow> ps | None \<Rightarrow> []) (sg_routes g));
            failures = concat (map (\<lambda>(p, r). case r of Inl e \<Rightarrow> [(p, e)] | Inr _ \<Rightarrow> []) outcomes);
            completed = length (filter (\<lambda>(_, r). ok r) outcomes)
        in report = (if failures = [] then Inr completed else Inl \<lparr>ge_completed = completed, ge_failures = failures\<rparr>))"
proof -
  have g: "sg_runtime g = runtime" "listings = Routes.generate_route_list expand default_mode runtime (sg_routes g) excluded"
    using assms(1) by (auto simp: generate_route_list_with_exclusions_and_ssg_and_context_def Let_def)
  have "governs rt1 runtime policy"
    using assms(2)
  proof (elim disjE conjE)
    assume "\<exists>l \<in> set (concat (map (into_route_listing expand) (sg_routes g))).
            nl_path l \<notin> set (case excluded of None \<Rightarrow> [] | Some e \<Rightarrow> e)"
      and c: "configure_routes rt policy (runtimes_of shared own listings) = (rt1, Inr ())"
    then obtain l where l: "l \<in> set (concat (map (into_route_listing expand) (sg_routes g)))"
      "nl_path l \<notin> set (case excluded of None \<Rightarrow> [] | Some e \<Rightarrow> e)" by blast
    then have "concat (map (into_route_listing expand) (sg_routes g)) \<noteq> []" by (metis empty_iff list.set(1))
    from generated_runtime [OF this l] g c show ?thesis by (auto intro: configured_governs)
  next
    assume "with_static_policy rt g policy = (rt1, Inr g)"
    then show ?thesis
      by (auto simp: with_static_policy_def g(1) intro: bound_governs split: prod.splits sum.splits)
  qed
  from governs_steps [OF assms(3) this] obtain b where b: "rt2 runtime (pol_root policy) = Some b" "b_policy b = Some policy"
    by (auto simp: governs_def)
  then obtain st where start: "policy_start (rt2 (sg_runtime g)) (Inr (pol_root policy)) = (st, Some policy)"
    by (simp add: policy_start_def or_default_def g(1))
  from run_generator_started [where rt = rt2, OF start, where paths = paths] show ?thesis by (intro exI) (simp only: paths_of_def map_map comp_def Let_def)
qed

text \<open>An application with one static page, whose generator is bound, after which another policy is refused.\<close>

theorem bound_policy_governs_generation_witness:
  "\<exists>listings g rt1 rt2 rt3.
     generate_route_list_with_exclusions_and_ssg_and_context (\<lambda>p. [p]) OutOfOrder 4
        (\<lambda>_. Some [\<lparr>rl_path = [Static ''about''], rl_mode = Static_Mode, rl_methods = [RGet]\<rparr>]) (Some [''/'']) ([] :: unit list) = (listings, g)
     \<and> configure_routes (\<lambda>_. Map.empty) demo_policy (runtimes_of 0 (\<lambda>i. 9 + i) listings) = (rt1, Inr ())
     \<and> rt2 = fst (bind_runtime rt1 \<lparr>pol_id = 2, pol_root = [''srv'']\<rparr> 4)
     \<and> run_generator rt2 g (Inr [''srv'']) (\<lambda>_ _. Some [(''/about'', Inr ())]) = (rt3, Some demo_policy, Inr 1)"
proof -
  let ?walk = "\<lambda>_ :: unit context_value list. Some [\<lparr>rl_path = [Static ''about''], rl_mode = Static_Mode, rl_methods = [RGet]\<rparr>]"
  obtain listings g where g: "generate_route_list_with_exclusions_and_ssg_and_context (\<lambda>p. [p]) OutOfOrder 4 ?walk (Some [''/'']) [] = (listings, g)"
    by fastforce
  then have lg: "listings = [\<lparr>nl_path = ''/about'', nl_mode = Static_Mode, nl_methods = [RGet], nl_exclude = False, nl_runtime = Generated 4\<rparr>,
      \<lparr>nl_path = ''/'', nl_mode = OutOfOrder, nl_methods = [], nl_exclude = True, nl_runtime = Own\<rparr>]"
    "g = \<lparr>sg_routes = [\<lparr>rl_path = [Static ''about''], rl_mode = Static_Mode, rl_methods = [RGet]\<rparr>], sg_runtime = 4\<rparr>"
    by (auto simp: generate_route_list_with_exclusions_and_ssg_and_context_def Routes.generate_route_list_def into_route_listing_def
        to_ntex_path_def listing_new_def Let_def)
  obtain rt1 where c: "configure_routes (\<lambda>_. Map.empty) demo_policy (runtimes_of 0 (\<lambda>i. 9 + i) listings) = (rt1, Inr ())"
    by (simp add: lg runtimes_of_def configure_routes_def policy_check_def Let_def)
  define rt2 where "rt2 = fst (bind_runtime rt1 \<lparr>pol_id = 2, pol_root = [''srv'']\<rparr> 4)"
  have steps: "policy_step\<^sup>*\<^sup>* rt1 rt2" unfolding rt2_def by (rule r_into_rtranclp) (rule policy_step.bound)
  have page: "\<exists>l \<in> set (concat (map (into_route_listing (\<lambda>p. [p])) (sg_routes g))).
      nl_path l \<notin> set (case Some [''/''] of None \<Rightarrow> [] | Some e \<Rightarrow> e)"
    by (simp add: lg into_route_listing_def to_ntex_path_def listing_new_def Let_def)
  from bound_policy_governs_generation [OF g disjI1 [OF conjI [OF page c]] steps, where paths = "\<lambda>_ _. Some [(''/about'', Inr ())]"]
  obtain rt3 where "run_generator rt2 g (Inr [''srv'']) (\<lambda>_ _. Some [(''/about'', Inr ())]) = (rt3, Some demo_policy, Inr 1)"
    by (auto simp: lg demo_policy_def Let_def)
  with g c rt2_def show ?thesis by blast
qed

end
