(* ===== verification/Leases.thy ===== *)
theory Leases
  imports Fs_Boundary
begin

text \<open>
  Lock entries while the directory changes (\<open>Anchor\<close>, \<open>open_lock_entry\<close>, \<open>checked_lock_file\<close> and \<open>FileLock\<close> of
  \<^verbatim>\<open>src/fs_boundary.rs\<close>). \<open>Fs_Boundary\<close> takes one lock entry in a directory that stands still; here several openers,
  of any processes, make their system calls one by one, and between two calls anything may happen: other openers
  proceed, other programs rename, link and plant entries, and a fork leaves a child with copies of open files.

  A file is an inode, to which several names may lead; a lock belongs to an open file description, as that of
  \<^verbatim>\<open>flock\<close> does, and goes when it is unlocked or when the last descriptor is closed, a child's included.
\<close>

section \<open>The file system\<close>

datatype file_kind = Regular | Directory | Link | Device

record inode =
  in_kind :: file_kind
  in_links :: nat

text \<open>A name is a directory with an entry of it; \<open>ns_paths\<close> are the directories that ambient paths lead to.\<close>

type_synonym entry_key = "nat \<times> string"

record namespace =
  ns_paths :: "nat \<Rightarrow> nat option"
  ns_names :: "entry_key \<Rightarrow> nat option"
  ns_inodes :: "nat \<Rightarrow> inode option"

datatype anchor = Capability nat | Ambient nat

fun anchor_dir :: "namespace \<Rightarrow> anchor \<Rightarrow> nat option" where
  "anchor_dir ns (Capability d) = Some d"
| "anchor_dir ns (Ambient p) = ns_paths ns p"

text \<open>The entry itself: links are not followed.\<close>

definition anchor_lookup :: "namespace \<Rightarrow> anchor \<Rightarrow> string \<Rightarrow> io_error + (entry_key \<times> nat \<times> inode)" where
  "anchor_lookup ns a name =
     (case anchor_dir ns a of
        None \<Rightarrow> Inl (io_err NotFound [])
      | Some d \<Rightarrow>
          (case ns_names ns (d, name) of
             None \<Rightarrow> Inl (io_err NotFound [])
           | Some j \<Rightarrow>
               (case ns_inodes ns j of
                  None \<Rightarrow> Inl (io_err NotFound [])
                | Some ino \<Rightarrow> Inr ((d, name), j, ino))))"

definition anchor_is_regular :: "namespace \<Rightarrow> anchor \<Rightarrow> string \<Rightarrow> io_error + bool" where
  "anchor_is_regular ns a name = res_bind (anchor_lookup ns a name) (\<lambda>(k, j, ino). Inr (in_kind ino = Regular))"

text \<open>\<open>Anchor::open\<close> with the flags \<open>NOFOLLOW\<close>, which refuses a link, and \<open>NONBLOCK\<close>, with which the opening of a
  device or pipe returns. A new file is the unused inode \<open>j\<close>.\<close>

definition anchor_open ::
  "namespace \<Rightarrow> nat \<Rightarrow> anchor \<Rightarrow> string \<Rightarrow> bool \<Rightarrow> bool \<Rightarrow> io_error + (namespace \<times> entry_key \<times> nat)" where
  "anchor_open ns j a name write_access create_new =
     (if create_new then
        (case anchor_dir ns a of
           None \<Rightarrow> Inl (io_err NotFound [])
         | Some d \<Rightarrow>
             if ns_names ns (d, name) \<noteq> None then Inl (io_err AlreadyExists [])
             else Inr (ns\<lparr>ns_names := (ns_names ns)((d, name) \<mapsto> j),
                          ns_inodes := (ns_inodes ns)(j \<mapsto> \<lparr>in_kind = Regular, in_links = 1\<rparr>)\<rparr>, (d, name), j))
      else res_bind (anchor_lookup ns a name) (\<lambda>(k, j, ino).
        if in_kind ino = Link \<or> in_kind ino = Directory \<and> write_access then Inl (io_err OtherKind [])
        else Inr (ns, k, j)))"

section \<open>Openers\<close>

datatype lease_error = Entry lock_entry_error | Lease lock_error

text \<open>Where an opener is: before its creating open, its look at the entry, its second open; before the check of the
  open file, before the lock; then the guard \<open>FileLock\<close>, or the error. An open file is known by the name under which
  it was opened and by its description.\<close>

datatype lease_pc =
    Creating
  | Inspecting
  | Opening
  | Checking entry_key nat
  | Acquiring entry_key nat
  | Leased entry_key nat
  | Refused lease_error

record opener =
  op_anchor :: anchor
  op_name :: string
  op_create :: bool
  op_mode :: lock_mode
  op_wait :: bool
  op_pc :: lease_pc

definition opener_new :: "anchor \<Rightarrow> string \<Rightarrow> bool \<Rightarrow> lock_mode \<Rightarrow> bool \<Rightarrow> opener" where
  "opener_new a name create mode wait =
     \<lparr>op_anchor = a, op_name = name, op_create = create, op_mode = mode, op_wait = wait,
      op_pc = (if create then Creating else Inspecting)\<rparr>"

text \<open>\<open>ls_files\<close> are the inodes of the open file descriptions, \<open>ls_refs\<close> counts their descriptors, \<open>ls_locks\<close> are the
  locks with description and inode.\<close>

record leases =
  ls_ns :: namespace
  ls_files :: "nat \<Rightarrow> nat option"
  ls_refs :: "nat \<Rightarrow> nat"
  ls_locks :: "(nat \<times> nat \<times> lock_mode) list"
  ls_openers :: "nat \<Rightarrow> opener option"

definition close_file :: "nat \<Rightarrow> leases \<Rightarrow> leases" where
  "close_file f s =
     (if ls_refs s f \<le> 1
      then s\<lparr>ls_files := (ls_files s)(f := None), ls_refs := (ls_refs s)(f := 0),
             ls_locks := filter (\<lambda>(g, _). g \<noteq> f) (ls_locks s)\<rparr>
      else s\<lparr>ls_refs := (ls_refs s)(f := ls_refs s f - 1)\<rparr>)"

text \<open>Any call may fail.\<close>

definition faulty :: "io_error option \<Rightarrow> io_error + 'a \<Rightarrow> io_error + 'a" where
  "faulty fault r = (case fault of Some e \<Rightarrow> Inl e | None \<Rightarrow> r)"

definition opened :: "leases \<Rightarrow> opener \<Rightarrow> nat \<Rightarrow> namespace \<times> entry_key \<times> nat \<Rightarrow> leases \<times> opener" where
  "opened s q f = (\<lambda>(ns, k, j).
     (s\<lparr>ls_ns := ns, ls_files := (ls_files s)(f \<mapsto> j), ls_refs := (ls_refs s)(f := 1)\<rparr>, q\<lparr>op_pc := Checking k f\<rparr>))"

definition refused :: "opener \<Rightarrow> lease_error \<Rightarrow> opener" where
  "refused q e = q\<lparr>op_pc := Refused e\<rparr>"

text \<open>\<open>open_lock_entry\<close>: the three calls before the file is open, as description \<open>f\<close>.\<close>

definition create_call :: "io_error option \<Rightarrow> nat \<Rightarrow> nat \<Rightarrow> leases \<Rightarrow> opener \<Rightarrow> leases \<times> opener" where
  "create_call fault j f s q =
     (case faulty fault (anchor_open (ls_ns s) j (op_anchor q) (op_name q) True True) of
        Inr r \<Rightarrow> opened s q f r
      | Inl e \<Rightarrow>
          (s, if io_error_kind e = AlreadyExists then q\<lparr>op_pc := Inspecting\<rparr> else refused q (Entry (LockIo e))))"

definition inspect_call :: "io_error option \<Rightarrow> leases \<Rightarrow> opener \<Rightarrow> leases \<times> opener" where
  "inspect_call fault s q =
     (case faulty fault (anchor_is_regular (ls_ns s) (op_anchor q) (op_name q)) of
        Inl e \<Rightarrow> (s, refused q (Entry (LockIo e)))
      | Inr False \<Rightarrow> (s, refused q (Entry NotRegular))
      | Inr True \<Rightarrow> (s, q\<lparr>op_pc := Opening\<rparr>))"

definition open_call :: "io_error option \<Rightarrow> nat \<Rightarrow> leases \<Rightarrow> opener \<Rightarrow> leases \<times> opener" where
  "open_call fault f s q =
     (case faulty fault (anchor_open (ls_ns s) 0 (op_anchor q) (op_name q) (op_create q) False) of
        Inr r \<Rightarrow> opened s q f r
      | Inl e \<Rightarrow> (s, refused q (Entry (LockIo e))))"

text \<open>\<open>checked_lock_file\<close>: metadata of the open file, whatever its name now leads to. A refused file is closed.\<close>

definition checked_inode :: "inode \<Rightarrow> lock_entry_error + unit" where
  "checked_inode ino =
     (if in_kind ino \<noteq> Regular then Inl NotRegular else if in_links ino \<noteq> 1 then Inl Aliased else Inr ())"

definition check_call :: "io_error option \<Rightarrow> entry_key \<Rightarrow> nat \<Rightarrow> leases \<Rightarrow> opener \<Rightarrow> leases \<times> opener" where
  "check_call fault k f s q =
     (case faulty fault (ok_or (Option.bind (ls_files s f) (ns_inodes (ls_ns s))) (io_err OtherKind [])) of
        Inl e \<Rightarrow> (close_file f s, refused q (Entry (LockIo e)))
      | Inr ino \<Rightarrow>
          (case checked_inode ino of
             Inl e \<Rightarrow> (close_file f s, refused q (Entry e))
           | Inr _ \<Rightarrow> (s, q\<lparr>op_pc := Acquiring k f\<rparr>)))"

text \<open>\<open>FileLock::acquire\<close>: shared locks tolerate each other; a call that waits does not return before it can be served.\<close>

definition lock_free :: "leases \<Rightarrow> nat \<Rightarrow> lock_mode \<Rightarrow> bool" where
  "lock_free s j mode = list_all (\<lambda>(g, i, m). i = j \<longrightarrow> mode = Shared \<and> m = Shared) (ls_locks s)"

definition lock_outcome :: "io_error option \<Rightarrow> leases \<Rightarrow> nat \<Rightarrow> lock_call" where
  "lock_outcome fault s j mode wait =
     faulty fault (if lock_free s j mode then Inr () else Inl (io_err WouldBlock []))"

definition acquire_call :: "io_error option \<Rightarrow> entry_key \<Rightarrow> nat \<Rightarrow> leases \<Rightarrow> opener \<Rightarrow> leases \<times> opener" where
  "acquire_call fault k f s q =
     (case ls_files s f of
        None \<Rightarrow> (s, q)
      | Some j \<Rightarrow>
          if op_wait q \<and> fault = None \<and> \<not> lock_free s j (op_mode q) then (s, q)
          else (case file_lock_acquire (lock_outcome fault s j) (op_mode q) (op_wait q) of
                  Inr _ \<Rightarrow> (s\<lparr>ls_locks := (f, j, op_mode q) # ls_locks s\<rparr>, q\<lparr>op_pc := Leased k f\<rparr>)
                | Inl e \<Rightarrow> (close_file f s, refused q (Lease e))))"

definition opener_call :: "io_error option \<Rightarrow> nat \<Rightarrow> nat \<Rightarrow> leases \<Rightarrow> opener \<Rightarrow> leases \<times> opener" where
  "opener_call fault j f s q =
     (case op_pc q of
        Creating \<Rightarrow> create_call fault j f s q
      | Inspecting \<Rightarrow> inspect_call fault s q
      | Opening \<Rightarrow> open_call fault f s q
      | Checking k g \<Rightarrow> check_call fault k g s q
      | Acquiring k g \<Rightarrow> acquire_call fault k g s q
      | Leased k g \<Rightarrow> (s, q)
      | Refused e \<Rightarrow> (s, q))"

text \<open>\<open>FileLock::drop\<close>: unlock, then close.\<close>

definition unlock :: "nat \<Rightarrow> leases \<Rightarrow> leases" where
  "unlock f s = s\<lparr>ls_locks := filter (\<lambda>(g, _). g \<noteq> f) (ls_locks s)\<rparr>"

definition file_lock_drop :: "nat \<Rightarrow> leases \<Rightarrow> leases" where
  "file_lock_drop f s = close_file f (unlock f s)"

section \<open>Files that are served\<close>

text \<open>\<open>open_regular\<close>: opened for reading, without waiting for a writer of a pipe; how a path is resolved below an opened
  directory is the capability library's: \<open>resolve\<close> leads to an inode or fails.\<close>

definition open_regular :: "(namespace \<Rightarrow> 'p \<Rightarrow> io_error + nat) \<Rightarrow> namespace \<Rightarrow> 'p \<Rightarrow> io_error + nat" where
  "open_regular resolve ns path =
     res_bind (resolve ns path) (\<lambda>j.
     res_bind (ok_or (ns_inodes ns j) (io_err OtherKind [])) (\<lambda>ino.
       if in_kind ino \<noteq> Regular then Inl (io_err InvalidInput ''not a regular file'') else Inr j))"

text \<open>\<open>SiteRoot::open_file\<close>, when the file system changes between the direct attempt, the ambient canonicalization and
  the second open: the path that was canonicalized only proposes a name.\<close>

definition open_file_racing ::
  "(namespace \<Rightarrow> component list \<Rightarrow> io_error + string list) \<Rightarrow> (namespace \<Rightarrow> string list \<Rightarrow> io_error + nat) \<Rightarrow> string list \<Rightarrow>
   namespace \<Rightarrow> namespace \<Rightarrow> namespace \<Rightarrow> component list \<Rightarrow> io_error + nat" where
  "open_file_racing canon resolve site ns1 ns2 ns3 path =
     (let slow = res_bind (relative (canon ns2) site path False) (open_regular resolve ns3)
      in case strip_prefix (absolute site) path of
           None \<Rightarrow> slow
         | Some relp \<Rightarrow>
             if relp \<noteq> [] \<and> list_all is_plain relp then
               (case open_regular resolve ns1 (map component_name relp) of Inr f \<Rightarrow> Inr f | Inl _ \<Rightarrow> slow)
             else slow)"

lemma open_regular_Inr:
  "open_regular resolve ns path = Inr j \<longleftrightarrow>
     resolve ns path = Inr j \<and> (\<exists>ino. ns_inodes ns j = Some ino \<and> in_kind ino = Regular)"
  by (auto simp: open_regular_def res_bind_Inr_iff ok_or_Inr_iff)

text \<open>Whatever is swapped in between, what is opened is a regular file that the capability led to at that moment.\<close>

theorem open_file_swapped:
  assumes "open_file_racing canon resolve site ns1 ns2 ns3 path = Inr j"
  shows "\<exists>ns \<in> {ns1, ns3}. \<exists>relp ino. resolve ns relp = Inr j \<and> ns_inodes ns j = Some ino \<and> in_kind ino = Regular"
  using assms
  by (auto simp: open_file_racing_def Let_def res_bind_Inr_iff open_regular_Inr split: option.splits if_splits sum.splits)

text \<open>Without a change it is \<open>Fs_Boundary\<close>'s \<open>open_file\<close>.\<close>

theorem open_file_undisturbed:
  "open_file_racing canon resolve site ns ns ns path = open_file (canon ns) (open_regular resolve ns) site path"
  by (simp add: open_file_racing_def open_file_def)

section \<open>Interleaving\<close>

text \<open>Entries of one file have its link count in common: two names make it two at least.\<close>

definition ns_wf :: "namespace \<Rightarrow> bool" where
  "ns_wf ns \<longleftrightarrow> (\<forall>k j. ns_names ns k = Some j \<longrightarrow>
     (\<exists>ino. ns_inodes ns j = Some ino \<and> (\<forall>k'. ns_names ns k' = Some j \<and> k' \<noteq> k \<longrightarrow> 2 \<le> in_links ino)))"

text \<open>What other programs may do: anything, except to the entries \<open>own\<close>, which the program keeps for itself. The kind of a
  file does not change.\<close>

definition foreign_change :: "entry_key set \<Rightarrow> namespace \<Rightarrow> namespace \<Rightarrow> bool" where
  "foreign_change own ns ns' \<longleftrightarrow> ns_wf ns'
     \<and> (\<forall>k \<in> own. ns_names ns' k = ns_names ns k)
     \<and> (\<forall>j ino. ns_inodes ns j = Some ino \<longrightarrow> (\<exists>ino'. ns_inodes ns' j = Some ino' \<and> in_kind ino' = in_kind ino))"

fun pc_file :: "lease_pc \<Rightarrow> (entry_key \<times> nat) option" where
  "pc_file (Checking k f) = Some (k, f)"
| "pc_file (Acquiring k f) = Some (k, f)"
| "pc_file (Leased k f) = Some (k, f)"
| "pc_file _ = None"

text \<open>Whether an opener itself holds a descriptor; the others are those of forked children.\<close>

definition owned :: "leases \<Rightarrow> nat \<Rightarrow> bool" where
  "owned s f \<longleftrightarrow> (\<exists>p q k. ls_openers s p = Some q \<and> pc_file (op_pc q) = Some (k, f))"

definition set_opener :: "nat \<Rightarrow> opener option \<Rightarrow> leases \<Rightarrow> leases" where
  "set_opener p q s = s\<lparr>ls_openers := (ls_openers s)(p := q)\<rparr>"

inductive lease_step :: "entry_key set \<Rightarrow> leases \<Rightarrow> leases \<Rightarrow> bool" for own where
  began: "ls_openers s p = None \<Longrightarrow> lease_step own s (set_opener p (Some (opener_new a n create mode wait)) s)"
| called: "ls_openers s p = Some q \<Longrightarrow> ns_inodes (ls_ns s) j = None \<Longrightarrow> ls_refs s f = 0 \<Longrightarrow>
    opener_call fault j f s q = (s', q') \<Longrightarrow> lease_step own s (set_opener p (Some q') s')"
| dropped: "ls_openers s p = Some q \<Longrightarrow> op_pc q = Leased k f \<Longrightarrow> lease_step own s (set_opener p None (file_lock_drop f s))"
| answered: "ls_openers s p = Some q \<Longrightarrow> op_pc q = Refused e \<Longrightarrow> lease_step own s (set_opener p None s)"
| forked: "0 < ls_refs s f \<Longrightarrow> lease_step own s (s\<lparr>ls_refs := (ls_refs s)(f := Suc (ls_refs s f))\<rparr>)"
| executed: "(if owned s f then 1 else 0) < ls_refs s f \<Longrightarrow> lease_step own s (close_file f s)"
| changed: "foreign_change own (ls_ns s) ns \<Longrightarrow> lease_step own s (s\<lparr>ls_ns := ns\<rparr>)"

definition lease_start :: "namespace \<Rightarrow> leases" where
  "lease_start ns = \<lparr>ls_ns = ns, ls_files = (\<lambda>_. None), ls_refs = (\<lambda>_. 0), ls_locks = [], ls_openers = (\<lambda>_. None)\<rparr>"

inductive lease_reachable :: "entry_key set \<Rightarrow> leases \<Rightarrow> bool" for own where
  begin_with: "ns_wf ns \<Longrightarrow> lease_reachable own (lease_start ns)"
| step: "lease_reachable own s \<Longrightarrow> lease_step own s s' \<Longrightarrow> lease_reachable own s'"

section \<open>Invariant\<close>

fun pc_checked :: "lease_pc \<Rightarrow> bool" where
  "pc_checked (Acquiring k f) \<longleftrightarrow> True"
| "pc_checked (Leased k f) \<longleftrightarrow> True"
| "pc_checked _ \<longleftrightarrow> False"

text \<open>An open file: the reserved entry it was opened under still leads to it; once checked it is regular, and no other
  reserved entry leads to it.\<close>

definition file_ok :: "entry_key set \<Rightarrow> leases \<Rightarrow> bool \<Rightarrow> entry_key \<Rightarrow> nat \<Rightarrow> bool" where
  "file_ok own s is_checked k f \<longleftrightarrow> 0 < ls_refs s f \<and> (\<exists>j ino. ls_files s f = Some j \<and> ns_inodes (ls_ns s) j = Some ino
     \<and> (k \<in> own \<longrightarrow> ns_names (ls_ns s) k = Some j)
     \<and> (is_checked \<longrightarrow> in_kind ino = Regular \<and> (k \<in> own \<longrightarrow> (\<forall>k' \<in> own. ns_names (ls_ns s) k' = Some j \<longrightarrow> k' = k))))"

definition guards :: "leases \<Rightarrow> nat \<Rightarrow> nat \<Rightarrow> lock_mode \<Rightarrow> bool" where
  "guards s f j m \<longleftrightarrow> (\<exists>p q k. ls_openers s p = Some q \<and> op_pc q = Leased k f \<and> op_mode q = m \<and> ls_files s f = Some j)"

definition lease_ok :: "entry_key set \<Rightarrow> leases \<Rightarrow> bool" where
  "lease_ok own s \<longleftrightarrow> ns_wf (ls_ns s)
     \<and> (\<forall>p q k f. ls_openers s p = Some q \<and> pc_file (op_pc q) = Some (k, f) \<longrightarrow> file_ok own s (pc_checked (op_pc q)) k f)
     \<and> (\<forall>p q k f p' q' k'. ls_openers s p = Some q \<and> pc_file (op_pc q) = Some (k, f)
          \<and> ls_openers s p' = Some q' \<and> pc_file (op_pc q') = Some (k', f) \<longrightarrow> p' = p)
     \<and> (\<forall>f j m. (f, j, m) \<in> set (ls_locks s) \<longleftrightarrow> guards s f j m)
     \<and> (\<forall>f j m f' m'. (f, j, m) \<in> set (ls_locks s) \<and> (f', j, m') \<in> set (ls_locks s) \<and> f' \<noteq> f \<longrightarrow> m = Shared \<and> m' = Shared)"

lemma lease_okD:
  assumes "lease_ok own s"
  shows "ns_wf (ls_ns s)"
    and "ls_openers s p = Some q \<Longrightarrow> pc_file (op_pc q) = Some (k, f) \<Longrightarrow> file_ok own s (pc_checked (op_pc q)) k f"
    and "ls_openers s p = Some q \<Longrightarrow> pc_file (op_pc q) = Some (k, f) \<Longrightarrow>
      ls_openers s p' = Some q' \<Longrightarrow> pc_file (op_pc q') = Some (k', f) \<Longrightarrow> p' = p"
    and "(f, j, m) \<in> set (ls_locks s) \<longleftrightarrow> guards s f j m"
    and "(f, j, m) \<in> set (ls_locks s) \<Longrightarrow> (f', j, m') \<in> set (ls_locks s) \<Longrightarrow> f' \<noteq> f \<Longrightarrow> m = Shared \<and> m' = Shared"
  using assms unfolding lease_ok_def by blast+

lemma lease_okI:
  assumes "ns_wf (ls_ns s)"
    and "\<And>p q k f. ls_openers s p = Some q \<Longrightarrow> pc_file (op_pc q) = Some (k, f) \<Longrightarrow> file_ok own s (pc_checked (op_pc q)) k f"
    and "\<And>p q k f p' q' k'. ls_openers s p = Some q \<Longrightarrow> pc_file (op_pc q) = Some (k, f) \<Longrightarrow>
      ls_openers s p' = Some q' \<Longrightarrow> pc_file (op_pc q') = Some (k', f) \<Longrightarrow> p' = p"
    and "\<And>f j m. (f, j, m) \<in> set (ls_locks s) \<longleftrightarrow> guards s f j m"
    and "\<And>f j m f' m'. (f, j, m) \<in> set (ls_locks s) \<Longrightarrow> (f', j, m') \<in> set (ls_locks s) \<Longrightarrow> f' \<noteq> f \<Longrightarrow> m = Shared \<and> m' = Shared"
  shows "lease_ok own s"
  using assms unfolding lease_ok_def by (intro conjI allI impI) blast+

lemma set_opener_simps [simp]:
  "ls_ns (set_opener p x s) = ls_ns s" "ls_files (set_opener p x s) = ls_files s"
  "ls_refs (set_opener p x s) = ls_refs s" "ls_locks (set_opener p x s) = ls_locks s"
  "ls_openers (set_opener p x s) = (ls_openers s)(p := x)"
  by (simp_all add: set_opener_def)

lemma file_ok_set_opener [simp]: "file_ok own (set_opener p x s) = file_ok own s"
  by (simp add: file_ok_def fun_eq_iff)

lemma Leased_file: "op_pc q = Leased k f \<Longrightarrow> pc_file (op_pc q) = Some (k, f)"
  by simp

lemma guards_owned: "guards s f j m \<Longrightarrow> owned s f"
  unfolding guards_def owned_def by force

lemma owned_refs: "lease_ok own s \<Longrightarrow> owned s f \<Longrightarrow> 0 < ls_refs s f"
  unfolding owned_def using lease_okD(2) by (fastforce simp: file_ok_def)

lemma guards_set_opener:
  assumes "\<And>q k f. ls_openers s p = Some q \<Longrightarrow> op_pc q \<noteq> Leased k f"
  shows "guards (set_opener p x s) g i m \<longleftrightarrow>
     (\<exists>y k. x = Some y \<and> op_pc y = Leased k g \<and> op_mode y = m \<and> ls_files s g = Some i) \<or> guards s g i m"
proof -
  have "(\<exists>q k. (if r = p then x else ls_openers s r) = Some q \<and> op_pc q = Leased k g \<and> op_mode q = m \<and> ls_files s g = Some i) \<longleftrightarrow>
      (r = p \<and> (\<exists>y k. x = Some y \<and> op_pc y = Leased k g \<and> op_mode y = m \<and> ls_files s g = Some i))
      \<or> (\<exists>q k. ls_openers s r = Some q \<and> op_pc q = Leased k g \<and> op_mode q = m \<and> ls_files s g = Some i)" for r
  proof (cases "r = p")
    case True
    then have "\<not> (\<exists>q k. ls_openers s r = Some q \<and> op_pc q = Leased k g)" using assms by blast
    with True show ?thesis by auto
  qed simp
  then show ?thesis by (simp only: guards_def set_opener_simps fun_upd_apply) blast
qed

text \<open>A change after which every open file is one from before, and the locks are those of the guards that are left.\<close>

lemma lease_ok_transfer:
  assumes "lease_ok own s" "ns_wf (ls_ns t)"
    and held: "\<And>p q k f. ls_openers t p = Some q \<Longrightarrow> pc_file (op_pc q) = Some (k, f) \<Longrightarrow>
      ls_openers s p = Some q \<and> (file_ok own s (pc_checked (op_pc q)) k f \<longrightarrow> file_ok own t (pc_checked (op_pc q)) k f)"
    and locks: "\<And>f j m. (f, j, m) \<in> set (ls_locks t) \<longleftrightarrow> (f, j, m) \<in> set (ls_locks s) \<and> guards t f j m"
    and guard: "\<And>f j m. guards t f j m \<Longrightarrow> guards s f j m"
  shows "lease_ok own t"
proof (rule lease_okI)
  show "ns_wf (ls_ns t)" by (rule assms(2))
next
  fix p q k f
  assume "ls_openers t p = Some q" "pc_file (op_pc q) = Some (k, f)"
  with held lease_okD(2) [OF assms(1)] show "file_ok own t (pc_checked (op_pc q)) k f" by blast
next
  fix p q k f p' q' k'
  assume "ls_openers t p = Some q" "pc_file (op_pc q) = Some (k, f)" "ls_openers t p' = Some q'" "pc_file (op_pc q') = Some (k', f)"
  with held lease_okD(3) [OF assms(1)] show "p' = p" by blast
next
  fix f j m
  show "(f, j, m) \<in> set (ls_locks t) \<longleftrightarrow> guards t f j m"
    using locks guard lease_okD(4) [OF assms(1)] by blast
next
  fix f j m f' m'
  assume "(f, j, m) \<in> set (ls_locks t)" "(f', j, m') \<in> set (ls_locks t)" "f' \<noteq> f"
  with locks lease_okD(5) [OF assms(1)] show "m = Shared \<and> m' = Shared" by blast
qed

text \<open>An opener without an open file comes, goes or proceeds to where it has none.\<close>

lemma idle_ok:
  assumes "lease_ok own s" "\<And>q. ls_openers s p = Some q \<Longrightarrow> pc_file (op_pc q) = None" "\<And>q. x = Some q \<Longrightarrow> pc_file (op_pc q) = None"
  shows "lease_ok own (set_opener p x s)"
proof -
  have holds: "ls_openers s r = Some q \<and> r \<noteq> p"
    if "ls_openers (set_opener p x s) r = Some q" "pc_file (op_pc q) = Some y" for r q y
    using that assms(3) by (auto split: if_splits)
  have guard: "guards (set_opener p x s) f j m \<longleftrightarrow> guards s f j m" for f j m
    by (subst guards_set_opener) (use assms(2,3) in fastforce)+
  show ?thesis
  proof (rule lease_ok_transfer [OF assms(1)])
    fix r q k f
    assume "ls_openers (set_opener p x s) r = Some q" "pc_file (op_pc q) = Some (k, f)"
    with holds show "ls_openers s r = Some q \<and> (file_ok own s (pc_checked (op_pc q)) k f \<longrightarrow>
        file_ok own (set_opener p x s) (pc_checked (op_pc q)) k f)" by (metis file_ok_set_opener)
  qed (use lease_okD(1,4) [OF assms(1)] guard in simp_all)
qed

text \<open>The last descriptor of a file that no opener holds, or one of several.\<close>

lemma close_ok:
  assumes "lease_ok own s" "\<not> owned s f \<or> 1 < ls_refs s f"
  shows "lease_ok own (close_file f s)"
proof (cases "ls_refs s f \<le> 1")
  case True
  with assms(2) have idle: "\<not> owned s f" by simp
  then have unlocked: "(f, j, m) \<notin> set (ls_locks s)" for j m
    using guards_owned lease_okD(4) [OF assms(1)] by blast
  have held: "g \<noteq> f" if "ls_openers s p = Some q" "pc_file (op_pc q) = Some (k, g)" for p q k g
    using idle that unfolding owned_def by blast
  let ?t = "close_file f s"
  have t: "ls_ns ?t = ls_ns s" "ls_openers ?t = ls_openers s" "set (ls_locks ?t) = set (ls_locks s)"
    "ls_files ?t = (ls_files s)(f := None)" "ls_refs ?t = (ls_refs s)(f := 0)"
    using True unlocked by (auto simp: close_file_def)
  have guard: "guards ?t g j m \<longleftrightarrow> guards s g j m" for g j m
  proof (cases "g = f")
    case True
    moreover have "\<not> guards s f j m" using idle guards_owned by blast
    moreover have "\<not> guards ?t f j m" by (simp add: guards_def t)
    ultimately show ?thesis by simp
  qed (simp add: guards_def t)
  have ok: "file_ok own ?t c k g = file_ok own s c k g" if "g \<noteq> f" for c k g
    using that by (simp add: file_ok_def t)
  show ?thesis
  proof (rule lease_ok_transfer [OF assms(1)])
    fix p q k g
    assume "ls_openers ?t p = Some q" "pc_file (op_pc q) = Some (k, g)"
    with held ok t(2) show "ls_openers s p = Some q \<and> (file_ok own s (pc_checked (op_pc q)) k g \<longrightarrow>
        file_ok own ?t (pc_checked (op_pc q)) k g)" by metis
  qed (use lease_okD(1,4) [OF assms(1)] guard in \<open>simp_all add: t\<close>)
next
  case False
  then have "file_ok own (close_file f s) = file_ok own s" "guards (close_file f s) = guards s"
    by (auto simp: close_file_def file_ok_def guards_def fun_eq_iff)
  with False lease_okD(1,4) [OF assms(1)] show ?thesis
    by (intro lease_ok_transfer [OF assms(1)]) (auto simp: close_file_def)
qed

text \<open>A file that is given up.\<close>

lemma lease_release_ok:
  assumes "lease_ok own s" "ls_openers s p = Some q" "pc_file (op_pc q) = Some (k, f)" "\<And>q. x = Some q \<Longrightarrow> pc_file (op_pc q) = None"
  shows "lease_ok own (set_opener p x (file_lock_drop f s))"
proof -
  let ?t = "unlock f (set_opener p x s)"
  have t: "ls_ns ?t = ls_ns s" "ls_openers ?t = (ls_openers s)(p := x)" "ls_files ?t = ls_files s" "ls_refs ?t = ls_refs s"
    "set (ls_locks ?t) = {(g, l). (g, l) \<in> set (ls_locks s) \<and> g \<noteq> f}"
    by (auto simp: unlock_def)
  have ok: "file_ok own ?t = file_ok own s" by (simp add: file_ok_def fun_eq_iff t)
  have holds: "ls_openers s r = Some q' \<and> r \<noteq> p \<and> g \<noteq> f"
    if r: "ls_openers ?t r = Some q'" "pc_file (op_pc q') = Some (k', g)" for r q' k' g
  proof -
    have s: "ls_openers s r = Some q'" "r \<noteq> p" using r assms(4) by (auto simp: t(2) split: if_splits)
    with lease_okD(3) [OF assms(1-3) s(1)] r(2) show ?thesis by auto
  qed
  have guard: "guards ?t g j m \<longleftrightarrow> guards s g j m \<and> g \<noteq> f" for g j m
  proof
    assume "guards ?t g j m"
    then show "guards s g j m \<and> g \<noteq> f" unfolding guards_def using holds Leased_file t(3) by metis
  next
    assume "guards s g j m \<and> g \<noteq> f"
    then obtain r q' k' where r: "ls_openers s r = Some q'" "op_pc q' = Leased k' g" "op_mode q' = m" "ls_files s g = Some j" "g \<noteq> f"
      unfolding guards_def by blast
    with assms(2,3) have "r \<noteq> p" by auto
    with r show "guards ?t g j m" unfolding guards_def by (auto simp: t(2,3))
  qed
  have "lease_ok own ?t"
  proof (rule lease_ok_transfer [OF assms(1)])
    fix r q' k' g
    assume "ls_openers ?t r = Some q'" "pc_file (op_pc q') = Some (k', g)"
    with holds ok show "ls_openers s r = Some q' \<and> (file_ok own s (pc_checked (op_pc q')) k' g \<longrightarrow>
        file_ok own ?t (pc_checked (op_pc q')) k' g)" by metis
  qed (use lease_okD(1,4) [OF assms(1)] guard in \<open>simp_all add: t\<close>)
  moreover have "\<not> owned ?t f" unfolding owned_def using holds by blast
  ultimately have "lease_ok own (close_file f ?t)" by (rule close_ok [OF _ disjI1])
  moreover have "close_file f ?t = set_opener p x (file_lock_drop f s)"
    by (simp add: file_lock_drop_def close_file_def unlock_def set_opener_def)
  ultimately show ?thesis by simp
qed

lemma close_unlocked:
  assumes "lease_ok own s" "ls_openers s p = Some q" "pc_file (op_pc q) = Some (k, f)" "\<forall>k f. op_pc q \<noteq> Leased k f"
  shows "file_lock_drop f s = close_file f s"
proof -
  have "\<not> guards s f j m" for j m
    using lease_okD(3) [OF assms(1-3)] assms(2,4) Leased_file unfolding guards_def by (metis option.inject)
  then have "(g, j, m) \<in> set (ls_locks s) \<Longrightarrow> g \<noteq> f" for g j m using lease_okD(4) [OF assms(1)] by blast
  then have "filter (\<lambda>(g, _). g \<noteq> f) (ls_locks s) = ls_locks s" by (auto simp: filter_id_conv)
  then show ?thesis by (simp add: file_lock_drop_def unlock_def)
qed

text \<open>The directory changes: reserved entries stay, and none of them begins to lead to an existing file.\<close>

lemma namespace_ok:
  assumes "lease_ok own s" "ns_wf ns"
    and "\<And>k j. k \<in> own \<Longrightarrow> ns_names (ls_ns s) k = Some j \<Longrightarrow> ns_names ns k = Some j"
    and "\<And>k j. k \<in> own \<Longrightarrow> ns_names ns k = Some j \<Longrightarrow> ns_inodes (ls_ns s) j \<noteq> None \<Longrightarrow> ns_names (ls_ns s) k = Some j"
    and "\<And>j ino. ns_inodes (ls_ns s) j = Some ino \<Longrightarrow> \<exists>ino'. ns_inodes ns j = Some ino' \<and> in_kind ino' = in_kind ino"
  shows "lease_ok own (s\<lparr>ls_ns := ns\<rparr>)"
proof (rule lease_ok_transfer [OF assms(1)])
  fix p q k f
  assume "ls_openers (s\<lparr>ls_ns := ns\<rparr>) p = Some q"
  moreover have "file_ok own (s\<lparr>ls_ns := ns\<rparr>) c k f" if "file_ok own s c k f" for c
  proof -
    obtain j ino where j: "0 < ls_refs s f" "ls_files s f = Some j" "ns_inodes (ls_ns s) j = Some ino"
      "k \<in> own \<longrightarrow> ns_names (ls_ns s) k = Some j"
      "c \<longrightarrow> in_kind ino = Regular \<and> (k \<in> own \<longrightarrow> (\<forall>k' \<in> own. ns_names (ls_ns s) k' = Some j \<longrightarrow> k' = k))"
      using \<open>file_ok own s c k f\<close> unfolding file_ok_def by blast
    obtain ino' where "ns_inodes ns j = Some ino'" "in_kind ino' = in_kind ino" using assms(5) [OF j(3)] by blast
    moreover have "ns_names ns k = Some j" if "k \<in> own" using that j(4) assms(3) by simp
    moreover have "k' = k" if "c" "k \<in> own" "k' \<in> own" "ns_names ns k' = Some j" for k'
      using that j(5) assms(4) [OF that(3,4)] j(3) by simp
    moreover have "in_kind ino = Regular" if c using that j(5) by simp
    ultimately show ?thesis using j(1,2) by (simp add: file_ok_def)
  qed
  ultimately show "ls_openers s p = Some q \<and> (file_ok own s (pc_checked (op_pc q)) k f \<longrightarrow>
      file_ok own (s\<lparr>ls_ns := ns\<rparr>) (pc_checked (op_pc q)) k f)" by simp
qed (use assms(2) lease_okD(4) [OF assms(1)] in \<open>simp_all add: guards_def\<close>)

lemma foreign_ok:
  assumes "lease_ok own s" "foreign_change own (ls_ns s) ns"
  shows "lease_ok own (s\<lparr>ls_ns := ns\<rparr>)"
  using assms(2) by (intro namespace_ok [OF assms(1)]) (simp_all add: foreign_change_def)

text \<open>A file is opened.\<close>

lemma opened_ok:
  assumes "lease_ok own s" "ls_openers s p = Some q" "pc_file (op_pc q) = None" "ls_refs s f = 0"
    and "ns_inodes (ls_ns s) j \<noteq> None" "k \<in> own \<longrightarrow> ns_names (ls_ns s) k = Some j"
  shows "lease_ok own (set_opener p (Some (q\<lparr>op_pc := Checking k f\<rparr>)) (s\<lparr>ls_files := (ls_files s)(f \<mapsto> j), ls_refs := (ls_refs s)(f := 1)\<rparr>))"
    (is "lease_ok own ?t")
proof -
  have idle: "\<not> owned s f" using owned_refs [OF assms(1), of f] assms(4) by auto
  have held: "g \<noteq> f" if "ls_openers s r = Some q'" "pc_file (op_pc q') = Some (k', g)" for r q' k' g
    using idle that unfolding owned_def by blast
  have ok: "file_ok own ?t c k' g = file_ok own s c k' g" if "g \<noteq> f" for c k' g
    using that by (simp add: file_ok_def)
  have new: "file_ok own ?t False k f" using assms(5,6) by (auto simp: file_ok_def)
  have guard: "guards ?t g i m \<longleftrightarrow> guards s g i m" for g i m
  proof
    assume "guards ?t g i m"
    then obtain r q' k' where r: "ls_openers ?t r = Some q'" "op_pc q' = Leased k' g" "op_mode q' = m" "ls_files ?t g = Some i"
      unfolding guards_def by blast
    then have "r \<noteq> p" "ls_openers s r = Some q'" by (auto split: if_splits)
    with r held Leased_file show "guards s g i m" unfolding guards_def by fastforce
  next
    assume "guards s g i m"
    then obtain r q' k' where r: "ls_openers s r = Some q'" "op_pc q' = Leased k' g" "op_mode q' = m" "ls_files s g = Some i"
      unfolding guards_def by blast
    then have "r \<noteq> p" "g \<noteq> f" using assms(2,3) held [OF r(1) Leased_file [OF r(2)]] by auto
    with r show "guards ?t g i m" unfolding guards_def by auto
  qed
  show ?thesis
  proof (rule lease_okI)
    fix r q' k' g
    assume "ls_openers ?t r = Some q'" "pc_file (op_pc q') = Some (k', g)"
    then show "file_ok own ?t (pc_checked (op_pc q')) k' g"
      using new ok held lease_okD(2) [OF assms(1)] by (cases "r = p") auto
  next
    fix r q' k' g r' q'' k''
    assume "ls_openers ?t r = Some q'" "pc_file (op_pc q') = Some (k', g)" "ls_openers ?t r' = Some q''" "pc_file (op_pc q'') = Some (k'', g)"
    then show "r' = r"
    proof (cases "r = p"; cases "r' = p")
      assume n: "r \<noteq> p" "r' \<noteq> p" and h: "ls_openers ?t r = Some q'" "pc_file (op_pc q') = Some (k', g)"
        "ls_openers ?t r' = Some q''" "pc_file (op_pc q'') = Some (k'', g)"
      show "r' = r" by (rule lease_okD(3) [OF assms(1) _ h(2) _ h(4)]) (use n h in simp_all)
    qed (auto dest: held)
  qed (use lease_okD(1,4,5) [OF assms(1)] guard in simp_all)
qed

text \<open>An open file has been checked: it is regular and has one name.\<close>

lemma checked_ok:
  assumes "lease_ok own s" "ls_openers s p = Some q" "op_pc q = Checking k f"
    and "ls_files s f = Some j" "ns_inodes (ls_ns s) j = Some ino" "in_kind ino = Regular" "in_links ino = 1"
  shows "lease_ok own (set_opener p (Some (q\<lparr>op_pc := Acquiring k f\<rparr>)) s)"
    (is "lease_ok own ?t")
proof -
  have here: "file_ok own s False k f" using lease_okD(2) [OF assms(1,2), of k f] assms(3) by simp
  have sole: "k' = k" if "k \<in> own" "ns_names (ls_ns s) k' = Some j" for k'
  proof (rule ccontr)
    assume "k' \<noteq> k"
    moreover have "ns_names (ls_ns s) k = Some j" using here that(1) assms(4) by (simp add: file_ok_def)
    ultimately have "2 \<le> in_links ino"
      using that(2) lease_okD(1) [OF assms(1)] assms(5) unfolding ns_wf_def by (metis option.inject)
    with assms(7) show False by simp
  qed
  have new: "file_ok own s True k f" using here assms(4-6) sole unfolding file_ok_def by auto
  have guard: "guards ?t g i m \<longleftrightarrow> guards s g i m" for g i m
    by (subst guards_set_opener) (use assms(2,3) in auto)
  show ?thesis
  proof (rule lease_okI)
    fix r q' k' g
    assume "ls_openers ?t r = Some q'" "pc_file (op_pc q') = Some (k', g)"
    then show "file_ok own ?t (pc_checked (op_pc q')) k' g"
      using new lease_okD(2) [OF assms(1)] by (cases "r = p") auto
  next
    fix r q' k' g r' q'' k''
    assume h: "ls_openers ?t r = Some q'" "pc_file (op_pc q') = Some (k', g)" "ls_openers ?t r' = Some q''" "pc_file (op_pc q'') = Some (k'', g)"
    have old: "\<exists>y k. ls_openers s x = Some y \<and> pc_file (op_pc y) = Some (k, g)"
      if "ls_openers ?t x = Some z" "pc_file (op_pc z) = Some (l, g)" for x z l
      using that assms(2,3) by (cases "x = p") auto
    from old [OF h(1,2)] old [OF h(3,4)] lease_okD(3) [OF assms(1)] show "r' = r" by blast
  qed (use lease_okD(1,4,5) [OF assms(1)] guard in simp_all)
qed

text \<open>A lock is granted.\<close>

lemma leased_ok:
  assumes "lease_ok own s" "ls_openers s p = Some q" "op_pc q = Acquiring k f" "ls_files s f = Some j"
    and "lock_free s j (op_mode q)"
  shows "lease_ok own (set_opener p (Some (q\<lparr>op_pc := Leased k f\<rparr>)) (s\<lparr>ls_locks := (f, j, op_mode q) # ls_locks s\<rparr>))"
    (is "lease_ok own ?t")
proof -
  have here: "file_ok own s True k f" using lease_okD(2) [OF assms(1,2), of k f] assms(3) by simp
  have old: "\<exists>y k. ls_openers s x = Some y \<and> pc_file (op_pc y) = Some (k, g)"
    if "ls_openers ?t x = Some z" "pc_file (op_pc z) = Some (l, g)" for x z l g
    using that assms(2,3) by (cases "x = p") auto
  have same_files: "file_ok own (s\<lparr>ls_locks := l\<rparr>) = file_ok own s" for l by (simp add: file_ok_def fun_eq_iff)
  have same: "guards (s\<lparr>ls_locks := l\<rparr>) = guards s" for l by (simp add: guards_def fun_eq_iff)
  have guard: "guards ?t g i m \<longleftrightarrow> g = f \<and> i = j \<and> m = op_mode q \<or> guards s g i m" for g i m
    by (subst guards_set_opener) (use assms(2-4) same in auto)
  show ?thesis
  proof (rule lease_okI)
    fix r q' k' g
    assume "ls_openers ?t r = Some q'" "pc_file (op_pc q') = Some (k', g)"
    then show "file_ok own ?t (pc_checked (op_pc q')) k' g"
      using here lease_okD(2) [OF assms(1)] same_files by (cases "r = p") auto
  next
    fix r q' k' g r' q'' k''
    assume h: "ls_openers ?t r = Some q'" "pc_file (op_pc q') = Some (k', g)" "ls_openers ?t r' = Some q''" "pc_file (op_pc q'') = Some (k'', g)"
    from old [OF h(1,2)] old [OF h(3,4)] lease_okD(3) [OF assms(1)] show "r' = r" by blast
  next
    fix g i m
    show "(g, i, m) \<in> set (ls_locks ?t) \<longleftrightarrow> guards ?t g i m"
      unfolding guard using lease_okD(4) [OF assms(1), of g i m] by auto
  next
    fix g i m g' m'
    assume "(g, i, m) \<in> set (ls_locks ?t)" "(g', i, m') \<in> set (ls_locks ?t)" "g' \<noteq> g"
    with lease_okD(5) [OF assms(1)] assms(5) show "m = Shared \<and> m' = Shared"
      by (auto simp: lock_free_def list_all_iff)
  qed (use lease_okD(1) [OF assms(1)] in simp)
qed

section \<open>Every reachable state\<close>

lemma anchor_lookup_Inr:
  "anchor_lookup ns a name = Inr (k, j, ino) \<longleftrightarrow>
     (\<exists>d. anchor_dir ns a = Some d \<and> k = (d, name)) \<and> ns_names ns k = Some j \<and> ns_inodes ns j = Some ino"
  by (auto simp: anchor_lookup_def split: option.splits)

text \<open>An opening call: it creates a file under a free name, or finds one.\<close>

lemma anchor_open_Inr:
  assumes "anchor_open ns j a name write_access create_new = Inr (ns', k, i)"
  shows "(i = j \<and> ns_names ns k = None \<and> ns' = ns\<lparr>ns_names := (ns_names ns)(k \<mapsto> j),
            ns_inodes := (ns_inodes ns)(j \<mapsto> \<lparr>in_kind = Regular, in_links = 1\<rparr>)\<rparr>)
       \<or> (ns' = ns \<and> ns_names ns k = Some i \<and> ns_inodes ns i \<noteq> None)"
proof (cases create_new)
  case True
  with assms show ?thesis by (auto simp: anchor_open_def split: option.splits if_splits)
next
  case False
  with assms obtain ino where "anchor_lookup ns a name = Inr (k, i, ino)" "ns' = ns"
    by (auto simp: anchor_open_def res_bind_Inr_iff split: if_splits)
  then show ?thesis by (simp add: anchor_lookup_Inr)
qed

lemma created_ok:
  assumes "lease_ok own s" "ns_inodes (ls_ns s) j = None" "ns_names (ls_ns s) k = None"
  shows "lease_ok own (s\<lparr>ls_ns := (ls_ns s)\<lparr>ns_names := (ns_names (ls_ns s))(k \<mapsto> j),
      ns_inodes := (ns_inodes (ls_ns s))(j \<mapsto> \<lparr>in_kind = Regular, in_links = 1\<rparr>)\<rparr>\<rparr>)"
proof (rule namespace_ok [OF assms(1)])
  let ?ns = "(ls_ns s)\<lparr>ns_names := (ns_names (ls_ns s))(k \<mapsto> j),
      ns_inodes := (ns_inodes (ls_ns s))(j \<mapsto> \<lparr>in_kind = Regular, in_links = 1\<rparr>)\<rparr>"
  have bound: "ns_names (ls_ns s) k' \<noteq> Some j" for k'
  proof
    assume "ns_names (ls_ns s) k' = Some j"
    then have "ns_inodes (ls_ns s) j \<noteq> None" using lease_okD(1) [OF assms(1)] unfolding ns_wf_def by blast
    with assms(2) show False by simp
  qed
  show "ns_wf ?ns"
    unfolding ns_wf_def
  proof (intro allI impI)
    fix k1 i
    assume n: "ns_names ?ns k1 = Some i"
    show "\<exists>ino. ns_inodes ?ns i = Some ino \<and> (\<forall>k2. ns_names ?ns k2 = Some i \<and> k2 \<noteq> k1 \<longrightarrow> 2 \<le> in_links ino)"
    proof (cases "k1 = k")
      case True
      with n bound show ?thesis by auto
    next
      case False
      with n have o: "ns_names (ls_ns s) k1 = Some i" by simp
      with bound [of k1] have fresh: "i \<noteq> j" by auto
      from o obtain ino where "ns_inodes (ls_ns s) i = Some ino"
        "\<forall>k2. ns_names (ls_ns s) k2 = Some i \<and> k2 \<noteq> k1 \<longrightarrow> 2 \<le> in_links ino"
        using lease_okD(1) [OF assms(1)] unfolding ns_wf_def by blast
      with fresh show ?thesis by auto
    qed
  qed
qed (use assms(2,3) in \<open>auto split: if_splits\<close>)

lemma open_ok:
  assumes "lease_ok own s" "ls_openers s p = Some q" "pc_file (op_pc q) = None" "ls_refs s f = 0"
    and "ns_inodes (ls_ns s) j = None \<or> \<not> create_new"
    and "anchor_open (ls_ns s) j a name write_access create_new = Inr r" "opened s q f r = (s', q')"
  shows "lease_ok own (set_opener p (Some q') s')"
proof -
  obtain ns k i where r: "r = (ns, k, i)" by (cases r)
  let ?s = "s\<lparr>ls_ns := ns\<rparr>"
  have s': "set_opener p (Some q') s' = set_opener p (Some (q\<lparr>op_pc := Checking k f\<rparr>))
      (?s\<lparr>ls_files := (ls_files ?s)(f \<mapsto> i), ls_refs := (ls_refs ?s)(f := 1)\<rparr>)"
    using assms(7) by (auto simp: opened_def r set_opener_def)
  have "lease_ok own ?s \<and> ns_inodes (ls_ns ?s) i \<noteq> None \<and> ns_names (ls_ns ?s) k = Some i"
    using anchor_open_Inr [OF assms(6) [unfolded r]]
  proof (elim disjE conjE)
    assume n: "i = j" "ns_names (ls_ns s) k = None"
      "ns = (ls_ns s)\<lparr>ns_names := (ns_names (ls_ns s))(k \<mapsto> j), ns_inodes := (ns_inodes (ls_ns s))(j \<mapsto> \<lparr>in_kind = Regular, in_links = 1\<rparr>)\<rparr>"
    have "create_new" using assms(6) n(2) by (auto simp: r anchor_open_def res_bind_Inr_iff anchor_lookup_Inr split: if_splits)
    with assms(5) have "ns_inodes (ls_ns s) j = None" by simp
    from created_ok [OF assms(1) this n(2)] n show ?thesis by simp
  qed (use assms(1) in simp)
  then show ?thesis unfolding s' using assms(2-4) by (intro opened_ok) auto
qed

text \<open>A refusal closes the open file.\<close>

lemma refused_ok:
  assumes "lease_ok own s" "ls_openers s p = Some q" "pc_file (op_pc q) = Some (k, f)" "\<forall>k f. op_pc q \<noteq> Leased k f"
  shows "lease_ok own (set_opener p (Some (refused q e)) (close_file f s))"
  using lease_release_ok [OF assms(1-3), of "Some (refused q e)"] close_unlocked [OF assms] by (simp add: refused_def)

lemma call_ok:
  assumes "lease_ok own s" "ls_openers s p = Some q" "ns_inodes (ls_ns s) j = None" "ls_refs s f = 0"
    and "opener_call fault j f s q = (s', q')"
  shows "lease_ok own (set_opener p (Some q') s')"
proof (cases "op_pc q")
  case Creating
  then show ?thesis
    using assms open_ok [OF assms(1,2) _ assms(4) disjI1 [OF assms(3)], where create_new = True] idle_ok [OF assms(1), of p "Some q'"]
    by (auto simp: opener_call_def create_call_def faulty_def refused_def split: sum.splits option.splits if_splits)
next
  case Inspecting
  then show ?thesis
    using assms idle_ok [OF assms(1), of p "Some q'"]
    by (auto simp: opener_call_def inspect_call_def refused_def split: sum.splits bool.splits)
next
  case Opening
  then show ?thesis
    using assms open_ok [OF assms(1,2) _ assms(4), where j = 0 and create_new = False] idle_ok [OF assms(1), of p "Some q'"]
    by (auto simp: opener_call_def open_call_def faulty_def refused_def split: sum.splits option.splits)
next
  case (Checking k g)
  then have pc: "pc_file (op_pc q) = Some (k, g)" "\<forall>k f. op_pc q \<noteq> Leased k f" by simp_all
  show ?thesis
    using assms(5) refused_ok [OF assms(1,2) pc] checked_ok [OF assms(1,2) Checking]
    by (auto simp: opener_call_def Checking check_call_def faulty_def checked_inode_def ok_or_Inr_iff bind_eq_Some_conv
        split: sum.splits option.splits if_splits)
next
  case (Acquiring k g)
  then have pc: "pc_file (op_pc q) = Some (k, g)" "\<forall>k f. op_pc q \<noteq> Leased k f" by simp_all
  have same: "set_opener p (Some q) s = s" using assms(2) by (simp add: set_opener_def fun_upd_idem)
  show ?thesis
    using assms(1,5) refused_ok [OF assms(1,2) pc] leased_ok [OF assms(1,2) Acquiring] same
    by (auto simp: opener_call_def Acquiring acquire_call_def file_lock_acquire_def lock_outcome_def faulty_def
        split: sum.splits option.splits if_splits)
qed (use assms in \<open>simp_all add: opener_call_def set_opener_def fun_upd_idem\<close>)

lemma lease_step_ok:
  assumes "lease_step own s s'" "lease_ok own s"
  shows "lease_ok own s'"
  using assms
proof (induction rule: lease_step.induct)
  case (began s p a n create mode wait)
  then show ?case by (intro idle_ok) (auto simp: opener_new_def)
next
  case (called s p q j f fault s' q')
  show ?case by (rule call_ok [OF called.prems called.hyps])
next
  case (dropped s p q k f)
  then show ?case by (intro lease_release_ok) auto
next
  case (answered s p q e)
  then show ?case by (intro idle_ok) auto
next
  case (forked s f)
  show ?case
    by (rule lease_ok_transfer [OF forked.prems])
      (use lease_okD(1,4) [OF forked.prems] in \<open>auto simp: file_ok_def guards_def\<close>)
next
  case (executed s f)
  then show ?case by (intro close_ok) (auto split: if_splits)
next
  case (changed s ns)
  then show ?case by (intro foreign_ok)
qed

lemma lease_reachable_ok: "lease_reachable own s \<Longrightarrow> lease_ok own s"
proof (induction rule: lease_reachable.induct)
  case (begin_with ns)
  then show ?case by (intro lease_okI) (simp_all add: lease_start_def guards_def)
qed (rule lease_step_ok)

section \<open>Progress\<close>

text \<open>The calls that an opener has left: every call but one that waits for the lock brings it closer to its answer.\<close>

fun calls_left :: "lease_pc \<Rightarrow> nat" where
  "calls_left Creating = 5"
| "calls_left Inspecting = 4"
| "calls_left Opening = 3"
| "calls_left (Checking k f) = 2"
| "calls_left (Acquiring k f) = 1"
| "calls_left _ = 0"

lemma calls_progress:
  assumes "lease_ok own s" "ls_openers s p = Some q" "opener_call fault j f s q = (s', q')" "0 < calls_left (op_pc q)"
    and "\<forall>k g. op_pc q = Acquiring k g \<longrightarrow> \<not> op_wait q"
  shows "calls_left (op_pc q') < calls_left (op_pc q)"
proof (cases "op_pc q")
  case (Acquiring k g)
  with lease_okD(2) [OF assms(1,2)] obtain i where "ls_files s g = Some i" by (fastforce simp: file_ok_def)
  with Acquiring assms(3,5) show ?thesis
    by (auto simp: opener_call_def acquire_call_def refused_def split: sum.splits if_splits)
qed (use assms(3,4) in \<open>auto simp: opener_call_def create_call_def inspect_call_def open_call_def check_call_def opened_def refused_def
      split: sum.splits bool.splits if_splits prod.splits\<close>)

section \<open>Property\<close>

lemma acquire_exact:
  assumes "lease_ok own s" "ls_openers s p = Some q" "op_pc q = Acquiring k f" "ls_files s f = Some j"
  shows "lock_free s j (op_mode q) \<longleftrightarrow> \<not> (\<exists>p' q' k' g. ls_openers s p' = Some q' \<and> op_pc q' = Leased k' g
      \<and> ls_files s g = Some j \<and> (op_mode q = Exclusive \<or> op_mode q' = Exclusive))"
proof -
  have "(g, j, m) \<in> set (ls_locks s) \<longleftrightarrow> guards s g j m" for g m by (rule lease_okD(4) [OF assms(1)])
  moreover have "lock_free s j (op_mode q) \<longleftrightarrow> (\<forall>g m. (g, j, m) \<in> set (ls_locks s) \<longrightarrow> op_mode q = Shared \<and> m = Shared)"
    unfolding lock_free_def list_all_iff by fast
  ultimately have "lock_free s j (op_mode q) \<longleftrightarrow> (\<forall>g m. guards s g j m \<longrightarrow> op_mode q = Shared \<and> m = Shared)" by simp
  moreover have "m = Shared \<longleftrightarrow> m \<noteq> Exclusive" for m by (cases m) simp_all
  ultimately show ?thesis unfolding guards_def by blast
qed

text \<open>C15: a lock entry excludes by its name, for as long as its guard lives. Whatever other programs do to the directory
  between any two calls, short of touching the reserved entries themselves, and however many forked children keep
  copies of open files: two guards of reserved entries have the same file exactly if they have the same entry, that
  file is a regular one, and then both are shared; and an opener that asks for its lock is kept waiting, or told
  that it would block, exactly as long as a guard of its file lives that is incompatible, and otherwise has it at once.\<close>

theorem leases_exclude_by_name:
  assumes "lease_reachable own s"
  shows "(\<forall>p q k f p' q' k' f'. ls_openers s p = Some q \<and> op_pc q = Leased k f \<and> k \<in> own
            \<and> ls_openers s p' = Some q' \<and> op_pc q' = Leased k' f' \<and> k' \<in> own \<and> p' \<noteq> p \<longrightarrow>
            (ls_files s f' = ls_files s f \<longleftrightarrow> k' = k) \<and> (k' = k \<longrightarrow> op_mode q = Shared \<and> op_mode q' = Shared))
     \<and> (\<forall>p q k f. ls_openers s p = Some q \<and> op_pc q = Leased k f \<longrightarrow>
            (\<exists>j ino. ls_files s f = Some j \<and> ns_inodes (ls_ns s) j = Some ino \<and> in_kind ino = Regular))
     \<and> (\<forall>p q k f i g. ls_openers s p = Some q \<and> op_pc q = Acquiring k f \<longrightarrow>
            opener_call None i g s q =
              (if \<exists>p' q' k' f'. ls_openers s p' = Some q' \<and> op_pc q' = Leased k' f' \<and> ls_files s f' = ls_files s f
                    \<and> (op_mode q = Exclusive \<or> op_mode q' = Exclusive)
               then if op_wait q then (s, q) else (close_file f s, refused q (Lease LockWouldBlock))
               else (s\<lparr>ls_locks := (f, the (ls_files s f), op_mode q) # ls_locks s\<rparr>, q\<lparr>op_pc := Leased k f\<rparr>)))"
proof -
  note ok = lease_reachable_ok [OF assms]
  have opened_file: "\<exists>j ino. ls_files s f = Some j \<and> ns_inodes (ls_ns s) j = Some ino \<and> in_kind ino = Regular
      \<and> (k \<in> own \<longrightarrow> ns_names (ls_ns s) k = Some j \<and> (\<forall>k' \<in> own. ns_names (ls_ns s) k' = Some j \<longrightarrow> k' = k))"
    if "ls_openers s p = Some q" "pc_file (op_pc q) = Some (k, f)" "pc_checked (op_pc q)" for p q k f
    using lease_okD(2) [OF ok that(1,2)] that(3) by (auto simp: file_ok_def)
  show ?thesis
  proof (intro conjI allI impI; elim conjE)
    fix p q k f p' q' k' f'
    assume g: "ls_openers s p = Some q" "op_pc q = Leased k f" "k \<in> own" "ls_openers s p' = Some q'" "op_pc q' = Leased k' f'" "k' \<in> own"
      "p' \<noteq> p"
    obtain j where j: "ls_files s f = Some j" "ns_names (ls_ns s) k = Some j" using opened_file [OF g(1)] g(2,3) by auto
    obtain j' where j': "ls_files s f' = Some j'" "ns_names (ls_ns s) k' = Some j'" "\<forall>l \<in> own. ns_names (ls_ns s) l = Some j' \<longrightarrow> l = k'"
      using opened_file [OF g(4)] g(5,6) by auto
    show same: "ls_files s f' = ls_files s f \<longleftrightarrow> k' = k" using j j' g(3) by auto
    have "f' \<noteq> f" using lease_okD(3) [OF ok g(1) _ g(4)] g(2,5,7) by auto
    moreover have "guards s f j (op_mode q)" "guards s f' j' (op_mode q')" using g j(1) j'(1) unfolding guards_def by blast+
    moreover have "j' = j" if "k' = k" using that j(2) j'(2) by simp
    ultimately show "op_mode q = Shared" "op_mode q' = Shared" if "k' = k"
      using that lease_okD(4,5) [OF ok] by blast+
  next
    fix p q k f
    assume "ls_openers s p = Some q" "op_pc q = Leased k f"
    with opened_file [of p q k f] show "\<exists>j ino. ls_files s f = Some j \<and> ns_inodes (ls_ns s) j = Some ino \<and> in_kind ino = Regular" by auto
  next
    fix p q k f i g
    assume q: "ls_openers s p = Some q" "op_pc q = Acquiring k f"
    with opened_file [of p q k f] obtain j where j: "ls_files s f = Some j" by auto
    let ?c = "\<exists>p' q' k' f'. ls_openers s p' = Some q' \<and> op_pc q' = Leased k' f' \<and> ls_files s f' = ls_files s f
        \<and> (op_mode q = Exclusive \<or> op_mode q' = Exclusive)"
    have free: "lock_free s j (op_mode q) \<longleftrightarrow> \<not> ?c" using acquire_exact [OF ok q j] by (simp only: j)
    have "opener_call None i g s q = (if \<not> lock_free s j (op_mode q)
        then if op_wait q then (s, q) else (close_file f s, refused q (Lease LockWouldBlock))
        else (s\<lparr>ls_locks := (f, the (ls_files s f), op_mode q) # ls_locks s\<rparr>, q\<lparr>op_pc := Leased k f\<rparr>))"
      by (simp add: opener_call_def q(2) acquire_call_def j file_lock_acquire_def lock_outcome_def faulty_def io_err_def)
    then show "opener_call None i g s q = (if ?c then if op_wait q then (s, q) else (close_file f s, refused q (Lease LockWouldBlock))
        else (s\<lparr>ls_locks := (f, the (ls_files s f), op_mode q) # ls_locks s\<rparr>, q\<lparr>op_pc := Leased k f\<rparr>))"
      unfolding free not_not .
  qed
qed

text \<open>Two publishers want the lock of one page. A child that was forked meanwhile still has the first one's file open
  when that drops its guard; the second one, which has been waiting, has the lock then.\<close>

definition call_of :: "nat \<Rightarrow> nat \<Rightarrow> nat \<Rightarrow> leases \<Rightarrow> leases" where
  "call_of p j f s = (case opener_call None j f s (the (ls_openers s p)) of (s', q') \<Rightarrow> set_opener p (Some q') s')"

lemma call_of_reachable:
  "lease_reachable own s \<Longrightarrow> ls_openers s p \<noteq> None \<Longrightarrow> ns_inodes (ls_ns s) j = None \<Longrightarrow> ls_refs s f = 0 \<Longrightarrow>
   lease_reachable own (call_of p j f s)"
  by (auto simp: call_of_def split: prod.split intro: lease_reachable.step [OF _ lease_step.called])

definition lock_opener :: opener where
  "lock_opener = opener_new (Capability 0) ''lock'' True Exclusive True"

definition first_lease :: leases where
  "first_lease = call_of 0 9 9 (call_of 0 9 9 (call_of 0 5 1 (set_opener 0 (Some lock_opener)
     (lease_start \<lparr>ns_paths = (\<lambda>_. None), ns_names = (\<lambda>_. None), ns_inodes = (\<lambda>_. None)\<rparr>))))"

lemma first_lease_eq:
  "first_lease = \<lparr>ls_ns = \<lparr>ns_paths = (\<lambda>_. None), ns_names = [(0, ''lock'') \<mapsto> 5], ns_inodes = [5 \<mapsto> \<lparr>in_kind = Regular, in_links = 1\<rparr>]\<rparr>,
     ls_files = [1 \<mapsto> 5], ls_refs = (\<lambda>_. 0)(1 := 1), ls_locks = [(1, 5, Exclusive)],
     ls_openers = [0 \<mapsto> lock_opener\<lparr>op_pc := Leased (0, ''lock'') 1\<rparr>]\<rparr>"
  by (simp add: first_lease_def lease_start_def set_opener_def call_of_def opener_call_def create_call_def faulty_def
      anchor_open_def opened_def check_call_def checked_inode_def ok_or_def acquire_call_def lock_free_def
      file_lock_acquire_def lock_outcome_def lock_opener_def opener_new_def)

lemma first_lease_reachable: "lease_reachable {(0, ''lock'')} first_lease"
proof -
  let ?ns = "\<lparr>ns_paths = (\<lambda>_. None), ns_names = (\<lambda>_. None), ns_inodes = (\<lambda>_. None)\<rparr>"
  have "lease_reachable {(0, ''lock'')} (lease_start ?ns)" by (rule begin_with) (simp add: ns_wf_def)
  then have "lease_reachable {(0, ''lock'')} (set_opener 0 (Some lock_opener) (lease_start ?ns))"
    unfolding lock_opener_def by (rule lease_reachable.step [OF _ lease_step.began]) (simp add: lease_start_def)
  then show ?thesis
    unfolding first_lease_def
    by (intro call_of_reachable)
      (simp_all add: lease_start_def call_of_def opener_call_def create_call_def faulty_def
        anchor_open_def opened_def check_call_def checked_inode_def ok_or_def lock_opener_def opener_new_def)
qed

definition second_waits :: leases where
  "second_waits = call_of 1 9 9 (call_of 1 9 2 (call_of 1 9 9 (call_of 1 9 9 (set_opener 1 (Some lock_opener)
     (first_lease\<lparr>ls_refs := (ls_refs first_lease)(1 := 2)\<rparr>)))))"

lemma second_waits_eq:
  "second_waits = first_lease\<lparr>ls_files := [1 \<mapsto> 5, 2 \<mapsto> 5], ls_refs := (\<lambda>_. 0)(1 := 2, 2 := 1),
     ls_openers := [0 \<mapsto> lock_opener\<lparr>op_pc := Leased (0, ''lock'') 1\<rparr>, 1 \<mapsto> lock_opener\<lparr>op_pc := Acquiring (0, ''lock'') 2\<rparr>]\<rparr>"
  by (simp add: second_waits_def first_lease_eq set_opener_def call_of_def opener_call_def create_call_def inspect_call_def open_call_def
      faulty_def anchor_open_def anchor_is_regular_def anchor_lookup_def opened_def check_call_def checked_inode_def ok_or_def
      io_err_def lock_opener_def opener_new_def)

lemma second_waits_reachable: "lease_reachable {(0, ''lock'')} second_waits"
proof -
  let ?s = "first_lease\<lparr>ls_refs := (ls_refs first_lease)(1 := Suc (ls_refs first_lease 1))\<rparr>"
  have "lease_reachable {(0, ''lock'')} ?s"
    by (rule lease_reachable.step [OF first_lease_reachable lease_step.forked]) (simp add: first_lease_eq)
  then have "lease_reachable {(0, ''lock'')} (first_lease\<lparr>ls_refs := (ls_refs first_lease)(1 := 2)\<rparr>)"
    by (simp add: first_lease_eq numeral_2_eq_2)
  then have "lease_reachable {(0, ''lock'')} (set_opener 1 (Some lock_opener) (first_lease\<lparr>ls_refs := (ls_refs first_lease)(1 := 2)\<rparr>))"
    unfolding lock_opener_def by (rule lease_reachable.step [OF _ lease_step.began]) (simp add: first_lease_eq)
  then show ?thesis
    unfolding second_waits_def
    by (intro call_of_reachable)
      (simp_all add: first_lease_eq set_opener_def call_of_def opener_call_def create_call_def inspect_call_def open_call_def
      faulty_def anchor_open_def anchor_is_regular_def anchor_lookup_def opened_def check_call_def checked_inode_def ok_or_def
      io_err_def lock_opener_def opener_new_def)
qed

theorem leases_exclude_by_name_witness:
  "\<exists>s q s'. lease_reachable {(0, ''lock'')} s \<and> ls_openers s 1 = Some q \<and> opener_call None 9 9 s q = (s, q)
     \<and> s' = set_opener 0 None (file_lock_drop 1 s) \<and> ls_refs s' 1 = 1
     \<and> op_pc (snd (opener_call None 9 9 s' q)) = Leased (0, ''lock'') 2"
proof -
  let ?q = "lock_opener\<lparr>op_pc := Acquiring (0, ''lock'') 2\<rparr>"
  let ?t = "set_opener 0 None (file_lock_drop 1 second_waits)"
  have q: "ls_openers second_waits 1 = Some ?q" "op_pc ?q = Acquiring (0, ''lock'') 2" "op_wait ?q"
    by (simp_all add: second_waits_eq lock_opener_def opener_new_def)
  have g: "ls_openers second_waits 0 = Some (lock_opener\<lparr>op_pc := Leased (0, ''lock'') 1\<rparr>)" "op_mode ?q = Exclusive"
    "ls_files second_waits 1 = ls_files second_waits 2"
    by (simp_all add: second_waits_eq lock_opener_def opener_new_def)
  have "opener_call None 9 9 second_waits ?q = (second_waits, ?q)"
    using conjunct2 [OF conjunct2 [OF leases_exclude_by_name [OF second_waits_reachable]], rule_format, OF conjI [OF q(1,2)]]
      q(3) g by (subst (asm) if_P) (force, simp)
  moreover have "ls_refs ?t 1 = 1 \<and> op_pc (snd (opener_call None 9 9 ?t ?q)) = Leased (0, ''lock'') 2"
    by (simp add: second_waits_eq first_lease_eq file_lock_drop_def unlock_def close_file_def opener_call_def acquire_call_def lock_free_def
        file_lock_acquire_def lock_outcome_def faulty_def lock_opener_def opener_new_def)
  ultimately show ?thesis using second_waits_reachable q(1) by blast
qed

end
