(* ===== verification/Lock_Refinement.thy ===== *)
theory Lock_Refinement
  imports Leases
begin

text \<open>
  The two models of lock entries agree: \<open>Leases\<close> opens them call by call while the directory may change,
  \<open>Fs_Boundary\<close> in one piece. When nothing changes in between, the calls implement the function.
\<close>

section \<open>Openers that nothing disturbs\<close>

text \<open>What an opener comes to when nothing happens between its calls, before it asks for the lock.\<close>

primrec open_alone :: "nat \<Rightarrow> nat \<Rightarrow> nat \<Rightarrow> leases \<Rightarrow> opener \<Rightarrow> leases \<times> opener" where
  "open_alone 0 j f s q = (s, q)"
| "open_alone (Suc n) j f s q =
     (if calls_left (op_pc q) \<le> 1 then (s, q)
      else case opener_call None j f s q of (s', q') \<Rightarrow> open_alone n j f s' q')"

text \<open>A directory as \<open>Fs_Boundary\<close> sees it, with every entry's metadata readable.\<close>

fun entry_node :: "inode \<Rightarrow> node \<Rightarrow> bool" where
  "entry_node ino (Reg l c) \<longleftrightarrow> in_kind ino = Regular \<and> in_links ino = l"
| "entry_node ino Sym \<longleftrightarrow> in_kind ino = Link"
| "entry_node ino Special \<longleftrightarrow> in_kind ino = Device"
| "entry_node ino (Dir ds) \<longleftrightarrow> in_kind ino = Directory"
| "entry_node ino (Sealed e) \<longleftrightarrow> in_kind ino = Directory"
| "entry_node ino (Faulty e) \<longleftrightarrow> False"

definition shows_dir :: "namespace \<Rightarrow> nat \<Rightarrow> entries \<Rightarrow> bool" where
  "shows_dir ns d es \<longleftrightarrow> (\<forall>n. case map_of es n of
       None \<Rightarrow> ns_names ns (d, n) = None
     | Some nd \<Rightarrow> \<exists>j ino. ns_names ns (d, n) = Some j \<and> ns_inodes ns j = Some ino \<and> entry_node ino nd)"

lemma shows_dir_None: "shows_dir ns d es \<Longrightarrow> map_of es n = None \<Longrightarrow> ns_names ns (d, n) = None"
  unfolding shows_dir_def by (drule spec [of _ n]) simp

lemma shows_dir_Some:
  "shows_dir ns d es \<Longrightarrow> map_of es n = Some nd \<Longrightarrow>
   \<exists>j ino. ns_names ns (d, n) = Some j \<and> ns_inodes ns j = Some ino \<and> entry_node ino nd"
  unfolding shows_dir_def by (drule spec [of _ n]) simp

lemma shows_dir_created:
  assumes "shows_dir ns d es" "ns_inodes ns j = None" "map_of es n = None"
  shows "shows_dir (ns\<lparr>ns_names := (ns_names ns)((d, n) \<mapsto> j),
      ns_inodes := (ns_inodes ns)(j \<mapsto> \<lparr>in_kind = Regular, in_links = 1\<rparr>)\<rparr>) d (es @ [(n, Reg 1 [])])"
  unfolding shows_dir_def
proof
  fix m
  show "case map_of (es @ [(n, Reg 1 [])]) m of
       None \<Rightarrow> ns_names (ns\<lparr>ns_names := (ns_names ns)((d, n) \<mapsto> j), ns_inodes := (ns_inodes ns)(j \<mapsto> \<lparr>in_kind = Regular, in_links = 1\<rparr>)\<rparr>) (d, m) = None
     | Some nd \<Rightarrow> \<exists>i ino. ns_names (ns\<lparr>ns_names := (ns_names ns)((d, n) \<mapsto> j), ns_inodes := (ns_inodes ns)(j \<mapsto> \<lparr>in_kind = Regular, in_links = 1\<rparr>)\<rparr>) (d, m) = Some i
         \<and> ns_inodes (ns\<lparr>ns_names := (ns_names ns)((d, n) \<mapsto> j), ns_inodes := (ns_inodes ns)(j \<mapsto> \<lparr>in_kind = Regular, in_links = 1\<rparr>)\<rparr>) i = Some ino
         \<and> entry_node ino nd"
  proof (cases "m = n")
    case True
    with assms(3) show ?thesis by (simp add: map_add_def)
  next
    case False
    show ?thesis
    proof (cases "map_of es m")
      case None
      with shows_dir_None [OF assms(1) None] False show ?thesis by (simp add: map_add_def)
    next
      case (Some nd)
      obtain i ino where i: "ns_names ns (d, m) = Some i" "ns_inodes ns i = Some ino" "entry_node ino nd"
        using shows_dir_Some [OF assms(1) Some] by blast
      with assms(2) have "i \<noteq> j" by auto
      with i Some False show ?thesis by (simp add: map_add_def)
    qed
  qed
qed

lemma close_opened:
  assumes "ls_refs s f = 0"
  shows "ls_ns (close_file f (s\<lparr>ls_ns := ns, ls_files := (ls_files s)(f \<mapsto> j), ls_refs := (ls_refs s)(f := 1)\<rparr>)) = ns"
    and "ls_refs (close_file f (s\<lparr>ls_ns := ns, ls_files := (ls_files s)(f \<mapsto> j), ls_refs := (ls_refs s)(f := 1)\<rparr>)) = ls_refs s"
  using assms by (simp_all add: close_file_def fun_eq_iff)

text \<open>C28: the calls of an opener that nothing disturbs implement \<open>open_lock_entry\<close> as \<open>Fs_Boundary\<close> has it. In a
  directory that shows the given entries, they end with the file open and checked, in a directory that shows what
  that function leaves, exactly when it opens the entry; otherwise they end with its error, an unchanged
  directory, and no open file left behind.\<close>

theorem undisturbed_opener_refines:
  assumes "shows_dir (ls_ns s) d es" "anchor_dir (ls_ns s) a = Some d"
    and "ns_inodes (ls_ns s) j = None" "ls_refs s f = 0"
    and "open_alone 4 j f s (opener_new a name create mode wait) = (s', q)"
  shows "case open_lock_entry es name create of
       Inl e \<Rightarrow> op_pc q = Refused (Entry e) \<and> ls_ns s' = ls_ns s \<and> ls_refs s' = ls_refs s
     | Inr (c, es') \<Rightarrow> op_pc q = Acquiring (d, name) f \<and> shows_dir (ls_ns s') d es'"
proof (cases "map_of es name")
  case None
  note n = shows_dir_None [OF assms(1) None]
  show ?thesis
    using assms(2-5) None n shows_dir_created [OF assms(1,3) None]
    by (cases create)
      (auto simp: eval_nat_numeral opener_new_def opener_call_def create_call_def inspect_call_def faulty_def anchor_open_def
        anchor_is_regular_def anchor_lookup_def opened_def check_call_def checked_inode_def ok_or_def refused_def
        open_lock_entry_def is_regular_entry_def)
next
  case (Some nd)
  obtain i ino where i: "ns_names (ls_ns s) (d, name) = Some i" "ns_inodes (ls_ns s) i = Some ino" "entry_node ino nd"
    using shows_dir_Some [OF assms(1) Some] by blast
  have look: "anchor_lookup (ls_ns s) a name = Inr ((d, name), i, ino)" using assms(2) i by (simp add: anchor_lookup_def)
  show ?thesis
  proof (cases nd)
    case (Reg l c)
    with i(3) have "in_kind ino = Regular" "in_links ino = l" by simp_all
    then show ?thesis
      using assms(1,2,4,5) Some Reg look i close_opened [OF assms(4), where ns = "ls_ns s" and j = i]
      by (cases create; cases "l = 1")
        (auto simp: eval_nat_numeral opener_new_def opener_call_def create_call_def inspect_call_def open_call_def faulty_def
          anchor_open_def anchor_is_regular_def opened_def check_call_def checked_inode_def ok_or_def refused_def
          open_lock_entry_def is_regular_entry_def io_err_def)
  qed (use assms(2,5) Some look i in \<open>cases create;
        auto simp: eval_nat_numeral opener_new_def opener_call_def create_call_def inspect_call_def faulty_def
          anchor_open_def anchor_is_regular_def refused_def open_lock_entry_def is_regular_entry_def io_err_def\<close>)+
qed

text \<open>A link is planted under the name of the lock.\<close>

definition planted_link :: leases where
  "planted_link = lease_start \<lparr>ns_paths = (\<lambda>_. None), ns_names = [(0, ''lock'') \<mapsto> 5], ns_inodes = [5 \<mapsto> \<lparr>in_kind = Link, in_links = 1\<rparr>]\<rparr>"

theorem undisturbed_opener_refines_witness:
  "\<exists>s q. open_alone 4 6 1 planted_link lock_opener = (s, q) \<and> op_pc q = Refused (Entry NotRegular)
     \<and> ls_refs s = ls_refs planted_link"
proof -
  obtain s q where r: "open_alone 4 6 1 planted_link lock_opener = (s, q)" by fastforce
  have "shows_dir (ls_ns planted_link) 0 [(''lock'', Sym)]" "anchor_dir (ls_ns planted_link) (Capability 0) = Some 0"
    "ns_inodes (ls_ns planted_link) 6 = None" "ls_refs planted_link 1 = 0"
    by (simp_all add: shows_dir_def planted_link_def lease_start_def)
  from undisturbed_opener_refines [OF this r [unfolded lock_opener_def]] r show ?thesis
    by (auto simp: open_lock_entry_def is_regular_entry_def)
qed

end
