(* ===== verification/Page_Store.thy ===== *)
theory Page_Store
  imports Staging Serving
begin

text \<open>
  A page and its readers across publications: \<open>write_static_route_managed\<close> once admitted, and
  \<open>read_paired_static_file\<close> (\<^verbatim>\<open>src/static_routes.rs\<close>), on the directory of the page. \<open>Staging\<close> follows the system calls of
  one publication, \<open>Snapshot\<close> what its metadata say, \<open>Serving\<close> the branches of the lookup, \<open>Publication\<close> the
  interleaving of readers and publishers; here they are put together, for readers that come between publications.

  Where a symbolic link leads is the operating system's: \<open>rd_links\<close> is the file behind a link in the place of the page
  or of its metadata, the other two fields tell of a link in the place of the metadata directory. \<open>rd_identity\<close> is
  the identity that the system reports for a file.
\<close>

section \<open>Reading\<close>

record reading =
  rd_links :: "string list \<Rightarrow> io_error + opened_file"
  rd_linked :: "string \<Rightarrow> bool"
  rd_target :: "io_error + entry_type"
  rd_identity :: "string list \<Rightarrow> bytes \<Rightarrow> io_error + file_identity"

definition not_regular :: io_error where
  "not_regular = io_err InvalidInput ''not a regular file''"

text \<open>\<open>open_regular\<close>, for an entry that has been found.\<close>

fun open_node :: "reading \<Rightarrow> string list \<Rightarrow> node option \<Rightarrow> io_error + opened_file" where
  "open_node rd path None = Inl (io_err NotFound [])"
| "open_node rd path (Some (Reg links contents)) = Inr \<lparr>of_identity = rd_identity rd path contents, of_bytes = Inr contents\<rparr>"
| "open_node rd path (Some Sym) = rd_links rd path"
| "open_node rd path (Some (Faulty e)) = Inl e"
| "open_node rd path (Some (Sealed e)) = Inl e"
| "open_node rd path (Some _) = Inl not_regular"

fun entry_present :: "node option \<Rightarrow> bool" where
  "entry_present None \<longleftrightarrow> False"
| "entry_present (Some (Faulty e)) \<longleftrightarrow> False"
| "entry_present _ \<longleftrightarrow> True"

text \<open>The metadata of a page, as its directory entry is: the outcome of opening it, whether it is there, and what the
  metadata directory is.\<close>

definition open_metadata_entry :: "reading \<Rightarrow> entries \<Rightarrow> string \<Rightarrow> io_error + opened_file" where
  "open_metadata_entry rd d name =
     (case map_of d METADATA_DIRECTORY of
        None \<Rightarrow> Inl (io_err NotFound [])
      | Some (Dir ds) \<Rightarrow> open_node rd [METADATA_DIRECTORY, name] (map_of ds name)
      | Some Sym \<Rightarrow> rd_links rd [METADATA_DIRECTORY, name]
      | Some (Sealed e) \<Rightarrow> Inl e
      | Some (Faulty e) \<Rightarrow> Inl e
      | Some _ \<Rightarrow> Inl (io_err NotADirectory []))"

definition metadata_entry_present :: "reading \<Rightarrow> entries \<Rightarrow> string \<Rightarrow> bool" where
  "metadata_entry_present rd d name =
     (case map_of d METADATA_DIRECTORY of
        Some (Dir ds) \<Rightarrow> entry_present (map_of ds name)
      | Some Sym \<Rightarrow> rd_linked rd name
      | _ \<Rightarrow> False)"

definition metadata_parent :: "entries \<Rightarrow> io_error + entry_type" where
  "metadata_parent d =
     (case map_of d METADATA_DIRECTORY of
        None \<Rightarrow> Inl (io_err NotFound [])
      | Some (Dir ds) \<Rightarrow> Inr Directory_Entry
      | Some (Sealed e) \<Rightarrow> Inr Directory_Entry
      | Some Sym \<Rightarrow> Inr Symlink_Entry
      | Some (Faulty e) \<Rightarrow> Inl e
      | Some _ \<Rightarrow> Inr Other_Entry)"

text \<open>\<open>pin_snapshot\<close>: the page first, then its metadata.\<close>

definition pin_snapshot :: "reading \<Rightarrow> entries \<Rightarrow> string \<Rightarrow> io_error + (opened_file \<times> opened_file option)" where
  "pin_snapshot rd d name =
     res_bind (open_node rd [name] (map_of d name)) (\<lambda>file.
     res_bind (open_static_metadata (open_metadata_entry rd d name) (metadata_entry_present rd d name) (metadata_parent d) (rd_target rd))
       (\<lambda>metadata. Inr (file, metadata)))"

definition parse_pinned ::
  "('hv, 'h) snapshot_lib \<Rightarrow> ('hm, 'hv) header_ops \<Rightarrow> 'hm verified \<Rightarrow> string list \<Rightarrow> io_error + (opened_file \<times> opened_file option) \<Rightarrow>
   'hm verified \<times> (io_error + (opened_file \<times> 'hm response_parts option))" where
  "parse_pinned lib h memory canonical pinned =
     (case pinned of Inl e \<Rightarrow> (memory, Inl e) | Inr p \<Rightarrow> parse_static_snapshot lib h memory canonical p)"

text \<open>\<open>read_paired_static_file\<close>, from the shared publication lock on. Without a lock file, a page with metadata is read again
  if there is one by then.\<close>

definition read_paired ::
  "('hv, 'h) snapshot_lib \<Rightarrow> ('hm, 'hv) header_ops \<Rightarrow> lock_call \<Rightarrow> reading \<Rightarrow> string list \<Rightarrow> 'hm verified \<Rightarrow> entries \<Rightarrow> string \<Rightarrow>
   'hm verified \<times> (io_error + (opened_file \<times> 'hm response_parts option))" where
  "read_paired lib h lk rd canonical memory d name =
     (let lock = lock_entry lk d PUBLICATION_LOCK False;
          lockless = (case lock of Inl e \<Rightarrow> True | Inr _ \<Rightarrow> False);
          pinned = pin_snapshot rd d name;
          legacy = (case pinned of Inr (_, None) \<Rightarrow> True | _ \<Rightarrow> False)
      in case lock of
           Inl e \<Rightarrow>
             if io_error_kind e \<noteq> NotFound then (memory, Inl e)
             else (case parse_pinned lib h memory canonical pinned of (memory1, snapshot) \<Rightarrow>
               if lockless \<and> \<not> legacy
               then (case lock_entry lk d PUBLICATION_LOCK False of
                       Inr _ \<Rightarrow> parse_pinned lib h memory1 canonical (pin_snapshot rd d name)
                     | Inl e \<Rightarrow> if io_error_kind e = NotFound then (memory1, snapshot) else (memory1, Inl e))
               else (memory1, snapshot))
         | Inr _ \<Rightarrow> parse_pinned lib h memory canonical pinned)"

section \<open>Writing\<close>

text \<open>\<open>write_static_route_managed\<close> in the directory of the page: the captured response becomes the metadata.\<close>

definition write_page ::
  "('hv, 'h) snapshot_lib \<Rightarrow> ('hm, 'hv) header_ops \<Rightarrow> faults \<Rightarrow> lock_call \<Rightarrow> (string \<Rightarrow> bytes) \<Rightarrow> nat \<Rightarrow> string \<Rightarrow>
   'hm response_parts \<Rightarrow> bytes \<Rightarrow> staging \<Rightarrow> unit staged" where
  "write_page lib h fl lk sha256 pid name options html s =
     stage_page fl lk sha256 pid name html (metadata_bytes lib h options html) s"

section \<open>The reserved entries\<close>

text \<open>The metadata directory and the publication lock are created if they are missing, and otherwise left as they are.\<close>

fun directory_kept :: "node option \<Rightarrow> node option \<Rightarrow> bool" where
  "directory_kept None x \<longleftrightarrow> x = None \<or> (\<exists>ds. x = Some (Dir ds))"
| "directory_kept (Some (Dir ds)) x \<longleftrightarrow> (\<exists>ds'. x = Some (Dir ds'))"
| "directory_kept (Some nd) x \<longleftrightarrow> x = Some nd"

lemma directory_kept_refl: "directory_kept x x"
  by (cases "(x, x)" rule: directory_kept.cases) auto

lemma directory_kept_made:
  "directory_kept x y \<Longrightarrow> y = None \<or> (\<exists>ds. y = Some (Dir ds)) \<Longrightarrow> directory_kept x (Some (Dir ds))"
  by (cases "(x, y)" rule: directory_kept.cases) auto

definition reserved_kept :: "(string \<rightharpoonup> node) \<Rightarrow> (string \<rightharpoonup> node) \<Rightarrow> bool" where
  "reserved_kept m0 m \<longleftrightarrow>
     directory_kept (m0 METADATA_DIRECTORY) (m METADATA_DIRECTORY)
     \<and> (m PUBLICATION_LOCK = m0 PUBLICATION_LOCK \<or> m0 PUBLICATION_LOCK = None \<and> m PUBLICATION_LOCK = Some (Reg 1 []))"

lemma reserved_refl: "reserved_kept m m"
  by (simp add: reserved_kept_def directory_kept_refl)

lemma reserved_other [simp]:
  "n \<noteq> METADATA_DIRECTORY \<Longrightarrow> n \<noteq> PUBLICATION_LOCK \<Longrightarrow> reserved_kept m0 (m(n := x)) = reserved_kept m0 m"
  by (simp add: reserved_kept_def)

lemma lock_not_directory: "METADATA_DIRECTORY \<noteq> PUBLICATION_LOCK"
  by (simp add: METADATA_DIRECTORY_def PUBLICATION_LOCK_def)

text \<open>A new private file.\<close>

lemma reserved_lock:
  "n \<noteq> METADATA_DIRECTORY \<Longrightarrow> m n = None \<Longrightarrow> reserved_kept m0 m \<Longrightarrow> reserved_kept m0 (m(n \<mapsto> Reg 1 []))"
  by (cases "n = PUBLICATION_LOCK") (use lock_not_directory in \<open>auto simp: reserved_kept_def\<close>)

text \<open>The metadata directory is made, or changed inside.\<close>

lemma reserved_directory:
  assumes "reserved_kept m0 m" "m METADATA_DIRECTORY = None \<or> (\<exists>ds. m METADATA_DIRECTORY = Some (Dir ds))"
  shows "reserved_kept m0 (m(METADATA_DIRECTORY \<mapsto> Dir ds))"
  using assms lock_not_directory directory_kept_made by (auto simp: reserved_kept_def)

abbreviation keeps :: "(string \<rightharpoonup> node) \<Rightarrow> 'a staged \<Rightarrow> bool" where
  "keeps m0 \<equiv> outcome (\<lambda>_. names_are (reserved_kept m0)) (names_are (reserved_kept m0))"

lemma keeps_attempt:
  "names_are (reserved_kept m0) s \<Longrightarrow> (\<And>d d'. op d = Inr d' \<Longrightarrow> reserved_kept m0 (map_of d) \<Longrightarrow> reserved_kept m0 (map_of d')) \<Longrightarrow>
   keeps m0 (attempt fl op s)"
  by (rule outcome_attempt) (auto simp: names_are_def)

lemma keeps_drop:
  "temp \<noteq> METADATA_DIRECTORY \<Longrightarrow> temp \<noteq> PUBLICATION_LOCK \<Longrightarrow> names_are (reserved_kept m0) s \<Longrightarrow>
   names_are (reserved_kept m0) (drop_temp fl temp s)"
  by (simp add: names_are_def drop_temp_def map_of_remove_entry)

lemma keeps_lock:
  assumes "names_are (reserved_kept m0) s" "n \<noteq> METADATA_DIRECTORY"
  shows "keeps m0 (lock_for_writing fl lk n s)"
proof (rule outcome_weaken [OF outcome_lock [of "map_of (sg_dir s)"]])
  show "names_are (\<lambda>m. m = map_of (sg_dir s)) s" by (simp add: names_are_def)
  have "reserved_kept m0 (map_of (sg_dir s))" using assms(1) by (simp add: names_are_def)
  with assms(2) show "names_are (reserved_kept m0) t"
    if "names_are (\<lambda>m. m = map_of (sg_dir s) \<or> map_of (sg_dir s) n = None \<and> m = (map_of (sg_dir s))(n \<mapsto> Reg 1 [])) t" for t
    using that reserved_lock by (auto simp: names_are_def)
  then show "names_are (reserved_kept m0) t"
    if "names_are (\<lambda>m. m = map_of (sg_dir s) \<or> map_of (sg_dir s) n = None \<and> m = (map_of (sg_dir s))(n \<mapsto> Reg 1 [])) t" for t
    using that .
qed

lemma keeps_prepare:
  assumes "names_are (reserved_kept m0) s" "\<And>n. \<not> sf_stuck fl n" "\<forall>n. sha256 n \<noteq> []"
  shows "outcome (\<lambda>temp t. names_are (reserved_kept m0) t \<and> temp \<noteq> METADATA_DIRECTORY \<and> temp \<noteq> PUBLICATION_LOCK)
    (names_are (reserved_kept m0)) (prepare_file fl sha256 pid name contents s)"
  by (rule outcome_weaken [OF outcome_prepare [of "map_of (sg_dir s)"]])
    (use assms private_distinct [OF assms(3)] in \<open>auto simp: names_are_def\<close>)

lemma keeps_publish:
  assumes "names_are (reserved_kept m0) s" "temp \<noteq> METADATA_DIRECTORY" "temp \<noteq> PUBLICATION_LOCK"
    and "\<And>d d'. op d = Inr d' \<Longrightarrow> reserved_kept m0 (map_of d) \<Longrightarrow> reserved_kept m0 (map_of d')"
  shows "keeps m0 (publish_file fl temp op s)"
  unfolding publish_file_def
  by (rule outcome_on_error [OF keeps_attempt]) (use assms keeps_drop in auto)

lemma keeps_metadata:
  assumes "names_are (reserved_kept m0) s" "\<And>n. \<not> sf_stuck fl n" "\<forall>n. sha256 n \<noteq> []"
  shows "keeps m0 (stage_metadata fl lk sha256 pid name metadata s)"
  unfolding stage_metadata_def
proof (rule outcome_and_then [OF keeps_prepare [OF assms]], elim conjE)
  let ?I = "names_are (reserved_kept m0)"
  fix temp t
  assume t: "?I t" "temp \<noteq> METADATA_DIRECTORY" "temp \<noteq> PUBLICATION_LOCK"
  have made: "keeps m0 (attempt fl (create_dir METADATA_DIRECTORY) u)" if "?I u" for u
    by (rule keeps_attempt [OF that]) (auto dest!: create_dir_Inr intro: reserved_directory)
  have "keeps m0 (on_error (drop_temp fl temp)
      (and_then (lock_for_writing fl lk PUBLICATION_LOCK t) (\<lambda>s _. attempt fl (create_dir METADATA_DIRECTORY) s)))"
    by (rule outcome_on_error [OF outcome_and_then [OF keeps_lock [OF t(1)] made]])
      (use t lock_not_directory keeps_drop in auto)
  moreover have "keeps m0 (publish_file fl temp (rename_into temp METADATA_DIRECTORY name) u)" if "?I u" for u
    by (rule keeps_publish [OF that t(2,3)])
      (use t(2,3) in \<open>auto simp: rename_into_Inr map_of_set map_of_remove_entry intro!: reserved_directory\<close>)
  moreover have "keeps m0 (attempt fl (reopen_dir METADATA_DIRECTORY) u)" "keeps m0 (attempt fl Inr u)" if "?I u" for u
    using that by (auto intro!: keeps_attempt simp: reopen_dir_def res_bind_Inr_iff)
  ultimately show "keeps m0 (and_then (on_error (drop_temp fl temp)
         (and_then (lock_for_writing fl lk PUBLICATION_LOCK t) (\<lambda>s _. attempt fl (create_dir METADATA_DIRECTORY) s))) (\<lambda>s _.
     and_then (publish_file fl temp (rename_into temp METADATA_DIRECTORY name) s) (\<lambda>s _.
     and_then (attempt fl (reopen_dir METADATA_DIRECTORY) s) (\<lambda>s _. attempt fl Inr s))))"
    by (intro outcome_and_then)
qed

lemma keeps_page:
  assumes "names_are (reserved_kept m0) s" "\<And>n. \<not> sf_stuck fl n" "\<forall>n. sha256 n \<noteq> []" "\<not> is_private name"
  shows "keeps m0 (stage_page fl lk sha256 pid name html metadata s)"
  unfolding stage_page_def
proof (rule outcome_and_then [OF keeps_lock [OF assms(1)]])
  show "lock_name sha256 name \<noteq> METADATA_DIRECTORY" by (rule private_distinct [OF assms(3)])
  let ?I = "names_are (reserved_kept m0)"
  have name: "name \<noteq> METADATA_DIRECTORY" "name \<noteq> PUBLICATION_LOCK" using assms(4) private_names by metis+
  fix x :: unit and t
  assume "?I t"
  then show "keeps m0 (and_then (prepare_file fl sha256 pid name html t) (\<lambda>s temp.
     and_then (on_error (drop_temp fl temp) (stage_metadata fl lk sha256 pid name metadata s)) (\<lambda>s _.
     and_then (publish_file fl temp (rename_entry temp name) s) (\<lambda>s _. attempt fl Inr s))))"
  proof (rule outcome_and_then [OF keeps_prepare [OF _ assms(2,3)]], elim conjE)
    fix temp u
    assume u: "?I u" "temp \<noteq> METADATA_DIRECTORY" "temp \<noteq> PUBLICATION_LOCK"
    have "keeps m0 (on_error (drop_temp fl temp) (stage_metadata fl lk sha256 pid name metadata u))"
      by (rule outcome_on_error [OF keeps_metadata [OF u(1) assms(2,3)]]) (use u keeps_drop in auto)
    moreover have "keeps m0 (publish_file fl temp (rename_entry temp name) v)" if "?I v" for v
      by (rule keeps_publish [OF that u(2,3)])
        (use u(2,3) name in \<open>auto simp: rename_entry_def map_of_set map_of_remove_entry split: option.splits if_splits\<close>)
    moreover have "keeps m0 (attempt fl Inr v)" if "?I v" for v by (rule keeps_attempt [OF that]) simp
    ultimately show "keeps m0 (and_then (on_error (drop_temp fl temp) (stage_metadata fl lk sha256 pid name metadata u)) (\<lambda>s _.
       and_then (publish_file fl temp (rename_entry temp name) s) (\<lambda>s _. attempt fl Inr s)))"
      by (intro outcome_and_then)
  qed
qed

section \<open>What a reader gets\<close>

text \<open>The files that a reader may come across.\<close>

definition files_of :: "reading \<Rightarrow> opened_file set" where
  "files_of rd = {\<lparr>of_identity = rd_identity rd path b, of_bytes = Inr b\<rparr> | path b. True} \<union> {f. \<exists>path. rd_links rd path = Inr f}"

lemma open_node_file: "open_node rd path nd = Inr f \<Longrightarrow> f \<in> files_of rd"
  by (cases "(rd, path, nd)" rule: open_node.cases) (auto simp: files_of_def)

lemma open_metadata_file: "open_metadata_entry rd d name = Inr f \<Longrightarrow> f \<in> files_of rd"
  unfolding open_metadata_entry_def
  by (auto intro: open_node_file split: option.splits node.splits) (auto simp: files_of_def)

lemma open_static_metadata_Inr: "open_static_metadata opened_entry present parent resolved = Inr (Some f) \<Longrightarrow> opened_entry = Inr f"
  by (auto simp: open_static_metadata_def split: sum.splits if_splits entry_type.splits)

lemma pin_snapshot_files: "pin_snapshot rd d name = Inr p \<Longrightarrow> pinned_in (files_of rd) p"
  unfolding pin_snapshot_def pinned_in_def res_bind_Inr_iff
  by (auto split: option.split intro: open_node_file open_metadata_file dest!: open_static_metadata_Inr)

text \<open>Whatever the lock, a read yields what the pinned files say.\<close>

definition snapshot_of ::
  "('hv, 'h) snapshot_lib \<Rightarrow> ('hm, 'hv) header_ops \<Rightarrow> reading \<Rightarrow> entries \<Rightarrow> string \<Rightarrow> io_error + (opened_file \<times> 'hm response_parts option)" where
  "snapshot_of lib h rd d name = res_bind (pin_snapshot rd d name) (checked_snapshot lib h)"

lemma parse_pinned_value:
  assumes "memory_ok lib h F memory" "pinned_files F" "files_of rd \<subseteq> F"
  shows "snd (parse_pinned lib h memory canonical (pin_snapshot rd d name)) = snapshot_of lib h rd d name"
proof (cases "pin_snapshot rd d name")
  case (Inr p)
  with pin_snapshot_files assms(3) have "pinned_in F p" by (fastforce simp: pinned_in_def split: option.splits)
  from parse_snapshot_checked [OF assms(1,2) this] Inr show ?thesis by (simp add: parse_pinned_def snapshot_of_def)
qed (simp add: parse_pinned_def snapshot_of_def)

lemma read_paired_value:
  assumes "memory_ok lib h F memory" "pinned_files F" "files_of rd \<subseteq> F" "lk Shared True = Inr ()"
    and "map_of d PUBLICATION_LOCK = None \<or> (\<exists>c. map_of d PUBLICATION_LOCK = Some (Reg 1 c))"
  shows "snd (read_paired lib h lk rd canonical memory d name) = snapshot_of lib h rd d name"
proof -
  obtain memory1 snapshot where p: "parse_pinned lib h memory canonical (pin_snapshot rd d name) = (memory1, snapshot)" by fastforce
  then have snapshot: "snapshot = snapshot_of lib h rd d name" using parse_pinned_value [OF assms(1-3)] by (metis snd_conv)
  show ?thesis
    using assms(5)
  proof
    assume "map_of d PUBLICATION_LOCK = None"
    then have "lock_entry lk d PUBLICATION_LOCK False = Inl (io_err NotFound [])"
      by (simp add: lock_entry_def open_lock_entry_def is_regular_entry_def)
    then show ?thesis using p snapshot by (simp add: read_paired_def io_err_def Let_def)
  next
    assume "\<exists>c. map_of d PUBLICATION_LOCK = Some (Reg 1 c)"
    then have "\<exists>d'. lock_entry lk d PUBLICATION_LOCK False = Inr d'"
      using assms(4) by (auto simp: lock_entry_def open_lock_entry_def is_regular_entry_def file_lock_acquire_def)
    then show ?thesis using p snapshot by (auto simp: read_paired_def Let_def)
  qed
qed

text \<open>A reader sees the same metadata while the entry is the same.\<close>

lemma metadata_seen:
  assumes "directory_kept (map_of d0 METADATA_DIRECTORY) (map_of d METADATA_DIRECTORY)"
    and "metadata_of (map_of d) name = metadata_of (map_of d0) name"
  shows "open_static_metadata (open_metadata_entry rd d name) (metadata_entry_present rd d name) (metadata_parent d) (rd_target rd) =
    open_static_metadata (open_metadata_entry rd d0 name) (metadata_entry_present rd d0 name) (metadata_parent d0) (rd_target rd)"
proof (cases "map_of d0 METADATA_DIRECTORY = map_of d METADATA_DIRECTORY")
  case True
  then show ?thesis by (simp add: open_metadata_entry_def metadata_entry_present_def metadata_parent_def)
next
  case False
  with assms(1) obtain ds where ds: "map_of d METADATA_DIRECTORY = Some (Dir ds)"
    and d0: "map_of d0 METADATA_DIRECTORY = None \<or> (\<exists>ds0. map_of d0 METADATA_DIRECTORY = Some (Dir ds0))"
    by (cases "(map_of d0 METADATA_DIRECTORY, map_of d METADATA_DIRECTORY)" rule: directory_kept.cases) auto
  from d0 show ?thesis
  proof (elim disjE exE)
    assume n: "map_of d0 METADATA_DIRECTORY = None"
    with assms(2) ds have "map_of ds name = None" by (simp add: metadata_of_def)
    with n ds show ?thesis
      by (simp add: open_metadata_entry_def metadata_entry_present_def metadata_parent_def open_static_metadata_def io_err_def)
  next
    fix ds0
    assume n: "map_of d0 METADATA_DIRECTORY = Some (Dir ds0)"
    with assms(2) ds have "map_of ds name = map_of ds0 name" by (simp add: metadata_of_def)
    with n ds show ?thesis
      by (simp add: open_metadata_entry_def metadata_entry_present_def metadata_parent_def)
  qed
qed

lemma metadata_found:
  assumes "metadata_of (map_of d) name = Some (Reg l b)"
  shows "open_static_metadata (open_metadata_entry rd d name) (metadata_entry_present rd d name) (metadata_parent d) (rd_target rd) =
    Inr (Some \<lparr>of_identity = rd_identity rd [METADATA_DIRECTORY, name] b, of_bytes = Inr b\<rparr>)"
proof -
  obtain ds where "map_of d METADATA_DIRECTORY = Some (Dir ds)" "map_of ds name = Some (Reg l b)"
    using assms by (auto simp: metadata_of_def split: option.splits node.splits)
  then show ?thesis by (simp add: open_static_metadata_def open_metadata_entry_def)
qed

text \<open>A file that is read against the metadata of a publication yields the published response, if it has the published
  digest, and otherwise an error.\<close>

lemma checked_against:
  assumes "header_laws h" "snapshot_laws lib h" "case rp_status options of Some st \<Rightarrow> 100 \<le> st \<and> st < 1000 | None \<Rightarrow> True"
    and "of_bytes metadata = Inr (metadata_bytes lib h options html)"
  shows "(\<exists>e. checked_snapshot lib h (file, Some metadata) = Inl e)
    \<or> (\<exists>body p. checked_snapshot lib h (file, Some metadata) = Inr (file, Some p) \<and> of_bytes file = Inr body
        \<and> sha256_hex lib body = sha256_hex lib html \<and> rp_status p = rp_status options
        \<and> (\<forall>k. h_get_all h (rp_headers p) k = h_get_all h (rp_headers options) k))"
proof (cases "of_bytes file")
  case (Inl e)
  have "\<exists>e. verify_pair lib h file metadata = Inl e"
  proof (cases "verify_pair lib h file metadata")
    case (Inr p)
    with Inl show ?thesis
      by (auto simp: verify_pair_def body_digest_def res_bind_Inr_iff Let_def split: if_splits)
  qed simp
  then have "\<exists>e. checked_snapshot lib h (file, Some metadata) = Inl e"
    by (cases "of_identity file"; cases "of_identity metadata") (auto simp: checked_snapshot_def)
  then show ?thesis by blast
next
  case (Inr body)
  note checked = snapshot_check [OF assms Inr]
  show ?thesis
  proof (cases "of_identity file"; cases "of_identity metadata")
    fix i j
    assume "of_identity file = Inr i" "of_identity metadata = Inr j"
    with checked Inr show ?thesis by (cases "sha256_hex lib body = sha256_hex lib html") (auto simp: checked_snapshot_def)
  qed (simp_all add: checked_snapshot_def)
qed

section \<open>Property\<close>

text \<open>C8: a reader after a publication gets the published response, or what it would have got before, or an error that
  makes the page be rendered again, and never a page with a response it was not rendered with. Whichever system call of
  the publication failed, as long as files can be removed: after a success the reader gets the published page with the
  captured status and, for every name, the captured header values in order; after a failure it gets just what a reader
  got before, or an error, or a page with the published digest and the captured response. This holds whatever pages
  were read before through the memory of checked pairs, if file identities pin the bytes.\<close>

theorem publication_read_back:
  assumes "header_laws h" "snapshot_laws lib h" "case rp_status options of Some st \<Rightarrow> 100 \<le> st \<and> st < 1000 | None \<Rightarrow> True"
    and "write_page lib h fl lk sha256 pid name options html s = (s', r)"
    and "\<And>n. \<not> sf_stuck fl n" and "\<forall>n. sha256 n \<noteq> []" and "\<not> is_private name"
    and "pinned_files F" and "files_of rd \<subseteq> F" and "\<forall>(c, pinned) \<in> set reads1 \<union> set reads2. pinned_in F pinned"
    and "\<forall>path b. \<exists>i. rd_identity rd path b = Inr i" and "readers Shared True = Inr ()"
    and "map_of (sg_dir s) PUBLICATION_LOCK = None \<or> (\<exists>c. map_of (sg_dir s) PUBLICATION_LOCK = Some (Reg 1 c))"
  shows "let before = snd (read_paired lib h readers rd canonical (fst (read_snapshots lib h [] reads1)) (sg_dir s) name);
             now = snd (read_paired lib h readers rd canonical (fst (read_snapshots lib h [] reads2)) (sg_dir s') name);
             is_new = (\<exists>file body p. now = Inr (file, Some p) \<and> of_bytes file = Inr body
               \<and> sha256_hex lib body = sha256_hex lib html \<and> (r = Inr () \<longrightarrow> body = html)
               \<and> rp_status p = rp_status options \<and> (\<forall>k. h_get_all h (rp_headers p) k = h_get_all h (rp_headers options) k))
         in if r = Inr () then is_new else now = before \<or> is_new \<or> isl now"
proof -
  let ?m = "metadata_bytes lib h options html" and ?lock = "lock_name sha256 name"
  have start: "names_are (\<lambda>m. m = map_of (sg_dir s)) s" "names_are (reserved_kept (map_of (sg_dir s))) s"
    by (simp_all add: names_are_def reserved_refl)
  have page: "if r = Inr () then page_published (map_of (sg_dir s)) ?lock name html ?m (map_of (sg_dir s'))
      else page_left (map_of (sg_dir s)) ?lock name html ?m (map_of (sg_dir s'))"
    using outcome_stage_page [OF start(1) assms(5-7), of html ?m lk pid] assms(4)
    by (auto simp: write_page_def outcome_def names_are_def split: sum.splits)
  have kept: "reserved_kept (map_of (sg_dir s)) (map_of (sg_dir s'))"
    using keeps_page [OF start(2) assms(5-7), of lk pid html ?m] assms(4)
    by (auto simp: write_page_def outcome_def names_are_def split: sum.splits)
  have memory: "memory_ok lib h F (fst (read_snapshots lib h [] reads))" if "\<forall>(c, pinned) \<in> set reads. pinned_in F pinned" for reads
  proof -
    have "memory_ok lib h F []" by (simp add: memory_ok_def)
    from read_snapshots_checked [OF this assms(8) that] show ?thesis by (rule conjunct1)
  qed
  have lock: "map_of (sg_dir s') PUBLICATION_LOCK = None \<or> (\<exists>c. map_of (sg_dir s') PUBLICATION_LOCK = Some (Reg 1 c))"
    using kept assms(13) by (auto simp: reserved_kept_def)
  have before: "snd (read_paired lib h readers rd canonical (fst (read_snapshots lib h [] reads1)) (sg_dir s) name)
      = snapshot_of lib h rd (sg_dir s) name"
    by (rule read_paired_value [where lk = readers and d = "sg_dir s", OF memory assms(8,9,12,13)]) (use assms(10) in auto)
  have now: "snd (read_paired lib h readers rd canonical (fst (read_snapshots lib h [] reads2)) (sg_dir s') name)
      = snapshot_of lib h rd (sg_dir s') name"
    by (rule read_paired_value [where lk = readers and d = "sg_dir s'", OF memory assms(8,9,12) lock]) (use assms(10) in auto)
  let ?meta = "\<lparr>of_identity = rd_identity rd [METADATA_DIRECTORY, name] ?m, of_bytes = Inr ?m\<rparr>"
  have pin: "pin_snapshot rd (sg_dir s') name = res_bind (open_node rd [name] (map_of (sg_dir s') name)) (\<lambda>file. Inr (file, Some ?meta))"
    if "metadata_of (map_of (sg_dir s')) name = Some (Reg 1 ?m)"
    by (simp add: pin_snapshot_def metadata_found [OF that])
  note against = checked_against [OF assms(1-3), of ?meta html]
  show ?thesis
  proof (cases "map_of (sg_dir s') name = Some (Reg 1 html) \<and> metadata_of (map_of (sg_dir s')) name = Some (Reg 1 ?m)")
    case True
    let ?page = "\<lparr>of_identity = rd_identity rd [name] html, of_bytes = Inr html\<rparr>"
    obtain i j where "rd_identity rd [name] html = Inr i" "rd_identity rd [METADATA_DIRECTORY, name] ?m = Inr j"
      using assms(11) by blast
    moreover obtain p where "verify_pair lib h ?page ?meta = Inr p" "rp_status p = rp_status options"
      "\<forall>k. h_get_all h (rp_headers p) k = h_get_all h (rp_headers options) k"
      using verified_page [OF assms(1-3), of ?meta html ?page] by auto
    ultimately show ?thesis
      using True pin unfolding before now Let_def snapshot_of_def by (simp add: checked_snapshot_def)
  next
    case False
    with page have r: "r \<noteq> Inr ()" and left: "page_left (map_of (sg_dir s)) ?lock name html ?m (map_of (sg_dir s'))"
      by (auto simp: page_published_def split: if_splits)
    from left False have same: "map_of (sg_dir s') name = map_of (sg_dir s) name"
      by (auto simp: page_left_def)
    show ?thesis
    proof (cases "metadata_of (map_of (sg_dir s')) name = metadata_of (map_of (sg_dir s)) name")
      case True
      with same kept have "pin_snapshot rd (sg_dir s') name = pin_snapshot rd (sg_dir s) name"
        using metadata_seen [of "sg_dir s" "sg_dir s'" name rd] by (simp add: pin_snapshot_def reserved_kept_def)
      then show ?thesis unfolding before now Let_def snapshot_of_def using r by simp
    next
      case m: False
      with left have "metadata_of (map_of (sg_dir s')) name = Some (Reg 1 ?m)" by (auto simp: page_left_def)
      from pin [OF this] show ?thesis
      proof (cases "open_node rd [name] (map_of (sg_dir s') name)")
        case (Inr opened)
        with pin [OF \<open>metadata_of (map_of (sg_dir s')) name = Some (Reg 1 ?m)\<close>]
        have "snapshot_of lib h rd (sg_dir s') name = checked_snapshot lib h (opened, Some ?meta)" by (simp add: snapshot_of_def)
        with against [of opened] r show ?thesis unfolding before now Let_def by auto
      qed (use r in \<open>simp add: before now Let_def snapshot_of_def\<close>)
    qed
  qed
qed

text \<open>The first publication of a page, without a failure.\<close>

definition plain_reading :: reading where
  "plain_reading = \<lparr>rd_links = (\<lambda>_. Inl (io_err NotFound [])), rd_linked = (\<lambda>_. False), rd_target = Inl (io_err NotFound []),
     rd_identity = (\<lambda>_ b. Inr \<lparr>id_device = 1, id_inode = 2, id_length = 3, id_changed = (int (to_nat b), 0), id_modified = (0, 0)\<rparr>)\<rparr>"

lemma plain_reading_files: "pinned_files (files_of plain_reading)"
  by (auto simp: pinned_files_def files_of_def plain_reading_def)

definition no_faults :: faults where
  "no_faults = \<lparr>sf_call = (\<lambda>_. None), sf_stuck = (\<lambda>_. False)\<rparr>"

theorem publication_read_back_witness:
  "\<exists>s' file p. write_page demo_snapshots list_headers no_faults (\<lambda>_ _. Inr ()) (\<lambda>_. [0, 1]) 7 ''a.html'' demo_parts [104]
       \<lparr>sg_seq = 5, sg_calls = 0, sg_dir = []\<rparr> = (s', Inr ())
     \<and> snd (read_paired demo_snapshots list_headers (\<lambda>_ _. Inr ()) plain_reading [''srv''] [] (sg_dir s') ''a.html'') = Inr (file, Some p)
     \<and> of_bytes file = Inr [104] \<and> rp_status p = Some 201 \<and> h_get_all list_headers (rp_headers p) ''x-a'' = [''1'', ''2'']"
proof -
  let ?sha = "\<lambda>_ :: string. [0, 1] :: bytes"
  let ?s = "\<lparr>sg_seq = 5, sg_calls = 0, sg_dir = []\<rparr>"
  let ?t = "temp_name ?sha 7 ''a.html'' 5" and ?u = "temp_name ?sha 7 (metadata_name ''a.html'') 6" and ?l = "lock_name ?sha ''a.html''"
  have sha: "\<forall>n. ?sha n \<noteq> []" by simp
  have name: "\<not> is_private ''a.html''" by (simp add: is_private_def)
  have names: "?t \<noteq> ''a.html''" "?u \<noteq> ''a.html''" "?l \<noteq> ''a.html''" "?t \<noteq> ?l" "?u \<noteq> ?l"
    "?t \<noteq> METADATA_DIRECTORY" "?u \<noteq> METADATA_DIRECTORY" "?t \<noteq> PUBLICATION_LOCK" "?u \<noteq> PUBLICATION_LOCK" "?l \<noteq> METADATA_DIRECTORY"
    "PUBLICATION_LOCK \<noteq> METADATA_DIRECTORY" "PUBLICATION_LOCK \<noteq> ''a.html''" "METADATA_DIRECTORY \<noteq> ''a.html''"
    using private_names name private_distinct [OF sha] by metis+
  have temps: "?t \<noteq> ?u" by (simp add: temp_name_def show_nat.simps)
  have lock: "?l \<noteq> PUBLICATION_LOCK" by (simp add: lock_name_def PUBLICATION_LOCK_def Let_def)
  obtain s' r where w: "write_page demo_snapshots list_headers no_faults (\<lambda>_ _. Inr ()) ?sha 7 ''a.html'' demo_parts [104] ?s = (s', r)"
    by fastforce
  have r: "r = Inr ()"
    using w names names(4,5) [symmetric] temps temps [symmetric] lock lock [symmetric]
    by (simp add: write_page_def stage_page_def stage_metadata_def lock_for_writing_def attempt_def and_then_def on_error_def prepare_file_def
        create_temporary_def create_new_def publish_file_def rename_into_def rename_entry_def create_dir_def reopen_dir_def
        map_of_set map_of_remove_entry no_faults_def open_lock_entry_def file_lock_acquire_def Let_def)
  have st: "case rp_status demo_parts of Some st \<Rightarrow> 100 \<le> st \<and> st < 1000 | None \<Rightarrow> True" by (simp add: demo_parts_def)
  have plain: "\<not> sf_stuck no_faults n" for n by (simp add: no_faults_def)
  have ids: "\<forall>path b. \<exists>i. rd_identity plain_reading path b = Inr i" by (simp add: plain_reading_def)
  from publication_read_back [OF list_headers_laws demo_snapshot_laws st w plain sha name plain_reading_files subset_refl _ ids refl,
      of "[]" "[]" "[''srv'']"] r
  obtain opened body p where f: "snd (read_paired demo_snapshots list_headers (\<lambda>_ _. Inr ()) plain_reading [''srv''] [] (sg_dir s') ''a.html'')
      = Inr (opened, Some p)" "of_bytes opened = Inr body" "body = [104]" "rp_status p = rp_status demo_parts"
    "\<forall>k. h_get_all list_headers (rp_headers p) k = h_get_all list_headers (rp_headers demo_parts) k"
    by auto
  have "rp_status p = Some 201" "h_get_all list_headers (rp_headers p) ''x-a'' = [''1'', ''2'']"
    using f(4,5) by (simp_all add: demo_parts_def list_headers_def)
  with w r f(1-3) show ?thesis by blast
qed

end
