(* ===== verification/Spec2Isabelle.thy ===== *)
theory Spec2Isabelle
  imports Coherence Policy Dispatch Publication Work_Progress Extractors Route_Config Owner_Scope
    Ws_Lifetime Server_Fn_Io Managed_Roots Scoped_Work Staging Static_Render Route_Generation
    Lock_Refinement Page_Store
begin

text \<open>
  A verification of \<^emph>\<open>leptos\_ntex\<close>, the adapter that serves Leptos applications with the ntex web framework.

  \<^bold>\<open>The program.\<close> The adapter dispatches server functions (over plain HTTP and over websockets), gives every request
  a scope that user code reaches through thread-free handles, serves static files below a site root, and renders
  static routes on demand into that root. Static generation is the stateful core: a process-wide table lets
  concurrent callers share one generation of a page, permit pools bound the work, a control record below the root
  bounds the bytes and entries of the whole site, and HTML and response metadata are published by renames under
  advisory locks, so that readers pair them without parsing half a publication.

  \<^bold>\<open>Theories and sources\<close> (paths below \<^verbatim>\<open>src/src/\<close>), in the order in which they build on each other:

  \<^item> \<open>Prelude\<close>: machine integers, byte strings, results as sums (\<open>Inl\<close> is the error), checked arithmetic, and the
    lemma collections of the library.
  \<^item> \<open>Storage_Record\<close>, \<open>Storage\<close>, \<open>Admission\<close>, \<open>Coherence\<close> (\<^verbatim>\<open>static_routes/storage.rs\<close>): the 40-byte control record; the
    inventory of a site; admission of a publication against the limits, and the generation counter that tells
    whether the cached inventory may be used. \<open>Coherence\<close> proves that it equals the inventory of the directory in
    every reachable interleaving of publishers, crashes included, and that an admitted publication fits the limits.
  \<^item> \<open>Managed_Roots\<close> (\<^verbatim>\<open>static_routes/storage.rs\<close>): installation of policies on a tree of directories. For plain paths
    no policy root ever lies below another; a path that leads through a missing directory and \<open>..\<close> escapes the check
    (\<open>detour_nests_roots\<close>).
  \<^item> \<open>Fs_Boundary\<close> (\<^verbatim>\<open>fs_boundary.rs\<close>): paths below a root and lock entries. \<open>Leases\<close>: lock entries and their locks when the
    directory changes between any two system calls and forked children keep descriptors; a guard excludes others by the
    name of its entry, and only while it lives. \<open>Lock_Refinement\<close>: undisturbed, the calls implement \<open>Fs_Boundary\<close>'s function.
  \<^item> \<open>Permits\<close>, \<open>Policy\<close> (\<^verbatim>\<open>static_routes/policy.rs\<close>): permit pools with their wakers as a step relation (accounting,
    no lost wakeup), and the policies of static routes. \<open>Policy_Handle\<close>: the handle that opens a policy and hands out
    permits; a generation holds exactly one subscription permit per stream.
  \<^item> \<open>Static_Work\<close> (\<^verbatim>\<open>static_routes.rs\<close>, the runtime): callers, generation tasks and their guard as a step relation over
    the shared tables; at most one generation per entry, and every accepted caller is answered. \<open>Work_Progress\<close> bounds
    the steps of all generations by the callers, so the tasks terminate. \<open>Static_Render\<close> is the render of such a task:
    its document is the page that an asynchronous route would send.
  \<^item> \<open>Files\<close> (\<^verbatim>\<open>files.rs\<close>): path validation, content-coding negotiation, preconditions and ranges, and the two handlers.
  \<^item> \<open>Static_Path\<close> (\<^verbatim>\<open>static_routes.rs\<close>, paths): the file of a static route, and the keys under which spellings of one
    entry share a generation.
  \<^item> \<open>Snapshot\<close>, \<open>Publication\<close> (\<^verbatim>\<open>static_routes.rs\<close>, publication): metadata beside a page, its check and the memory of
    checked pairs; then publishers and readers of a page as interleaved steps. \<open>Staging\<close>: one publication system call by
    system call, each of which may fail; it leaves no temporary files, and the old page, or a page with its metadata.
  \<^item> \<open>Serving\<close> (\<^verbatim>\<open>static_routes.rs\<close>, handler): what a render becomes, the answer of a static route, the generation report.
    \<open>Page_Store\<close> puts a publication and its readers together: what is read after it is the published response, or what
    was read before, or an error that leads to another render.
  \<^item> \<open>Routes\<close>, \<open>Route_Config\<close> (\<^verbatim>\<open>routes.rs\<close>, \<^verbatim>\<open>leptos_routes.rs\<close>): the route list, its exclusions, what is registered with
    ntex through either of the two interfaces, and that every generated pattern is one that ntex accepts.
    \<open>Route_Generation\<close> (also \<^verbatim>\<open>static_routes.rs\<close>): the list together with its generator of static pages, whose runs a
    policy bound to the list governs.
  \<^item> \<open>Page_Render\<close> (\<^verbatim>\<open>render.rs\<close>, \<^verbatim>\<open>response.rs\<close>, \<^verbatim>\<open>request.rs\<close>): the contexts of a page, the three ways to stream it, the
    response fixed by its first chunk, and the refusal of a page without a request scope.
  \<^item> \<open>Extractors\<close> (\<^verbatim>\<open>extract.rs\<close>, \<^verbatim>\<open>request.rs\<close>): extraction from the request with its errors, and the release of a batch of
    requests whose destructors may panic.
  \<^item> \<open>Response\<close>, \<open>Body_Stream\<close> (\<^verbatim>\<open>response.rs\<close>, \<^verbatim>\<open>stream.rs\<close>): response overrides and redirects; containment of body errors.
  \<^item> \<open>Utf8\<close>, \<open>Qvalue\<close>, \<open>Payload\<close> (\<^verbatim>\<open>config.rs\<close>, \<^verbatim>\<open>server_fn/request.rs\<close>): quality values, limits on request bodies and
    the ways a body is collected, streamed or drained.
  \<^item> \<open>Ws_Frames\<close>, \<open>Ws_Connection\<close> (\<^verbatim>\<open>server_fn/websocket.rs\<close>): checks and reassembly of frames; the handshake and the
    pump between socket and server function. \<open>Ws_Lifetime\<close>: the scope of a connection as a step relation; its tasks are
    cancelled when the pump is over, and the close is sent once.
  \<^item> \<open>Registry\<close>, \<open>Dispatch\<close> (\<^verbatim>\<open>server_fn/registry.rs\<close>, \<^verbatim>\<open>server_fn/handlers.rs\<close>): lookup and dispatch of server functions.
    \<open>Server_Fn_Io\<close> (\<^verbatim>\<open>server_fn/request.rs\<close>, \<^verbatim>\<open>server_fn/response.rs\<close>): what a server function reads of its request and how
    its output becomes a response.
  \<^item> \<open>Request_Scope\<close> (\<^verbatim>\<open>request.rs\<close>): per-worker registries of requests, the handles to them and their collection.
  \<^item> \<open>Owner_Scope\<close> (\<^verbatim>\<open>owner.rs\<close>): the reactive owner of a request, held by its body and its tasks on any threads.
    \<open>Scoped_Work\<close>: values wrapped with the owner and the observer of their creation, whose polls and destructors nest
    and may unwind.

  \<^bold>\<open>Conventions.\<close> A struct is a record, an enum a datatype, an operation a function that returns the new state; every
  early return and error is a branch. Concurrent parts are inductive step relations whose steps are the atomic
  actions of the code (a mutex section, a rename, a poll); what holds in all interleavings is proved by induction
  over reachable states. Third-party code (ntex, ntex-files, http, serde, sha2, the reactive system, the file
  system) enters as arguments of the definitions, grouped in records; the laws that a theorem needs of them are
  hypotheses with names (such as \<open>header_laws\<close> and \<open>snapshot_laws\<close>), and each has a concrete instance for which the
  laws are proved.

  \<^bold>\<open>Bounds.\<close> Counters and sizes that the code keeps in \<^verbatim>\<open>u64\<close> or \<^verbatim>\<open>usize\<close> are words, with checked or wrapping addition
  as in the code. The only fuel is \<open>PUMP_ROUNDS\<close>, which is the code's own budget for one poll of a websocket pump, and
  the number 4 in \<open>Lock_Refinement\<close>, the most calls that an undisturbed opener makes before its lock; all other
  functions are total. \<open>CAPACITY\<close> is the code's bound on the memory of checked pairs.

  \<^bold>\<open>Not modelled.\<close> Rendering of a component tree, its grouping into chunks and the insertion of meta tags belong to
  Leptos, the individual extractors to ntex; their results are arguments. The walk of the router's tree is
  third-party as well. The re-exports of the crate root have no behaviour. The platform-specific system calls behind
  the file-system boundary belong to the operating system; the non-Unix variants, the formatting of values for
  debugging and the flushing of directories, which changes no entry, are left out, as are the tests and examples.
\<close>

end
